(* ===== verification/Prelude.thy ===== *)
theory Prelude
  imports Main "HOL-Library.Word" "HOL-Library.Monad_Syntax"
begin

text \<open>
  What every component of the development shares.

  The programs are C programs.  A definition of the model returns an \<open>option\<close> where the C
  function may run into undefined behaviour (a NULL or dangling dereference, signed overflow) or
  may fail to return: both are \<^const>\<open>None\<close>, so a theorem that says \<^const>\<open>Some\<close> says that the
  call is safe and terminates.  Where a C call waits (a condition variable) or exits the process,
  the result type of the model says so separately.

  The theory holds the allocator-backed store of records (\<open>heap\<close>), the fixed-width arithmetic
  helpers, C strings (character lists without a NUL), decimal printing (\<open>%u\<close>, \<open>%d\<close>, \<open>%lu\<close>) and
  the facts on links between the nodes of a list that the three linked structures of the
  repository (the work queue, the leader's ring of followers, the allocator's free list) share.
\<close>

named_theorems heap_simps \<open>loads, stores and allocation in the record heap\<close>
named_theorems str_simps \<open>C string functions\<close>

subsection \<open>The store of heap records\<close>

type_synonym ptr = nat

type_synonym u8 = "8 word"
type_synonym u32 = "32 word"
type_synonym u64 = "64 word"

record 'a heap =
  cells :: "ptr \<Rightarrow> 'a option"
  brk :: ptr
  limit :: ptr

definition load :: "'a heap \<Rightarrow> ptr \<Rightarrow> 'a option" where
  "load h p = cells h p"

definition modify :: "'a heap \<Rightarrow> ptr \<Rightarrow> ('a \<Rightarrow> 'a) \<Rightarrow> 'a heap option" where
  "modify h p f = map_option (\<lambda>v. h\<lparr>cells := (cells h)(p \<mapsto> f v)\<rparr>) (cells h p)"

text \<open>\<open>new\<close> is \<^verbatim>\<open>malloc\<close>/\<^verbatim>\<open>calloc\<close> of one record: a fresh address, or \<^const>\<open>None\<close> for the NULL it returns
  when memory has run out.\<close>

definition new :: "'a heap \<Rightarrow> 'a \<Rightarrow> (ptr \<times> 'a heap) option" where
  "new h v = (if brk h < limit h
              then Some (brk h, h\<lparr>cells := (cells h)(brk h \<mapsto> v), brk := Suc (brk h)\<rparr>)
              else None)"

definition dealloc :: "'a heap \<Rightarrow> ptr \<Rightarrow> 'a heap option" where
  "dealloc h p = map_option (\<lambda>_. h\<lparr>cells := (cells h)(p := None)\<rparr>) (cells h p)"

definition empty_heap :: "nat \<Rightarrow> 'a heap" where
  "empty_heap n = \<lparr>cells = Map.empty, brk = 0, limit = n\<rparr>"

definition heap_ok :: "'a heap \<Rightarrow> bool" where
  "heap_ok h \<longleftrightarrow> (\<forall>p. cells h p \<noteq> None \<longrightarrow> p < brk h)"

lemma load_Some [heap_simps]: "load h p = cells h p"
  by (simp add: load_def)

lemma modify_Some [heap_simps]:
  "cells h p = Some v \<Longrightarrow> modify h p f = Some (h\<lparr>cells := (cells h)(p \<mapsto> f v)\<rparr>)"
  by (simp add: modify_def)

lemma dealloc_Some [heap_simps]:
  "cells h p = Some v \<Longrightarrow> dealloc h p = Some (h\<lparr>cells := (cells h)(p := None)\<rparr>)"
  by (simp add: dealloc_def)

lemma new_Some [heap_simps]:
  "brk h < limit h \<Longrightarrow>
   new h v = Some (brk h, h\<lparr>cells := (cells h)(brk h \<mapsto> v), brk := Suc (brk h)\<rparr>)"
  by (simp add: new_def)

lemma heap_ok_fresh: "heap_ok h \<Longrightarrow> cells h (brk h) = None"
  by (auto simp: heap_ok_def)

lemma heap_ok_less: "heap_ok h \<Longrightarrow> cells h p = Some v \<Longrightarrow> p < brk h"
  by (auto simp: heap_ok_def)

lemma heap_ok_empty [simp]: "heap_ok (empty_heap n)"
  by (simp add: heap_ok_def empty_heap_def)

lemma heap_ok_new:
  "heap_ok h \<Longrightarrow> new h v = Some (p, h') \<Longrightarrow> heap_ok h'"
  by (auto simp: heap_ok_def new_def less_Suc_eq split: if_splits)

lemma heap_ok_modify: "heap_ok h \<Longrightarrow> modify h p f = Some h' \<Longrightarrow> heap_ok h'"
  by (auto simp: heap_ok_def modify_def split: if_splits)

lemma heap_ok_dealloc: "heap_ok h \<Longrightarrow> dealloc h p = Some h' \<Longrightarrow> heap_ok h'"
  by (auto simp: heap_ok_def dealloc_def split: if_splits)

lemma modify_frame:
  "modify h p f = Some h' \<Longrightarrow> brk h' = brk h \<and> limit h' = limit h"
  by (auto simp: modify_def)

lemma dealloc_frame:
  "dealloc h p = Some h' \<Longrightarrow> brk h' = brk h \<and> limit h' = limit h"
  by (auto simp: dealloc_def)

subsection \<open>Signed integers of C\<close>

text \<open>A signed \<^verbatim>\<open>int\<close> is an \<^typ>\<open>int\<close> in range; leaving the range is undefined.\<close>

definition INT_MAX :: int where
  "INT_MAX = 2147483647"

definition c_int :: "int \<Rightarrow> int option" where
  "c_int i = (if - INT_MAX - 1 \<le> i \<and> i \<le> INT_MAX then Some i else None)"

lemma c_int_Some: "- INT_MAX - 1 \<le> i \<Longrightarrow> i \<le> INT_MAX \<Longrightarrow> c_int i = Some i"
  by (simp add: c_int_def)

subsection \<open>Links between neighbouring nodes\<close>

text \<open>\<open>successively R xs\<close> of the library says that \<open>R\<close> holds between every two neighbours of
  \<open>xs\<close>.  A linked structure is described by the list of its node addresses and the link
  relation between neighbours.\<close>

lemma successively_frame:
  assumes "successively R xs"
    and "\<And>x y. x \<in> set xs \<Longrightarrow> y \<in> set xs \<Longrightarrow> R x y \<Longrightarrow> S x y"
  shows "successively S xs"
  using assms by (induction xs rule: induct_list012) auto

lemma successively_conj:
  "successively R xs \<Longrightarrow> successively S xs \<Longrightarrow> successively (\<lambda>x y. R x y \<and> S x y) xs"
  by (induction xs rule: induct_list012) auto

lemma successively_distinct:
  "distinct xs \<Longrightarrow> successively (\<lambda>x y. x \<noteq> last xs \<and> y \<noteq> hd xs \<and> x \<noteq> y) xs"
  by (cases "xs = []")
    (auto simp: successively_conv_nth last_conv_nth hd_conv_nth nth_eq_iff_index_eq)

text \<open>A change of the store that keeps the links inside a list keeps the list: links never leave
  the last node nor enter the first one.\<close>

lemma successively_frame_ends:
  assumes "successively R xs" and "distinct xs"
    and "\<And>x y. x \<in> set xs \<Longrightarrow> y \<in> set xs \<Longrightarrow> x \<noteq> last xs \<Longrightarrow> y \<noteq> hd xs \<Longrightarrow> x \<noteq> y \<Longrightarrow> R x y \<Longrightarrow> S x y"
  shows "successively S xs"
  using successively_conj [OF assms(1) successively_distinct [OF assms(2)]]
  by (rule successively_frame) (use assms(3) in blast)

lemma successively_snocI:
  assumes "successively R xs" and "xs \<noteq> [] \<Longrightarrow> R (last xs) y"
  shows "successively R (xs @ [y])"
  using assms by (auto simp: successively_append_iff)

lemma successively_ConsI:
  assumes "successively R xs" and "xs \<noteq> [] \<Longrightarrow> R y (hd xs)"
  shows "successively R (y # xs)"
  using assms by (cases xs) auto

lemma last_hd_eq_iff: "distinct xs \<Longrightarrow> xs \<noteq> [] \<Longrightarrow> hd xs = last xs \<longleftrightarrow> length xs = 1"
  by (cases xs) (auto dest: last_in_set)

subsection \<open>C strings\<close>

text \<open>The bytes of a file or of a message are a list of characters; a C string is such a list without
  the terminating NUL.  \<open>cstr_at data off\<close> reads the string that starts at \<open>data + off\<close>: reading a
  buffer that holds no NUL from there on is undefined.\<close>

abbreviation NUL :: char where
  "NUL \<equiv> CHR 0x00"

definition cstring :: "string \<Rightarrow> bool" where
  "cstring s \<longleftrightarrow> NUL \<notin> set s"

definition cstr_at :: "char list \<Rightarrow> nat \<Rightarrow> string option" where
  "cstr_at data off =
     (if NUL \<in> set (drop off data) then Some (takeWhile (\<lambda>c. c \<noteq> NUL) (drop off data)) else None)"

lemma takeWhile_cstring: "cstring s \<Longrightarrow> takeWhile (\<lambda>c. c \<noteq> NUL) (s @ NUL # r) = s"
  unfolding cstring_def by (induction s) auto

lemma cstr_at_first [str_simps]: "cstring s \<Longrightarrow> cstr_at (s @ NUL # r) 0 = Some s"
  by (simp add: cstr_at_def takeWhile_cstring)

lemma cstr_at_second [str_simps]:
  "cstring s \<Longrightarrow> cstr_at (r @ NUL # s @ NUL # q) (length r + 1) = Some s"
  by (simp add: cstr_at_def takeWhile_cstring)

lemma cstring_append [simp]: "cstring (s @ t) \<longleftrightarrow> cstring s \<and> cstring t"
  by (auto simp: cstring_def)

lemma cstring_Nil [simp]: "cstring []"
  by (simp add: cstring_def)

lemma cstring_Cons [simp]: "cstring (c # s) \<longleftrightarrow> c \<noteq> NUL \<and> cstring s"
  by (auto simp: cstring_def)

subsection \<open>Decimal printing\<close>

text \<open>\<^verbatim>\<open>sprintf\<close> with \<open>%u\<close>, \<open>%lu\<close>, \<open>%d\<close> of a number that is not negative.\<close>

definition digit :: "nat \<Rightarrow> char" where
  "digit d = char_of (48 + d)"

fun dec :: "nat \<Rightarrow> string" where
  "dec n = (if n < 10 then [digit n] else dec (n div 10) @ [digit (n mod 10)])"

declare dec.simps [simp del]

definition undec :: "string \<Rightarrow> nat" where
  "undec s = foldl (\<lambda>v c. 10 * v + (of_char c - 48)) 0 s"

definition is_digit :: "char \<Rightarrow> bool" where
  "is_digit c \<longleftrightarrow> 48 \<le> (of_char c :: nat) \<and> (of_char c :: nat) \<le> 57"

lemma of_char_digit: "d < 10 \<Longrightarrow> of_char (digit d) = 48 + d"
  by (simp add: digit_def of_char_of)

lemma is_digit_digit: "d < 10 \<Longrightarrow> is_digit (digit d)"
  by (simp add: is_digit_def of_char_digit)

lemma undec_dec [simp]: "undec (dec n) = n"
proof (induction n rule: dec.induct)
  case (1 n)
  then show ?case
    by (cases "n < 10") (simp_all add: dec.simps [of n] undec_def of_char_digit)
qed

lemma dec_inject [simp]: "dec m = dec n \<longleftrightarrow> m = n"
  by (metis undec_dec)

lemma dec_is_digit: "c \<in> set (dec n) \<Longrightarrow> is_digit c"
proof (induction n rule: dec.induct)
  case (1 n)
  then show ?case
    by (cases "n < 10") (auto simp: dec.simps [of n] is_digit_digit)
qed

lemma dec_nonempty [simp]: "dec n \<noteq> []"
  by (subst dec.simps) simp

lemma length_dec: "n < 10 ^ k \<Longrightarrow> 0 < k \<Longrightarrow> length (dec n) \<le> k"
proof (induction n arbitrary: k rule: dec.induct)
  case (1 n)
  show ?case
  proof (cases "n < 10")
    case True
    then show ?thesis using 1(3) by (simp add: dec.simps [of n])
  next
    case False
    obtain j where j: "k = Suc j" using 1(3) by (cases k) auto
    moreover have "0 < j" using False 1(2) j by (cases j) auto
    ultimately have "length (dec (n div 10)) \<le> j" using 1 False by (intro 1(1)) auto
    with False j show ?thesis by (simp add: dec.simps [of n])
  qed
qed

lemma digit_not [simp]:
  "is_digit c \<Longrightarrow> c \<noteq> CHR ''-''" "is_digit c \<Longrightarrow> c \<noteq> CHR ''.''" "is_digit c \<Longrightarrow> c \<noteq> CHR ''/''"
  "is_digit c \<Longrightarrow> c \<noteq> NUL"
  by (auto simp: is_digit_def)

lemma cstring_dec [simp]: "cstring (dec n)"
  unfolding cstring_def using dec_is_digit digit_not(4) by blast

text \<open>A separator that is not a digit splits a text after a number in one way.\<close>

lemma dec_sep_inject:
  assumes "dec m @ c # s = dec n @ c # t" and "\<not> is_digit c"
  shows "m = n \<and> s = t"
proof -
  have tw: "takeWhile is_digit (dec k @ c # u) = dec k" for k u
    using assms(2) by (subst takeWhile_append2) (auto dest: dec_is_digit)
  from tw [of m s] tw [of n t] assms(1) have "dec m = dec n" by simp
  with assms(1) show ?thesis by simp
qed

subsection \<open>Little-endian integers in memory\<close>

fun le_bytes :: "nat \<Rightarrow> nat \<Rightarrow> char list" where
  "le_bytes 0 n = []"
| "le_bytes (Suc k) n = char_of (n mod 256) # le_bytes k (n div 256)"

fun le_val :: "char list \<Rightarrow> nat" where
  "le_val [] = 0"
| "le_val (b # bs) = of_char b + 256 * le_val bs"

lemma length_le_bytes [simp]: "length (le_bytes k n) = k"
  by (induction k arbitrary: n) auto

lemma le_val_le_bytes: "n < 256 ^ k \<Longrightarrow> le_val (le_bytes k n) = n"
proof (induction k arbitrary: n)
  case (Suc k)
  then have "le_val (le_bytes k (n div 256)) = n div 256" by auto
  then show ?case by (simp add: of_char_of)
qed simp

end
