(* ===== verification/Ut_List.thy ===== *)
theory Ut_List
  imports Prelude
begin

text \<open>
  The list macros of \<^verbatim>\<open>2PCKVStore/utlist.h\<close>: singly linked (\<^verbatim>\<open>LL_\<close>), doubly linked (\<^verbatim>\<open>DL_\<close>, the head's
  \<open>prev\<close> is the tail) and circular (\<^verbatim>\<open>CDL_\<close>) lists of any structure with the fields \<open>next\<close> and \<open>prev\<close>.
  The macros work on every such structure, so the model works on every extension of the record
  \<open>link\<close>; \<open>link.more\<close> is the rest of the structure.  A macro that assigns to its \<open>head\<close> argument
  returns the new head; \<^const>\<open>None\<close> is undefined behaviour (a NULL or dangling pointer, a failed
  \<^verbatim>\<open>assert\<close>) or a loop that does not end.
\<close>

subsection \<open>Data\<close>

record link =
  nxt :: "ptr option"
  prv :: "ptr option"

type_synonym 'e mem = "'e link_scheme heap"

text \<open>Reading and writing \<open>p->next\<close> and \<open>p->prev\<close>.\<close>

definition get_next :: "'e mem \<Rightarrow> ptr \<Rightarrow> ptr option option" where
  "get_next h p = map_option nxt (load h p)"

definition get_prev :: "'e mem \<Rightarrow> ptr \<Rightarrow> ptr option option" where
  "get_prev h p = map_option prv (load h p)"

definition set_next :: "'e mem \<Rightarrow> ptr \<Rightarrow> ptr option \<Rightarrow> 'e mem option" where
  "set_next h p v = modify h p (\<lambda>c. c\<lparr>nxt := v\<rparr>)"

definition set_prev :: "'e mem \<Rightarrow> ptr \<Rightarrow> ptr option \<Rightarrow> 'e mem option" where
  "set_prev h p v = modify h p (\<lambda>c. c\<lparr>prv := v\<rparr>)"

text \<open>The fields of the structure other than the links.\<close>

definition payload :: "'e mem \<Rightarrow> ptr \<Rightarrow> 'e option" where
  "payload h p = map_option link.more (load h p)"

subsection \<open>Singly linked lists\<close>

definition LL_PREPEND :: "'e mem \<Rightarrow> ptr option \<Rightarrow> ptr \<Rightarrow> ('e mem \<times> ptr option) option" where
  "LL_PREPEND h head add = do {
     h \<leftarrow> set_next h add head;
     Some (h, Some add)
   }"

text \<open>\<^verbatim>\<open>while (_tmp->next) _tmp = _tmp->next;\<close>\<close>

partial_function (option) ll_last :: "'e mem \<Rightarrow> ptr \<Rightarrow> ptr option" where
  "ll_last h tmp = do {
     n \<leftarrow> get_next h tmp;
     (case n of None \<Rightarrow> Some tmp | Some q \<Rightarrow> ll_last h q)
   }"

definition LL_CONCAT :: "'e mem \<Rightarrow> ptr option \<Rightarrow> ptr option \<Rightarrow> ('e mem \<times> ptr option) option" where
  "LL_CONCAT h head1 head2 =
     (case head1 of
        Some p \<Rightarrow> do {
          tmp \<leftarrow> ll_last h p;
          h \<leftarrow> set_next h tmp head2;
          Some (h, head1)
        }
      | None \<Rightarrow> Some (h, head2))"

definition LL_APPEND :: "'e mem \<Rightarrow> ptr option \<Rightarrow> ptr \<Rightarrow> ('e mem \<times> ptr option) option" where
  "LL_APPEND h head add = do {
     h \<leftarrow> set_next h add None;
     (case head of
        Some p \<Rightarrow> do {
          tmp \<leftarrow> ll_last h p;
          h \<leftarrow> set_next h tmp (Some add);
          Some (h, head)
        }
      | None \<Rightarrow> Some (h, Some add))
   }"

text \<open>\<^verbatim>\<open>while (_tmp->next && (_tmp->next != (el))) _tmp = _tmp->next;\<close>\<close>

partial_function (option) ll_before :: "'e mem \<Rightarrow> ptr \<Rightarrow> ptr \<Rightarrow> ptr option" where
  "ll_before h el tmp = do {
     n \<leftarrow> get_next h tmp;
     (case n of None \<Rightarrow> Some tmp | Some q \<Rightarrow> if q \<noteq> el then ll_before h el q else Some tmp)
   }"

definition LL_DELETE :: "'e mem \<Rightarrow> ptr option \<Rightarrow> ptr \<Rightarrow> ('e mem \<times> ptr option) option" where
  "LL_DELETE h head del =
     (if head = Some del then do { n \<leftarrow> get_next h del; Some (h, n) }
      else do {
        p \<leftarrow> head;
        tmp \<leftarrow> ll_before h del p;
        n \<leftarrow> get_next h tmp;
        if n \<noteq> None then do { n \<leftarrow> get_next h del; h \<leftarrow> set_next h tmp n; Some (h, head) }
        else Some (h, head)
      })"

text \<open>The variants for a compiler without \<^verbatim>\<open>decltype\<close>: \<open>add->next\<close> and \<open>head\<close> serve as the temporary
  variable of the loop.\<close>

partial_function (option) vs_last :: "'e mem \<Rightarrow> ptr \<Rightarrow> 'e mem option" where
  "vs_last h add = do {
     n \<leftarrow> get_next h add;
     p \<leftarrow> n;
     m \<leftarrow> get_next h p;
     (case m of
        None \<Rightarrow> Some h
      | Some q \<Rightarrow> do { h \<leftarrow> set_next h add (Some q); vs_last h add })
   }"

definition LL_APPEND_VS2008 :: "'e mem \<Rightarrow> ptr option \<Rightarrow> ptr \<Rightarrow> ('e mem \<times> ptr option) option" where
  "LL_APPEND_VS2008 h head add = do {
     (h, head) \<leftarrow> (case head of
        Some p \<Rightarrow> do {
          h \<leftarrow> set_next h add (Some p);
          h \<leftarrow> vs_last h add;
          n \<leftarrow> get_next h add;
          p \<leftarrow> n;
          h \<leftarrow> set_next h p (Some add);
          Some (h, head)
        }
      | None \<Rightarrow> Some (h, Some add));
     h \<leftarrow> set_next h add None;
     Some (h, head)
   }"

definition LL_DELETE_VS2008 :: "'e mem \<Rightarrow> ptr option \<Rightarrow> ptr \<Rightarrow> ('e mem \<times> ptr option) option" where
  "LL_DELETE_VS2008 h head del =
     (if head = Some del then do { n \<leftarrow> get_next h del; Some (h, n) }
      else do {
        let tmp = head;
        p \<leftarrow> head;
        p \<leftarrow> ll_before h del p;
        n \<leftarrow> get_next h p;
        h \<leftarrow> (if n \<noteq> None then do { n \<leftarrow> get_next h del; set_next h p n } else Some h);
        Some (h, tmp)
      })"

text \<open>\<^verbatim>\<open>for (el = head; el; el = (el)->next)\<close> around a statement \<open>body\<close>, which may change the memory and
  a state of its own; \<open>LL_FOREACH_SAFE\<close> reads \<open>next\<close> before the statement.\<close>

partial_function (option) LL_FOREACH ::
  "(ptr \<Rightarrow> 'e mem \<times> 's \<Rightarrow> ('e mem \<times> 's) option) \<Rightarrow> ptr option \<Rightarrow>
     'e mem \<times> 's \<Rightarrow> ('e mem \<times> 's) option" where
  "LL_FOREACH body el s =
     (case el of
        None \<Rightarrow> Some s
      | Some p \<Rightarrow> do { s \<leftarrow> body p s; n \<leftarrow> get_next (fst s) p; LL_FOREACH body n s })"

partial_function (option) LL_FOREACH_SAFE ::
  "(ptr \<Rightarrow> 'e mem \<times> 's \<Rightarrow> ('e mem \<times> 's) option) \<Rightarrow> ptr option \<Rightarrow>
     'e mem \<times> 's \<Rightarrow> ('e mem \<times> 's) option" where
  "LL_FOREACH_SAFE body el s =
     (case el of
        None \<Rightarrow> Some s
      | Some p \<Rightarrow> do { tmp \<leftarrow> get_next (fst s) p; s \<leftarrow> body p s; LL_FOREACH_SAFE body tmp s })"

definition LL_COUNT :: "'e mem \<Rightarrow> ptr option \<Rightarrow> int option" where
  "LL_COUNT h head = map_option snd
     (LL_FOREACH (\<lambda>_ (h, counter). do { counter \<leftarrow> c_int (counter + 1); Some (h, counter) }) head (h, 0))"

text \<open>The searches leave \<open>out\<close> at the first element that satisfies the test, \<open>(out)->field == val\<close> or
  \<open>cmp(out, elt) == 0\<close>, or at NULL.\<close>

partial_function (option) ll_search :: "('e \<Rightarrow> bool) \<Rightarrow> 'e mem \<Rightarrow> ptr option \<Rightarrow> ptr option option" where
  "ll_search test h out =
     (case out of
        None \<Rightarrow> Some None
      | Some p \<Rightarrow> do {
          c \<leftarrow> payload h p;
          if test c then Some out
          else do { n \<leftarrow> get_next h p; ll_search test h n }
        })"

definition LL_SEARCH_SCALAR :: "'e mem \<Rightarrow> ptr option \<Rightarrow> ('e \<Rightarrow> 'v) \<Rightarrow> 'v \<Rightarrow> ptr option option" where
  "LL_SEARCH_SCALAR h head field val = ll_search (\<lambda>out. field out = val) h head"

definition LL_SEARCH :: "'e mem \<Rightarrow> ptr option \<Rightarrow> 'x \<Rightarrow> ('e \<Rightarrow> 'x \<Rightarrow> int) \<Rightarrow> ptr option option" where
  "LL_SEARCH h head elt cmp = ll_search (\<lambda>out. cmp out elt = 0) h head"

text \<open>The pointers \<open>el\<close> and \<open>add\<close> of the following macros are not NULL, which their assertions demand; the
  assertion on \<open>head\<close> is the \<open>p \<leftarrow> head\<close>.\<close>

definition ll_redirect :: "'e mem \<Rightarrow> ptr \<Rightarrow> ptr \<Rightarrow> ptr \<Rightarrow> ('e mem \<times> ptr option) option" where
  "ll_redirect h p el add =
     (if p = el then Some (h, Some add)
      else do {
        tmp \<leftarrow> ll_before h el p;
        n \<leftarrow> get_next h tmp;
        if n \<noteq> None then do { h \<leftarrow> set_next h tmp (Some add); Some (h, Some p) }
        else Some (h, Some p)
      })"

definition LL_REPLACE_ELEM :: "'e mem \<Rightarrow> ptr option \<Rightarrow> ptr \<Rightarrow> ptr \<Rightarrow> ('e mem \<times> ptr option) option" where
  "LL_REPLACE_ELEM h head el add = do {
     p \<leftarrow> head;
     n \<leftarrow> get_next h el;
     h \<leftarrow> set_next h add n;
     ll_redirect h p el add
   }"

definition LL_PREPEND_ELEM :: "'e mem \<Rightarrow> ptr option \<Rightarrow> ptr \<Rightarrow> ptr \<Rightarrow> ('e mem \<times> ptr option) option" where
  "LL_PREPEND_ELEM h head el add = do {
     p \<leftarrow> head;
     h \<leftarrow> set_next h add (Some el);
     ll_redirect h p el add
   }"

subsection \<open>Doubly linked lists\<close>

text \<open>\<^verbatim>\<open>utlist.h\<close> defines the searches of these lists as those of singly linked ones; its loops and its count
  have the same text, too.\<close>

abbreviation "DL_FOREACH \<equiv> LL_FOREACH"
abbreviation "DL_FOREACH_SAFE \<equiv> LL_FOREACH_SAFE"
abbreviation "DL_COUNT \<equiv> LL_COUNT"
abbreviation "DL_SEARCH_SCALAR \<equiv> LL_SEARCH_SCALAR"
abbreviation "DL_SEARCH \<equiv> LL_SEARCH"

definition DL_PREPEND :: "'e mem \<Rightarrow> ptr option \<Rightarrow> ptr \<Rightarrow> ('e mem \<times> ptr option) option" where
  "DL_PREPEND h head add = do {
     h \<leftarrow> set_next h add head;
     h \<leftarrow> (case head of
        Some p \<Rightarrow> do { t \<leftarrow> get_prev h p; h \<leftarrow> set_prev h add t; set_prev h p (Some add) }
      | None \<Rightarrow> set_prev h add (Some add));
     Some (h, Some add)
   }"

definition DL_APPEND :: "'e mem \<Rightarrow> ptr option \<Rightarrow> ptr \<Rightarrow> ('e mem \<times> ptr option) option" where
  "DL_APPEND h head add =
     (case head of
        Some p \<Rightarrow> do {
          t \<leftarrow> get_prev h p;
          h \<leftarrow> set_prev h add t;
          t \<leftarrow> get_prev h p;
          q \<leftarrow> t;
          h \<leftarrow> set_next h q (Some add);
          h \<leftarrow> set_prev h p (Some add);
          h \<leftarrow> set_next h add None;
          Some (h, head)
        }
      | None \<Rightarrow> do {
          h \<leftarrow> set_prev h add (Some add);
          h \<leftarrow> set_next h add None;
          Some (h, Some add)
        })"

definition DL_CONCAT :: "'e mem \<Rightarrow> ptr option \<Rightarrow> ptr option \<Rightarrow> ('e mem \<times> ptr option) option" where
  "DL_CONCAT h head1 head2 =
     (case head2 of
        None \<Rightarrow> Some (h, head1)
      | Some p2 \<Rightarrow>
          (case head1 of
             Some p1 \<Rightarrow> do {
               tmp \<leftarrow> get_prev h p2;
               t \<leftarrow> get_prev h p1;
               h \<leftarrow> set_prev h p2 t;
               t \<leftarrow> get_prev h p1;
               q \<leftarrow> t;
               h \<leftarrow> set_next h q head2;
               h \<leftarrow> set_prev h p1 tmp;
               Some (h, head1)
             }
           | None \<Rightarrow> Some (h, head2)))"

definition DL_DELETE :: "'e mem \<Rightarrow> ptr option \<Rightarrow> ptr \<Rightarrow> ('e mem \<times> ptr option) option" where
  "DL_DELETE h head del = do {
     t \<leftarrow> get_prev h del;
     dp \<leftarrow> t;
     n \<leftarrow> get_next h del;
     if dp = del then Some (h, None)
     else if head = Some del then do {
       dn \<leftarrow> n;
       h \<leftarrow> set_prev h dn t;
       n \<leftarrow> get_next h del;
       Some (h, n)
     }
     else do {
       h \<leftarrow> set_next h dp n;
       n \<leftarrow> get_next h del;
       (case n of
          Some dn \<Rightarrow> do { t \<leftarrow> get_prev h del; h \<leftarrow> set_prev h dn t; Some (h, head) }
        | None \<Rightarrow> do { p \<leftarrow> head; t \<leftarrow> get_prev h del; h \<leftarrow> set_prev h p t; Some (h, head) })
     }
   }"

definition DL_REPLACE_ELEM :: "'e mem \<Rightarrow> ptr option \<Rightarrow> ptr \<Rightarrow> ptr \<Rightarrow> ('e mem \<times> ptr option) option" where
  "DL_REPLACE_ELEM h head el add = do {
     p \<leftarrow> head;
     if p = el then do {
       n \<leftarrow> get_next h el;
       h \<leftarrow> set_next h add n;
       n \<leftarrow> get_next h el;
       h \<leftarrow> (if n = None then set_prev h add (Some add)
             else do {
               t \<leftarrow> get_prev h el;
               h \<leftarrow> set_prev h add t;
               n \<leftarrow> get_next h add;
               q \<leftarrow> n;
               set_prev h q (Some add)
             });
       Some (h, Some add)
     }
     else do {
       n \<leftarrow> get_next h el;
       h \<leftarrow> set_next h add n;
       t \<leftarrow> get_prev h el;
       h \<leftarrow> set_prev h add t;
       t \<leftarrow> get_prev h add;
       q \<leftarrow> t;
       h \<leftarrow> set_next h q (Some add);
       n \<leftarrow> get_next h el;
       h \<leftarrow> (if n = None then set_prev h p (Some add)
             else do { n \<leftarrow> get_next h add; q \<leftarrow> n; set_prev h q (Some add) });
       Some (h, head)
     }
   }"

definition DL_PREPEND_ELEM :: "'e mem \<Rightarrow> ptr option \<Rightarrow> ptr \<Rightarrow> ptr \<Rightarrow> ('e mem \<times> ptr option) option" where
  "DL_PREPEND_ELEM h head el add = do {
     p \<leftarrow> head;
     h \<leftarrow> set_next h add (Some el);
     t \<leftarrow> get_prev h el;
     h \<leftarrow> set_prev h add t;
     h \<leftarrow> set_prev h el (Some add);
     if p = el then Some (h, Some add)
     else do {
       t \<leftarrow> get_prev h add;
       q \<leftarrow> t;
       h \<leftarrow> set_next h q (Some add);
       Some (h, head)
     }
   }"

subsection \<open>Circular doubly linked lists\<close>

definition CDL_PREPEND :: "'e mem \<Rightarrow> ptr option \<Rightarrow> ptr \<Rightarrow> ('e mem \<times> ptr option) option" where
  "CDL_PREPEND h head add =
     (case head of
        Some p \<Rightarrow> do {
          t \<leftarrow> get_prev h p;
          h \<leftarrow> set_prev h add t;
          h \<leftarrow> set_next h add head;
          h \<leftarrow> set_prev h p (Some add);
          t \<leftarrow> get_prev h add;
          q \<leftarrow> t;
          h \<leftarrow> set_next h q (Some add);
          Some (h, Some add)
        }
      | None \<Rightarrow> do {
          h \<leftarrow> set_prev h add (Some add);
          h \<leftarrow> set_next h add (Some add);
          Some (h, Some add)
        })"

definition CDL_DELETE :: "'e mem \<Rightarrow> ptr option \<Rightarrow> ptr \<Rightarrow> ('e mem \<times> ptr option) option" where
  "CDL_DELETE h head del = do {
     n \<leftarrow> get_next h del;
     if head = Some del \<and> n = head then Some (h, None)
     else do {
       dn \<leftarrow> n;
       t \<leftarrow> get_prev h del;
       h \<leftarrow> set_prev h dn t;
       t \<leftarrow> get_prev h del;
       dp \<leftarrow> t;
       n \<leftarrow> get_next h del;
       h \<leftarrow> set_next h dp n;
       if head = Some del then do { n \<leftarrow> get_next h del; Some (h, n) } else Some (h, head)
     }
   }"

partial_function (option) cdl_foreach ::
  "(ptr \<Rightarrow> 'e mem \<times> 's \<Rightarrow> ('e mem \<times> 's) option) \<Rightarrow> ptr option \<Rightarrow> ptr option \<Rightarrow>
     'e mem \<times> 's \<Rightarrow> ('e mem \<times> 's) option" where
  "cdl_foreach body head el s =
     (case el of
        None \<Rightarrow> Some s
      | Some p \<Rightarrow> do {
          s \<leftarrow> body p s;
          n \<leftarrow> get_next (fst s) p;
          cdl_foreach body head (if n = head then None else n) s
        })"

definition CDL_FOREACH ::
  "(ptr \<Rightarrow> 'e mem \<times> 's \<Rightarrow> ('e mem \<times> 's) option) \<Rightarrow> ptr option \<Rightarrow>
     'e mem \<times> 's \<Rightarrow> ('e mem \<times> 's) option" where
  "CDL_FOREACH body head s = cdl_foreach body head head s"

partial_function (option) cdl_foreach_safe ::
  "(ptr \<Rightarrow> 'e mem \<times> 's \<Rightarrow> ('e mem \<times> 's) option) \<Rightarrow> ptr option \<Rightarrow> ptr option \<Rightarrow>
     'e mem \<times> 's \<Rightarrow> ('e mem \<times> 's) option" where
  "cdl_foreach_safe body tmp1 el s =
     (case el of
        None \<Rightarrow> Some s
      | Some p \<Rightarrow> do {
          tmp2 \<leftarrow> get_next (fst s) p;
          s \<leftarrow> body p s;
          cdl_foreach_safe body tmp1 (if el = tmp1 then None else tmp2) s
        })"

definition CDL_FOREACH_SAFE ::
  "(ptr \<Rightarrow> 'e mem \<times> 's \<Rightarrow> ('e mem \<times> 's) option) \<Rightarrow> ptr option \<Rightarrow>
     'e mem \<times> 's \<Rightarrow> ('e mem \<times> 's) option" where
  "CDL_FOREACH_SAFE body head s = do {
     tmp1 \<leftarrow> (case head of Some p \<Rightarrow> get_prev (fst s) p | None \<Rightarrow> Some None);
     cdl_foreach_safe body tmp1 head s
   }"

definition CDL_COUNT :: "'e mem \<Rightarrow> ptr option \<Rightarrow> int option" where
  "CDL_COUNT h head = map_option snd
     (CDL_FOREACH (\<lambda>_ (h, counter). do { counter \<leftarrow> c_int (counter + 1); Some (h, counter) }) head (h, 0))"

partial_function (option) cdl_search ::
  "('e \<Rightarrow> bool) \<Rightarrow> 'e mem \<Rightarrow> ptr option \<Rightarrow> ptr option \<Rightarrow> ptr option option" where
  "cdl_search test h head out =
     (case out of
        None \<Rightarrow> Some None
      | Some p \<Rightarrow> do {
          c \<leftarrow> payload h p;
          if test c then Some out
          else do { n \<leftarrow> get_next h p; cdl_search test h head (if n = head then None else n) }
        })"

definition CDL_SEARCH_SCALAR :: "'e mem \<Rightarrow> ptr option \<Rightarrow> ('e \<Rightarrow> 'v) \<Rightarrow> 'v \<Rightarrow> ptr option option" where
  "CDL_SEARCH_SCALAR h head field val = cdl_search (\<lambda>out. field out = val) h head head"

definition CDL_SEARCH :: "'e mem \<Rightarrow> ptr option \<Rightarrow> 'x \<Rightarrow> ('e \<Rightarrow> 'x \<Rightarrow> int) \<Rightarrow> ptr option option" where
  "CDL_SEARCH h head elt cmp = cdl_search (\<lambda>out. cmp out elt = 0) h head head"

definition CDL_REPLACE_ELEM :: "'e mem \<Rightarrow> ptr option \<Rightarrow> ptr \<Rightarrow> ptr \<Rightarrow> ('e mem \<times> ptr option) option" where
  "CDL_REPLACE_ELEM h head el add = do {
     p \<leftarrow> head;
     n \<leftarrow> get_next h el;
     if n = Some el then do {
       h \<leftarrow> set_next h add (Some add);
       h \<leftarrow> set_prev h add (Some add);
       Some (h, Some add)
     }
     else do {
       h \<leftarrow> set_next h add n;
       t \<leftarrow> get_prev h el;
       h \<leftarrow> set_prev h add t;
       n \<leftarrow> get_next h add;
       q \<leftarrow> n;
       h \<leftarrow> set_prev h q (Some add);
       t \<leftarrow> get_prev h add;
       q \<leftarrow> t;
       h \<leftarrow> set_next h q (Some add);
       Some (h, if p = el then Some add else head)
     }
   }"

definition CDL_PREPEND_ELEM :: "'e mem \<Rightarrow> ptr option \<Rightarrow> ptr \<Rightarrow> ptr \<Rightarrow> ('e mem \<times> ptr option) option" where
  "CDL_PREPEND_ELEM h head el add = do {
     p \<leftarrow> head;
     h \<leftarrow> set_next h add (Some el);
     t \<leftarrow> get_prev h el;
     h \<leftarrow> set_prev h add t;
     h \<leftarrow> set_prev h el (Some add);
     t \<leftarrow> get_prev h add;
     q \<leftarrow> t;
     h \<leftarrow> set_next h q (Some add);
     Some (h, if p = el then Some add else head)
   }"

subsection \<open>Links as functions\<close>

text \<open>The proofs see a memory as its functions \<open>get_next\<close>, \<open>get_prev\<close> and \<open>payload\<close>; a store updates one of
  them at one point.\<close>

definition alive :: "'e mem \<Rightarrow> ptr \<Rightarrow> bool" where
  "alive h p \<longleftrightarrow> cells h p \<noteq> None"

definition upd_next :: "'e mem \<Rightarrow> ptr \<Rightarrow> ptr option \<Rightarrow> 'e mem" where
  "upd_next h p v = h\<lparr>cells := (cells h)(p := map_option (\<lambda>c. c\<lparr>nxt := v\<rparr>) (cells h p))\<rparr>"

definition upd_prev :: "'e mem \<Rightarrow> ptr \<Rightarrow> ptr option \<Rightarrow> 'e mem" where
  "upd_prev h p v = h\<lparr>cells := (cells h)(p := map_option (\<lambda>c. c\<lparr>prv := v\<rparr>) (cells h p))\<rparr>"

named_theorems link_simps \<open>stores to the link fields, seen through the functions\<close>

lemma set_next_upd [link_simps]: "alive h p \<Longrightarrow> set_next h p v = Some (upd_next h p v)"
  by (auto simp: alive_def set_next_def upd_next_def modify_def)

lemma set_prev_upd [link_simps]: "alive h p \<Longrightarrow> set_prev h p v = Some (upd_prev h p v)"
  by (auto simp: alive_def set_prev_def upd_prev_def modify_def)

lemma link_upd [link_simps]:
  "alive h p \<Longrightarrow> get_next (upd_next h p v) = (get_next h)(p \<mapsto> v)"
  "alive h p \<Longrightarrow> get_prev (upd_prev h p v) = (get_prev h)(p \<mapsto> v)"
  "get_prev (upd_next h p v) = get_prev h" "get_next (upd_prev h p v) = get_next h"
  "payload (upd_next h p v) = payload h" "payload (upd_prev h p v) = payload h"
  "alive (upd_next h p v) = alive h" "alive (upd_prev h p v) = alive h"
  by (auto simp: fun_eq_iff alive_def upd_next_def upd_prev_def get_next_def get_prev_def payload_def load_def
      option.map_comp o_def cong: option.map_cong)

lemma heap_upd [link_simps]:
  "brk (upd_next h p v) = brk h" "brk (upd_prev h p v) = brk h"
  "limit (upd_next h p v) = limit h" "limit (upd_prev h p v) = limit h"
  by (simp_all add: upd_next_def upd_prev_def)

lemma alive_get:
  "get_next h p = Some v \<Longrightarrow> alive h p" "get_prev h p = Some v \<Longrightarrow> alive h p" "payload h p = Some d \<Longrightarrow> alive h p"
  by (auto simp: alive_def get_next_def get_prev_def payload_def load_def)

lemma aliveE:
  assumes "alive h p"
  obtains n q d where "get_next h p = Some n" "get_prev h p = Some q" "payload h p = Some d"
  using assms by (auto simp: alive_def get_next_def get_prev_def payload_def load_def)

text \<open>A macro changes links only: the payload of every structure and the extent of the memory stay.\<close>

definition same_payload :: "'e mem \<Rightarrow> 'e mem \<Rightarrow> bool" where
  "same_payload h h' \<longleftrightarrow> payload h' = payload h \<and> brk h' = brk h \<and> limit h' = limit h"

lemma same_payload_refl [simp]: "same_payload h h"
  by (simp add: same_payload_def)

lemma same_payload_trans [trans]: "same_payload h h' \<Longrightarrow> same_payload h' h'' \<Longrightarrow> same_payload h h''"
  by (simp add: same_payload_def)

lemma same_payload_upd [link_simps]:
  "same_payload h (upd_next h' p v) = same_payload h h'" "same_payload h (upd_prev h' p v) = same_payload h h'"
  by (simp_all add: same_payload_def link_simps)

lemma payload_alive: "alive h p \<longleftrightarrow> payload h p \<noteq> None"
  by (simp add: alive_def payload_def load_def)

lemma same_payload_alive: "same_payload h h' \<Longrightarrow> alive h' = alive h"
  by (simp add: same_payload_def payload_alive fun_eq_iff)

lemma same_payload_heap_ok: "same_payload h h' \<Longrightarrow> heap_ok h \<Longrightarrow> heap_ok h'"
  using same_payload_alive [of h h'] by (auto simp: heap_ok_def same_payload_def alive_def fun_eq_iff)

subsection \<open>Chains\<close>

text \<open>\<open>nexts f ps y\<close>: following \<open>f\<close> from the first of \<open>ps\<close> visits \<open>ps\<close> and ends in \<open>y\<close>.  \<open>prevs f b ps\<close>: the
  first of \<open>ps\<close> points back to \<open>b\<close> and every other one to its predecessor.\<close>

fun first :: "ptr list \<Rightarrow> ptr option \<Rightarrow> ptr option" where
  "first [] y = y"
| "first (p # ps) y = Some p"

fun final :: "ptr option \<Rightarrow> ptr list \<Rightarrow> ptr option" where
  "final b [] = b"
| "final b (p # ps) = final (Some p) ps"

fun nexts :: "(ptr \<Rightarrow> ptr option option) \<Rightarrow> ptr list \<Rightarrow> ptr option \<Rightarrow> bool" where
  "nexts f [] y = True"
| "nexts f (p # ps) y = (f p = Some (first ps y) \<and> nexts f ps y)"

fun prevs :: "(ptr \<Rightarrow> ptr option option) \<Rightarrow> ptr option \<Rightarrow> ptr list \<Rightarrow> bool" where
  "prevs f b [] = True"
| "prevs f b (p # ps) = (f p = Some b \<and> prevs f (Some p) ps)"

lemma first_append [simp]: "first (xs @ ys) y = first xs (first ys y)"
  by (cases xs) auto

lemma final_append [simp]: "final b (xs @ ys) = final (final b xs) ys"
  by (induction xs arbitrary: b) auto

lemma final_nonempty: "ps \<noteq> [] \<Longrightarrow> final b ps = Some (last ps)"
  by (induction ps arbitrary: b) auto

lemma final_in_set: "final b ps = Some q \<Longrightarrow> b \<noteq> Some q \<Longrightarrow> q \<in> set ps"
  by (induction ps arbitrary: b) fastforce+

lemma nexts_append [simp]: "nexts f (xs @ ys) y \<longleftrightarrow> nexts f xs (first ys y) \<and> nexts f ys y"
  by (induction xs) auto

lemma prevs_append [simp]: "prevs f b (xs @ ys) \<longleftrightarrow> prevs f b xs \<and> prevs f (final b xs) ys"
  by (induction xs arbitrary: b) auto

lemma nexts_upd [simp]: "p \<notin> set ps \<Longrightarrow> nexts (f(p := v)) ps y = nexts f ps y"
  by (induction ps) auto

lemma prevs_upd [simp]: "p \<notin> set ps \<Longrightarrow> prevs (f(p := v)) b ps = prevs f b ps"
  by (induction ps arbitrary: b) auto

lemma nexts_cong: "(\<And>p. p \<in> set ps \<Longrightarrow> f p = g p) \<Longrightarrow> nexts f ps y = nexts g ps y"
  by (induction ps) auto

lemma prevs_cong: "(\<And>p. p \<in> set ps \<Longrightarrow> f p = g p) \<Longrightarrow> prevs f b ps = prevs g b ps"
  by (induction ps arbitrary: b) auto

lemma nexts_Some: "nexts f ps y \<Longrightarrow> p \<in> set ps \<Longrightarrow> \<exists>v. f p = Some v"
  by (induction ps) auto

lemma nexts_alive: "nexts (get_next h) ps y \<Longrightarrow> p \<in> set ps \<Longrightarrow> alive h p"
  using nexts_Some alive_get(1) by blast

subsection \<open>The three representations\<close>

definition ll_list :: "'e mem \<Rightarrow> ptr option \<Rightarrow> ptr list \<Rightarrow> bool" where
  "ll_list h head ps \<longleftrightarrow> distinct ps \<and> head = first ps None \<and> nexts (get_next h) ps None"

definition dl_list :: "'e mem \<Rightarrow> ptr option \<Rightarrow> ptr list \<Rightarrow> bool" where
  "dl_list h head ps \<longleftrightarrow> distinct ps \<and> head = first ps None \<and> nexts (get_next h) ps None \<and>
     prevs (get_prev h) (final None ps) ps"

definition cdl_list :: "'e mem \<Rightarrow> ptr option \<Rightarrow> ptr list \<Rightarrow> bool" where
  "cdl_list h head ps \<longleftrightarrow> distinct ps \<and> head = first ps None \<and> nexts (get_next h) ps head \<and>
     prevs (get_prev h) (final None ps) ps"

lemmas list_defs = ll_list_def dl_list_def cdl_list_def

lemma list_alive:
  "ll_list h head ps \<Longrightarrow> p \<in> set ps \<Longrightarrow> alive h p"
  "dl_list h head ps \<Longrightarrow> p \<in> set ps \<Longrightarrow> alive h p"
  "cdl_list h head ps \<Longrightarrow> p \<in> set ps \<Longrightarrow> alive h p"
  by (auto simp: list_defs intro: nexts_alive)

lemma list_frame:
  assumes "\<And>p. p \<in> set ps \<Longrightarrow> get_next h' p = get_next h p" and "\<And>p. p \<in> set ps \<Longrightarrow> get_prev h' p = get_prev h p"
  shows "ll_list h' head ps = ll_list h head ps" "dl_list h' head ps = dl_list h head ps"
    "cdl_list h' head ps = cdl_list h head ps"
  using nexts_cong [of ps "get_next h'" "get_next h"] prevs_cong [of ps "get_prev h'" "get_prev h"] assms
  by (simp_all add: list_defs)

subsection \<open>The macros of singly linked lists\<close>

lemma ll_last_walk: "nexts (get_next h) (ps @ [p]) None \<Longrightarrow> ll_last h (hd (ps @ [p])) = Some p"
proof (induction ps)
  case (Cons q ps)
  then show ?case by (subst ll_last.simps) (cases ps, auto)
qed (simp add: ll_last.simps)

lemma ll_before_walk:
  "nexts (get_next h) (us @ [p]) (Some el) \<Longrightarrow> el \<notin> set us \<Longrightarrow> el \<noteq> p \<Longrightarrow>
   ll_before h el (hd (us @ [p])) = Some p"
proof (induction us)
  case (Cons q us)
  then show ?case by (subst ll_before.simps) (cases us, auto)
qed (simp add: ll_before.simps)

lemma first_snoc: "first (us @ [p]) y = Some (hd (us @ [p]))"
  by (cases us) auto

lemma ll_prepend:
  assumes "ll_list h head ps" and "alive h add" "add \<notin> set ps"
  shows "\<exists>h' head'. LL_PREPEND h head add = Some (h', head') \<and> ll_list h' head' (add # ps) \<and> same_payload h h'"
  using assms by (simp add: LL_PREPEND_def ll_list_def link_simps)

lemma ll_concat:
  assumes "ll_list h head ps" "ll_list h head2 qs" and "set ps \<inter> set qs = {}"
  shows "\<exists>h' head'. LL_CONCAT h head head2 = Some (h', head') \<and> ll_list h' head' (ps @ qs) \<and> same_payload h h'"
proof (cases ps rule: rev_cases)
  case Nil
  with assms show ?thesis by (simp add: LL_CONCAT_def ll_list_def)
next
  case (snoc us p)
  then have "alive h p" using list_alive(1) [OF assms(1)] by simp
  with snoc assms ll_last_walk [of h us p] show ?thesis
    by (cases us) (auto simp: LL_CONCAT_def ll_list_def link_simps)
qed

lemma ll_append:
  assumes l: "ll_list h head ps" and add: "alive h add" "add \<notin> set ps"
  shows "\<exists>h' head'. LL_APPEND h head add = Some (h', head') \<and> ll_list h' head' (ps @ [add]) \<and> same_payload h h'"
proof -
  let ?h = "upd_next h add None"
  have "ll_list ?h head ps" "ll_list ?h (Some add) [add]"
    using assms by (auto simp: ll_list_def link_simps)
  with ll_concat [of ?h head ps "Some add" "[add]"] add
  show ?thesis by (auto simp: LL_APPEND_def LL_CONCAT_def link_simps same_payload_def split: option.splits)
qed

text \<open>The loop of the deletions, replacements and insertions stops at the predecessor.\<close>

lemma ll_redirect_links:
  assumes "nexts (get_next h) us (Some el)" and "el \<notin> set us" "distinct us" and "first us (Some el) = Some p" "alive h el"
  shows "\<exists>h' head'. ll_redirect h p el add = Some (h', head') \<and> same_payload h h' \<and> get_prev h' = get_prev h \<and>
    head' = first us (Some add) \<and> nexts (get_next h') us (Some add) \<and> (\<forall>x. x \<notin> set us \<longrightarrow> get_next h' x = get_next h x)"
proof (cases us rule: rev_cases)
  case Nil
  with assms show ?thesis by (simp add: ll_redirect_def)
next
  case (snoc vs q)
  with assms have q: "alive h q" "hd (vs @ [q]) = p" "p \<noteq> el" and q': "get_next h q = Some (Some el)"
    using nexts_alive [of h us "Some el" q] by (auto simp: first_snoc hd_append simp del: first_append split: if_splits)
  then show ?thesis
    using snoc assms ll_before_walk [of h vs q el]
    by (auto simp: ll_redirect_def link_simps simp del: first_append) (simp add: first_snoc)
qed

lemma ll_delete:
  assumes l: "ll_list h head (us @ del # vs)"
  shows "\<exists>h' head'. LL_DELETE h head del = Some (h', head') \<and> ll_list h' head' (us @ vs) \<and> same_payload h h'"
proof (cases us rule: rev_cases)
  case Nil
  with l show ?thesis by (simp add: LL_DELETE_def ll_list_def)
next
  case (snoc ws p)
  then have "alive h p" using list_alive(1) [OF l] by simp
  with snoc l ll_before_walk [of h ws p del] show ?thesis
    by (cases ws) (auto simp: LL_DELETE_def ll_list_def link_simps)
qed

lemma ll_replace:
  assumes l: "ll_list h head (us @ el # vs)" and add: "alive h add" "add \<notin> set (us @ el # vs)"
  shows "\<exists>h' head'. LL_REPLACE_ELEM h head el add = Some (h', head') \<and> ll_list h' head' (us @ add # vs) \<and> same_payload h h'"
proof -
  let ?h = "upd_next h add (first vs None)"
  obtain p where p: "head = Some p" "first us (Some el) = Some p" using l by (cases us) (auto simp: ll_list_def)
  have "alive h el" using list_alive(1) [OF l] by simp
  then obtain h' head' where r: "ll_redirect ?h p el add = Some (h', head')" "same_payload ?h h'"
    "head' = first us (Some add)" "nexts (get_next h') us (Some add)" "\<forall>x. x \<notin> set us \<longrightarrow> get_next h' x = get_next ?h x"
    using ll_redirect_links [of ?h us el p add] l add p by (auto simp: ll_list_def link_simps)
  moreover have "nexts (get_next h') vs None = nexts (get_next h) vs None"
    using r l add by (intro nexts_cong) (auto simp: ll_list_def link_simps)
  ultimately show ?thesis
    using l add by (auto simp: p LL_REPLACE_ELEM_def ll_list_def link_simps same_payload_def)
qed

lemma ll_prepend_elem:
  assumes l: "ll_list h head (us @ el # vs)" and add: "alive h add" "add \<notin> set (us @ el # vs)"
  shows "\<exists>h' head'. LL_PREPEND_ELEM h head el add = Some (h', head') \<and> ll_list h' head' (us @ add # el # vs) \<and> same_payload h h'"
proof -
  let ?h = "upd_next h add (Some el)"
  obtain p where p: "head = Some p" "first us (Some el) = Some p" using l by (cases us) (auto simp: ll_list_def)
  have "alive h el" using list_alive(1) [OF l] by simp
  then obtain h' head' where r: "ll_redirect ?h p el add = Some (h', head')" "same_payload ?h h'"
    "head' = first us (Some add)" "nexts (get_next h') us (Some add)" "\<forall>x. x \<notin> set us \<longrightarrow> get_next h' x = get_next ?h x"
    using ll_redirect_links [of ?h us el p add] l add p by (auto simp: ll_list_def link_simps)
  moreover have "nexts (get_next h') vs None = nexts (get_next h) vs None"
    using r l add by (intro nexts_cong) (auto simp: ll_list_def link_simps)
  ultimately show ?thesis
    using l add by (auto simp: p LL_PREPEND_ELEM_def ll_list_def link_simps same_payload_def)
qed

subsection \<open>The macros of doubly linked lists\<close>

lemma dl_prepend:
  assumes "dl_list h head ps" and "alive h add" "add \<notin> set ps"
  shows "\<exists>h' head'. DL_PREPEND h head add = Some (h', head') \<and> dl_list h' head' (add # ps) \<and> same_payload h h'"
proof (cases ps)
  case (Cons p qs)
  then have "alive h p" using list_alive(2) [OF assms(1)] by simp
  with assms Cons show ?thesis by (auto simp: DL_PREPEND_def dl_list_def link_simps)
qed (use assms in \<open>auto simp: DL_PREPEND_def dl_list_def link_simps\<close>)

lemma dl_append:
  assumes "dl_list h head ps" and "alive h add" "add \<notin> set ps"
  shows "\<exists>h' head'. DL_APPEND h head add = Some (h', head') \<and> dl_list h' head' (ps @ [add]) \<and> same_payload h h'"
proof (cases ps rule: rev_cases)
  case (snoc us q)
  have q: "alive h q" using list_alive(2) [OF assms(1)] snoc by simp
  show ?thesis
  proof (cases us)
    case (Cons p ws)
    then have "alive h p" using list_alive(2) [OF assms(1)] snoc by simp
    with assms snoc Cons q show ?thesis by (auto simp: DL_APPEND_def dl_list_def link_simps)
  qed (use assms snoc q in \<open>auto simp: DL_APPEND_def dl_list_def link_simps\<close>)
qed (use assms in \<open>auto simp: DL_APPEND_def dl_list_def link_simps\<close>)

lemma dl_concat:
  assumes l: "dl_list h head ps" "dl_list h head2 qs" and dis: "set ps \<inter> set qs = {}"
  shows "\<exists>h' head'. DL_CONCAT h head head2 = Some (h', head') \<and> dl_list h' head' (ps @ qs) \<and> same_payload h h'"
proof (cases "ps = [] \<or> qs = []")
  case True
  with l show ?thesis by (cases qs) (auto simp: DL_CONCAT_def dl_list_def)
next
  case False
  then obtain us p vs q where ps: "ps = us @ [p]" and qs: "qs = q # vs" by (metis rev_exhaust list.exhaust)
  have a: "alive h p" "alive h q" using list_alive(2) [OF l(1)] list_alive(2) [OF l(2)] ps qs by auto
  show ?thesis
  proof (cases us)
    case (Cons r ws)
    with l dis ps qs a list_alive(2) [OF l(1), of r] show ?thesis by (auto simp: DL_CONCAT_def dl_list_def link_simps)
  qed (use l dis ps qs a in \<open>auto simp: DL_CONCAT_def dl_list_def link_simps\<close>)
qed

lemma dl_delete:
  assumes l: "dl_list h head (us @ del # vs)"
  shows "\<exists>h' head'. DL_DELETE h head del = Some (h', head') \<and> dl_list h' head' (us @ vs) \<and> same_payload h h'"
proof -
  note a = list_alive(2) [OF l]
  show ?thesis
  proof (cases us rule: rev_cases)
    case Nil
    then show ?thesis using l a
      by (cases vs; cases "tl vs" rule: rev_cases) (auto simp: DL_DELETE_def dl_list_def link_simps)
  next
    case (snoc ws p)
    show ?thesis
    proof (cases ws)
      case Nil
      with snoc l a show ?thesis by (cases vs) (auto simp: DL_DELETE_def dl_list_def link_simps)
    next
      case (Cons r rs)
      with snoc l a show ?thesis by (cases vs) (auto simp: DL_DELETE_def dl_list_def link_simps)
    qed
  qed
qed

lemma dl_replace:
  assumes l: "dl_list h head (us @ el # vs)" and add: "alive h add" "add \<notin> set (us @ el # vs)"
  shows "\<exists>h' head'. DL_REPLACE_ELEM h head el add = Some (h', head') \<and> dl_list h' head' (us @ add # vs) \<and> same_payload h h'"
proof -
  note a = list_alive(2) [OF l]
  show ?thesis
  proof (cases us rule: rev_cases)
    case Nil
    then show ?thesis using l a add by (cases vs) (auto simp: DL_REPLACE_ELEM_def dl_list_def link_simps)
  next
    case (snoc ws p)
    show ?thesis
    proof (cases ws)
      case Nil
      with snoc l a add show ?thesis by (cases vs) (auto simp: DL_REPLACE_ELEM_def dl_list_def link_simps)
    next
      case (Cons r rs)
      with snoc l a add show ?thesis by (cases vs) (auto simp: DL_REPLACE_ELEM_def dl_list_def link_simps)
    qed
  qed
qed

lemma dl_prepend_elem:
  assumes l: "dl_list h head (us @ el # vs)" and add: "alive h add" "add \<notin> set (us @ el # vs)"
  shows "\<exists>h' head'. DL_PREPEND_ELEM h head el add = Some (h', head') \<and> dl_list h' head' (us @ add # el # vs) \<and> same_payload h h'"
proof -
  note a = list_alive(2) [OF l]
  show ?thesis
  proof (cases us rule: rev_cases)
    case Nil
    then show ?thesis using l a add by (auto simp: DL_PREPEND_ELEM_def dl_list_def link_simps)
  next
    case (snoc ws p)
    with l a add show ?thesis by (cases ws; cases vs) (auto simp: DL_PREPEND_ELEM_def dl_list_def link_simps)
  qed
qed

subsection \<open>The macros of circular lists\<close>

lemma cdl_prepend:
  assumes l: "cdl_list h head ps" and add: "alive h add" "add \<notin> set ps"
  shows "\<exists>h' head'. CDL_PREPEND h head add = Some (h', head') \<and> cdl_list h' head' (add # ps) \<and> same_payload h h'"
proof -
  note a = list_alive(3) [OF l]
  show ?thesis
  proof (cases ps rule: rev_cases)
    case Nil
    then show ?thesis using assms by (auto simp: CDL_PREPEND_def cdl_list_def link_simps)
  next
    case (snoc us p)
    then show ?thesis using assms a by (cases us) (auto simp: CDL_PREPEND_def cdl_list_def link_simps)
  qed
qed

lemma cdl_delete:
  assumes l: "cdl_list h head (us @ del # vs)"
  shows "\<exists>h' head'. CDL_DELETE h head del = Some (h', head') \<and> cdl_list h' head' (us @ vs) \<and> same_payload h h'"
proof -
  note a = list_alive(3) [OF l]
  show ?thesis
  proof (cases us rule: rev_cases)
    case Nil
    then show ?thesis using l a
      by (cases vs; cases "tl vs" rule: rev_cases) (auto simp: CDL_DELETE_def cdl_list_def link_simps)
  next
    case (snoc ws p)
    with l a show ?thesis by (cases vs; cases ws) (auto simp: CDL_DELETE_def cdl_list_def link_simps)
  qed
qed

lemma cdl_replace:
  assumes l: "cdl_list h head (us @ el # vs)" and add: "alive h add" "add \<notin> set (us @ el # vs)"
  shows "\<exists>h' head'. CDL_REPLACE_ELEM h head el add = Some (h', head') \<and> cdl_list h' head' (us @ add # vs) \<and> same_payload h h'"
proof -
  note a = list_alive(3) [OF l]
  show ?thesis
  proof (cases us rule: rev_cases)
    case Nil
    then show ?thesis using l a add
      by (cases vs; cases "tl vs" rule: rev_cases) (auto simp: CDL_REPLACE_ELEM_def cdl_list_def link_simps)
  next
    case (snoc ws p)
    with l a add show ?thesis by (cases vs; cases ws) (auto simp: CDL_REPLACE_ELEM_def cdl_list_def link_simps)
  qed
qed

lemma cdl_prepend_elem:
  assumes l: "cdl_list h head (us @ el # vs)" and add: "alive h add" "add \<notin> set (us @ el # vs)"
  shows "\<exists>h' head'. CDL_PREPEND_ELEM h head el add = Some (h', head') \<and> cdl_list h' head' (us @ add # el # vs) \<and> same_payload h h'"
proof -
  note a = list_alive(3) [OF l]
  show ?thesis
  proof (cases us rule: rev_cases)
    case Nil
    then show ?thesis using l a add
      by (cases vs rule: rev_cases) (auto simp: CDL_PREPEND_ELEM_def cdl_list_def link_simps)
  next
    case (snoc ws p)
    with l a add show ?thesis by (cases vs; cases ws) (auto simp: CDL_PREPEND_ELEM_def cdl_list_def link_simps)
  qed
qed

subsection \<open>The variants without a temporary variable\<close>

lemma upd_next_twice [simp]: "upd_next (upd_next h p v) p w = upd_next h p w"
  by (auto simp: upd_next_def fun_eq_iff option.map_comp o_def cong: option.map_cong)

lemma upd_next_commute: "p \<noteq> q \<Longrightarrow> upd_next (upd_next h p v) q w = upd_next (upd_next h q w) p v"
  by (auto simp: upd_next_def fun_upd_twist)

lemma vs_last_walk:
  assumes "nexts (get_next h) (us @ [p]) None" and "add \<notin> set (us @ [p])" "alive h add"
  shows "vs_last (upd_next h add (first (us @ [p]) None)) add = Some (upd_next h add (Some p))"
  using assms(1,2)
proof (induction us)
  case Nil
  then show ?case using assms(3) by (subst vs_last.simps) (simp add: link_simps)
next
  case (Cons q us)
  from Cons show ?case using assms(3) by (subst vs_last.simps) (cases us, auto simp: link_simps)
qed

lemma ll_append_vs2008:
  assumes l: "ll_list h head ps" and add: "alive h add" "add \<notin> set ps"
  shows "LL_APPEND_VS2008 h head add = LL_APPEND h head add"
proof (cases ps rule: rev_cases)
  case Nil
  with assms show ?thesis by (simp add: LL_APPEND_VS2008_def LL_APPEND_def ll_list_def link_simps)
next
  case (snoc us p)
  then have p: "alive h p" "p \<noteq> add" using list_alive(1) [OF l] add by auto
  have "nexts (get_next (upd_next h add None)) (us @ [p]) None" using l add snoc by (simp add: ll_list_def link_simps)
  from ll_last_walk [OF this] vs_last_walk [of h us p add] show ?thesis
    using l add p snoc
    by (cases us) (auto simp: LL_APPEND_VS2008_def LL_APPEND_def ll_list_def link_simps upd_next_commute)
qed

lemma ll_delete_vs2008: "LL_DELETE_VS2008 h head del = LL_DELETE h head del"
  by (auto simp: LL_DELETE_VS2008_def LL_DELETE_def split: bind_splits)

subsection \<open>Iteration\<close>

text \<open>A loop body that leaves the memory alone is a fold in the option monad.\<close>

fun opt_fold :: "('a \<Rightarrow> 's \<Rightarrow> 's option) \<Rightarrow> 'a list \<Rightarrow> 's \<Rightarrow> 's option" where
  "opt_fold g [] s = Some s"
| "opt_fold g (x # xs) s = do { s \<leftarrow> g x s; opt_fold g xs s }"

lemma ll_foreach_fold:
  assumes "nexts (get_next h) ps None" and "\<And>p s. p \<in> set ps \<Longrightarrow> body p (h, s) = map_option (Pair h) (g p s)"
  shows "LL_FOREACH body (first ps None) (h, s) = map_option (Pair h) (opt_fold g ps s)"
  using assms
proof (induction ps arbitrary: s)
  case Nil
  then show ?case by (simp add: LL_FOREACH.simps)
next
  case (Cons p ps)
  then show ?case by (subst LL_FOREACH.simps) (cases "g p s", auto)
qed

text \<open>The circular loops stop when \<open>next\<close> is the head again.\<close>

lemma cdl_next:
  assumes "hd0 \<notin> set ps"
  shows "(if first ps (Some hd0) = Some hd0 then None else first ps (Some hd0)) = first ps None" "hd0 \<notin> set (tl ps)"
  using assms by (cases ps; auto)+

lemma cdl_foreach_fold:
  assumes "nexts (get_next h) ps (Some hd0)" and "hd0 \<notin> set (tl ps)"
    and "\<And>p s. p \<in> set ps \<Longrightarrow> body p (h, s) = map_option (Pair h) (g p s)"
  shows "cdl_foreach body (Some hd0) (first ps None) (h, s) = map_option (Pair h) (opt_fold g ps s)"
  using assms
proof (induction ps arbitrary: s)
  case Nil
  then show ?case by (simp add: cdl_foreach.simps)
next
  case (Cons p ps)
  then show ?case using cdl_next [of hd0 ps] by (subst cdl_foreach.simps) (cases "g p s", auto)
qed

lemma count_fold:
  "0 \<le> k \<Longrightarrow> k + int (length ps) \<le> INT_MAX \<Longrightarrow> opt_fold (\<lambda>_ k. c_int (k + 1)) ps k = Some (k + int (length ps))"
  by (induction ps arbitrary: k) (auto simp: c_int_Some INT_MAX_def)

lemma cdl_list_loop: "cdl_list h head (p # ps) \<Longrightarrow> head = Some p \<and> p \<notin> set ps \<and> nexts (get_next h) (p # ps) (Some p)"
  by (auto simp: cdl_list_def)

lemma count_body: "(\<lambda>_ (h, counter). do { counter \<leftarrow> c_int (counter + 1); Some (h, counter) }) p (h, k) =
    map_option (Pair h) (c_int (k + 1))"
  by (cases "c_int (k + 1)") auto

lemma ll_count:
  assumes "ll_list h head ps" and "int (length ps) \<le> INT_MAX"
  shows "LL_COUNT h head = Some (int (length ps))"
  using assms ll_foreach_fold [of h ps "\<lambda>_ (h, counter). do { counter \<leftarrow> c_int (counter + 1); Some (h, counter) }", OF _ count_body]
    count_fold [of 0 ps] by (simp add: LL_COUNT_def ll_list_def)

lemma cdl_count:
  assumes "cdl_list h head ps" and "int (length ps) \<le> INT_MAX"
  shows "CDL_COUNT h head = Some (int (length ps))"
proof (cases ps)
  case Nil
  with assms show ?thesis by (simp add: CDL_COUNT_def CDL_FOREACH_def cdl_list_def cdl_foreach.simps)
next
  case (Cons p qs)
  with assms cdl_list_loop [of h head p qs] show ?thesis
    using count_fold [of 0 ps] cdl_foreach_fold
      [of h ps p "\<lambda>_ (h, counter). do { counter \<leftarrow> c_int (counter + 1); Some (h, counter) }", OF _ _ count_body]
    by (simp add: CDL_COUNT_def CDL_FOREACH_def)
qed

definition satisfies :: "'e mem \<Rightarrow> ('e \<Rightarrow> bool) \<Rightarrow> ptr \<Rightarrow> bool" where
  "satisfies h test p \<longleftrightarrow> (\<exists>c. payload h p = Some c \<and> test c)"

lemma satisfies_Some: "payload h p = Some c \<Longrightarrow> satisfies h test p = test c"
  by (simp add: satisfies_def)

lemma ll_search_walk:
  "nexts (get_next h) ps None \<Longrightarrow> ll_search test h (first ps None) = Some (find (satisfies h test) ps)"
proof (induction ps)
  case Nil
  then show ?case by (simp add: ll_search.simps)
next
  case (Cons p ps)
  moreover from Cons.prems obtain c where "payload h p = Some c" by (auto elim: aliveE dest: alive_get)
  ultimately show ?case by (subst ll_search.simps) (simp add: satisfies_Some)
qed

lemma cdl_search_walk:
  "nexts (get_next h) ps (Some hd0) \<Longrightarrow> hd0 \<notin> set (tl ps) \<Longrightarrow>
   cdl_search test h (Some hd0) (first ps None) = Some (find (satisfies h test) ps)"
proof (induction ps)
  case Nil
  then show ?case by (simp add: cdl_search.simps)
next
  case (Cons p ps)
  moreover from Cons.prems obtain c where "payload h p = Some c" by (auto elim: aliveE dest: alive_get)
  ultimately show ?case
    using cdl_next [of hd0 ps] by (subst cdl_search.simps) (auto simp: satisfies_Some)
qed

lemma ll_search_find:
  assumes "ll_list h head ps"
  shows "LL_SEARCH_SCALAR h head field val = Some (find (satisfies h (\<lambda>c. field c = val)) ps)"
    and "LL_SEARCH h head elt cmp = Some (find (satisfies h (\<lambda>c. cmp c elt = 0)) ps)"
  using assms ll_search_walk [of h ps] by (simp_all add: LL_SEARCH_SCALAR_def LL_SEARCH_def ll_list_def)

lemma cdl_search_list:
  assumes "cdl_list h head ps"
  shows "cdl_search test h head head = Some (find (satisfies h test) ps)"
proof (cases ps)
  case Nil
  with assms show ?thesis by (simp add: cdl_list_def cdl_search.simps)
next
  case (Cons p qs)
  with assms cdl_list_loop [of h head p qs] cdl_search_walk [of h ps p test] show ?thesis by simp
qed

lemma cdl_search_find:
  assumes "cdl_list h head ps"
  shows "CDL_SEARCH_SCALAR h head field val = Some (find (satisfies h (\<lambda>c. field c = val)) ps)"
    and "CDL_SEARCH h head elt cmp = Some (find (satisfies h (\<lambda>c. cmp c elt = 0)) ps)"
  using cdl_search_list [OF assms] by (simp_all add: CDL_SEARCH_SCALAR_def CDL_SEARCH_def)

subsection \<open>Iteration that changes the list\<close>

text \<open>The safe loops visit every element of the list at their start even if the statement unlinks and
  releases the element it is at: \<open>I qs s\<close> is what holds while \<open>qs\<close> are to be visited.\<close>

lemma ll_foreach_safe:
  assumes "I ps s" and step: "\<And>p qs s. I (p # qs) s \<Longrightarrow> (\<exists>head. ll_list (fst s) head (p # qs)) \<and> (\<exists>s'. body p s = Some s' \<and> I qs s')"
  shows "\<exists>s'. LL_FOREACH_SAFE body (first ps None) s = Some s' \<and> I [] s'"
  using assms(1)
proof (induction ps arbitrary: s)
  case Nil
  then show ?case by (simp add: LL_FOREACH_SAFE.simps)
next
  case (Cons p qs)
  from step [OF Cons.prems] obtain s' where "get_next (fst s) p = Some (first qs None)" "body p s = Some s'" "I qs s'"
    by (auto simp: ll_list_def)
  with Cons.IH show ?case by (subst LL_FOREACH_SAFE.simps) simp
qed

lemma cdl_foreach_safe_walk:
  assumes "I ps s" "distinct ps" "ps \<noteq> []"
    and step: "\<And>p qs s. I (p # qs) s \<Longrightarrow> (\<exists>head. cdl_list (fst s) head (p # qs)) \<and> (\<exists>s'. body p s = Some s' \<and> I qs s')"
  shows "\<exists>s'. cdl_foreach_safe body (Some (last ps)) (first ps None) s = Some s' \<and> I [] s'"
  using assms(1-3)
proof (induction ps arbitrary: s)
  case (Cons p qs)
  from step [OF Cons.prems(1)] obtain s' where s': "get_next (fst s) p = Some (first qs (Some p))" "body p s = Some s'" "I qs s'"
    by (auto simp: cdl_list_def)
  then show ?case
  proof (cases qs)
    case Nil
    with s' show ?thesis by (subst cdl_foreach_safe.simps) (simp add: cdl_foreach_safe.simps)
  next
    case (Cons q rs)
    then have "p \<noteq> last qs" using Cons.prems(2) by auto
    with Cons s' Cons.IH [OF s'(3)] Cons.prems show ?thesis by (subst cdl_foreach_safe.simps) auto
  qed
qed simp

lemma cdl_foreach_safe_list:
  assumes "cdl_list (fst s) head ps" and "I ps s"
    and step: "\<And>p qs s. I (p # qs) s \<Longrightarrow> (\<exists>head. cdl_list (fst s) head (p # qs)) \<and> (\<exists>s'. body p s = Some s' \<and> I qs s')"
  shows "\<exists>s'. CDL_FOREACH_SAFE body head s = Some s' \<and> I [] s'"
proof (cases ps)
  case Nil
  with assms show ?thesis by (simp add: CDL_FOREACH_SAFE_def cdl_list_def cdl_foreach_safe.simps)
next
  case (Cons p qs)
  with assms(1) have "head = Some p" "get_prev (fst s) p = Some (Some (last ps))"
    by (auto simp: cdl_list_def final_nonempty)
  with cdl_foreach_safe_walk [of I ps s body, OF assms(2) _ _ step] assms(1) Cons show ?thesis
    by (simp add: CDL_FOREACH_SAFE_def cdl_list_def)
qed

subsection \<open>The interface of a list\<close>

text \<open>Edits of a list that is a list of elements: at the front, by removal, by putting an element in the
  place of another one, and before another one.\<close>

datatype edit = Add_front ptr | Remove ptr | Put_for ptr ptr | Add_before ptr ptr

fun edit_list :: "ptr list \<Rightarrow> edit \<Rightarrow> ptr list" where
  "edit_list ps (Add_front p) = p # ps"
| "edit_list ps (Remove p) = remove1 p ps"
| "edit_list ps (Put_for el p) = map (\<lambda>q. if q = el then p else q) ps"
| "edit_list ps (Add_before el p) = concat (map (\<lambda>q. if q = el then [p, q] else [q]) ps)"

text \<open>A new element must exist and not be in the list, an old one must be.\<close>

fun edit_ok :: "(ptr \<Rightarrow> bool) \<Rightarrow> ptr list \<Rightarrow> edit \<Rightarrow> bool" where
  "edit_ok ex ps (Add_front p) = (ex p \<and> p \<notin> set ps)"
| "edit_ok ex ps (Remove p) = (p \<in> set ps)"
| "edit_ok ex ps (Put_for el p) = (el \<in> set ps \<and> ex p \<and> p \<notin> set ps)"
| "edit_ok ex ps (Add_before el p) = (el \<in> set ps \<and> ex p \<and> p \<notin> set ps)"

fun edits_ok :: "(ptr \<Rightarrow> bool) \<Rightarrow> ptr list \<Rightarrow> edit list \<Rightarrow> bool" where
  "edits_ok ex ps [] = True"
| "edits_ok ex ps (e # es) = (edit_ok ex ps e \<and> edits_ok ex (edit_list ps e) es)"

type_synonym 'e front_op = "'e mem \<Rightarrow> ptr option \<Rightarrow> ptr \<Rightarrow> ('e mem \<times> ptr option) option"
type_synonym 'e elem_op = "'e mem \<Rightarrow> ptr option \<Rightarrow> ptr \<Rightarrow> ptr \<Rightarrow> ('e mem \<times> ptr option) option"

fun run_edits :: "'e front_op \<Rightarrow> 'e front_op \<Rightarrow> 'e elem_op \<Rightarrow> 'e elem_op \<Rightarrow> 'e mem \<Rightarrow> ptr option \<Rightarrow> edit list \<Rightarrow>
    ('e mem \<times> ptr option) option" where
  "run_edits prepend del replace prepend_elem h head [] = Some (h, head)"
| "run_edits prepend del replace prepend_elem h head (e # es) = do {
     (h, head) \<leftarrow> (case e of
          Add_front p \<Rightarrow> prepend h head p
        | Remove p \<Rightarrow> del h head p
        | Put_for el p \<Rightarrow> replace h head el p
        | Add_before el p \<Rightarrow> prepend_elem h head el p);
     run_edits prepend del replace prepend_elem h head es
   }"

text \<open>The statement of a loop that unlinks and releases every element.\<close>

definition free_elem :: "'e front_op \<Rightarrow> ptr \<Rightarrow> 'e mem \<times> ptr option \<Rightarrow> ('e mem \<times> ptr option) option" where
  "free_elem del p s = (case s of (h, head) \<Rightarrow> do {
     (h, head) \<leftarrow> del h head p;
     h \<leftarrow> dealloc h p;
     Some (h, head)
   })"

lemma link_dealloc:
  "get_next (h\<lparr>cells := (cells h)(p := None)\<rparr>) = (get_next h)(p := None)"
  "get_prev (h\<lparr>cells := (cells h)(p := None)\<rparr>) = (get_prev h)(p := None)"
  "payload (h\<lparr>cells := (cells h)(p := None)\<rparr>) = (payload h)(p := None)"
  by (auto simp: get_next_def get_prev_def payload_def load_def)

locale list_macros =
  fixes rep :: "'e mem \<Rightarrow> ptr option \<Rightarrow> ptr list \<Rightarrow> bool"
    and prepend del :: "'e front_op"
    and replace prepend_elem :: "'e elem_op"
    and foreach_safe :: "(ptr \<Rightarrow> 'e mem \<times> ptr option \<Rightarrow> ('e mem \<times> ptr option) option) \<Rightarrow> ptr option \<Rightarrow>
      'e mem \<times> ptr option \<Rightarrow> ('e mem \<times> ptr option) option"
  assumes rep_Nil: "rep h head [] \<Longrightarrow> head = None"
    and rep_distinct: "rep h head ps \<Longrightarrow> distinct ps"
    and rep_alive: "rep h head ps \<Longrightarrow> p \<in> set ps \<Longrightarrow> alive h p"
    and rep_frame: "p \<notin> set ps \<Longrightarrow> rep (h\<lparr>cells := (cells h)(p := None)\<rparr>) head ps = rep h head ps"
    and prepend: "rep h head ps \<Longrightarrow> alive h p \<Longrightarrow> p \<notin> set ps \<Longrightarrow>
      \<exists>h' head'. prepend h head p = Some (h', head') \<and> rep h' head' (p # ps) \<and> same_payload h h'"
    and del: "rep h head (us @ p # vs) \<Longrightarrow>
      \<exists>h' head'. del h head p = Some (h', head') \<and> rep h' head' (us @ vs) \<and> same_payload h h'"
    and replace: "rep h head (us @ el # vs) \<Longrightarrow> alive h p \<Longrightarrow> p \<notin> set (us @ el # vs) \<Longrightarrow>
      \<exists>h' head'. replace h head el p = Some (h', head') \<and> rep h' head' (us @ p # vs) \<and> same_payload h h'"
    and prepend_elem: "rep h head (us @ el # vs) \<Longrightarrow> alive h p \<Longrightarrow> p \<notin> set (us @ el # vs) \<Longrightarrow>
      \<exists>h' head'. prepend_elem h head el p = Some (h', head') \<and> rep h' head' (us @ p # el # vs) \<and> same_payload h h'"
    and foreach_safe: "rep (fst s) head ps \<Longrightarrow> I ps s \<Longrightarrow>
      (\<And>p qs s. I (p # qs) s \<Longrightarrow> (\<exists>head. rep (fst s) head (p # qs)) \<and> (\<exists>s'. body p s = Some s' \<and> I qs s')) \<Longrightarrow>
      \<exists>s'. foreach_safe body head s = Some s' \<and> I [] s'"
begin

lemma edit_step:
  assumes r: "rep h head ps" and ok: "edit_ok (alive h) ps e"
  shows "\<exists>h' head'. run_edits prepend del replace prepend_elem h head [e] = Some (h', head') \<and>
    rep h' head' (edit_list ps e) \<and> same_payload h h'"
proof (cases e)
  case (Add_front p)
  with prepend [OF r, of p] ok show ?thesis by auto
next
  case (Remove p)
  with ok obtain us vs where s: "ps = us @ p # vs" "p \<notin> set us" by (auto dest: split_list_first)
  with del [of h head us p vs] r Remove show ?thesis by (auto simp: remove1_append)
next
  case (Put_for el p)
  with ok obtain us vs where s: "ps = us @ el # vs" by (auto dest: split_list)
  have "edit_list ps e = us @ p # vs"
    using rep_distinct [OF r] s Put_for by (auto intro!: map_idI)
  with replace [of h head us el vs p] r ok s Put_for show ?thesis by auto
next
  case (Add_before el p)
  with ok obtain us vs where s: "ps = us @ el # vs" by (auto dest: split_list)
  have other: "el \<notin> set xs \<Longrightarrow> concat (map (\<lambda>q. if q = el then [p, q] else [q]) xs) = xs" for xs
    by (induction xs) auto
  have "edit_list ps e = us @ p # el # vs"
    using rep_distinct [OF r] s Add_before by (simp add: other)
  with prepend_elem [of h head us el vs p] r ok s Add_before show ?thesis by auto
qed

lemma run_edits_list:
  assumes "rep h head ps" and "edits_ok (alive h) ps es"
  shows "\<exists>h' head'. run_edits prepend del replace prepend_elem h head es = Some (h', head') \<and>
    rep h' head' (foldl edit_list ps es) \<and> same_payload h h'"
  using assms
proof (induction es arbitrary: h head ps)
  case Nil
  then show ?case by simp
next
  case (Cons e es)
  then obtain h1 head1 where 1: "run_edits prepend del replace prepend_elem h head [e] = Some (h1, head1)"
    "rep h1 head1 (edit_list ps e)" "same_payload h h1" using edit_step [of h head ps e] by auto
  with Cons.prems Cons.IH [of h1 head1 "edit_list ps e"] same_payload_alive [OF 1(3)] obtain h2 head2 where
    "run_edits prepend del replace prepend_elem h1 head1 es = Some (h2, head2)"
    "rep h2 head2 (foldl edit_list (edit_list ps e) es)" "same_payload h1 h2" by auto
  with 1 same_payload_trans [OF 1(3)] show ?case
    by (cases e) (auto split: bind_splits)
qed

lemma free_all:
  assumes r: "rep h head ps"
  shows "\<exists>h'. foreach_safe (free_elem del) head (h, head) = Some (h', None) \<and>
    payload h' = (\<lambda>p. if p \<in> set ps then None else payload h p)"
proof -
  define I where "I qs s \<longleftrightarrow> rep (fst s) (snd s) qs \<and> set qs \<subseteq> set ps \<and>
      payload (fst s) = (\<lambda>p. if p \<in> set ps - set qs then None else payload h p)" for qs and s :: "'e mem \<times> ptr option"
  have step: "(\<exists>head. rep (fst s) head (p # qs)) \<and> (\<exists>s'. free_elem del p s = Some s' \<and> I qs s')" if i: "I (p # qs) s" for p qs s
  proof -
    obtain h1 head1 where s: "s = (h1, head1)" by (cases s)
    with i del [of h1 head1 "[]" p qs] obtain h2 head2 where 2: "del h1 head1 p = Some (h2, head2)"
      "rep h2 head2 qs" "same_payload h1 h2" by (auto simp: I_def)
    have p: "p \<notin> set qs" using i rep_distinct by (fastforce simp: I_def)
    have "alive h2 p" using i s same_payload_alive [OF 2(3)] rep_alive [of h1 head1 "p # qs" p] by (simp add: I_def)
    then obtain c where "cells h2 p = Some c" by (auto simp: alive_def)
    then show ?thesis
      using 2 i s p rep_frame [OF p, of h2 head2]
      by (auto simp: free_elem_def heap_simps I_def link_dealloc same_payload_def fun_eq_iff)
  qed
  have "rep (fst (h, head)) head ps" "I ps (h, head)" using r by (simp_all add: I_def)
  from foreach_safe [OF this step] obtain s' where "foreach_safe (free_elem del) head (h, head) = Some s'" "I [] s'" by blast
  then show ?thesis using rep_Nil by (cases s') (auto simp: I_def)
qed

end

lemma list_dealloc_frame:
  assumes "p \<notin> set ps"
  shows "ll_list (h\<lparr>cells := (cells h)(p := None)\<rparr>) head ps = ll_list h head ps"
    "dl_list (h\<lparr>cells := (cells h)(p := None)\<rparr>) head ps = dl_list h head ps"
    "cdl_list (h\<lparr>cells := (cells h)(p := None)\<rparr>) head ps = cdl_list h head ps"
  using assms by (simp_all add: list_defs link_dealloc)

lemma dl_ll_list: "dl_list h head ps \<Longrightarrow> ll_list h head ps"
  by (simp add: list_defs)

lemma list_Nil:
  "ll_list h head [] \<Longrightarrow> head = None" "dl_list h head [] \<Longrightarrow> head = None" "cdl_list h head [] \<Longrightarrow> head = None"
  by (simp_all add: list_defs)

lemma list_distinct:
  "ll_list h head ps \<Longrightarrow> distinct ps" "dl_list h head ps \<Longrightarrow> distinct ps" "cdl_list h head ps \<Longrightarrow> distinct ps"
  by (simp_all add: list_defs)

lemma ll_foreach_safe_list:
  assumes "ll_list (fst s) head ps" and "I ps s"
    and "\<And>p qs s. I (p # qs) s \<Longrightarrow> (\<exists>head. ll_list (fst s) head (p # qs)) \<and> (\<exists>s'. body p s = Some s' \<and> I qs s')"
  shows "\<exists>s'. LL_FOREACH_SAFE body head s = Some s' \<and> I [] s'"
  using ll_foreach_safe [of I ps s body, OF assms(2,3)] assms(1) by (simp add: ll_list_def)

lemma dl_foreach_safe_list:
  assumes "dl_list (fst s) head ps" and "I ps s"
    and "\<And>p qs s. I (p # qs) s \<Longrightarrow> (\<exists>head. dl_list (fst s) head (p # qs)) \<and> (\<exists>s'. body p s = Some s' \<and> I qs s')"
  shows "\<exists>s'. LL_FOREACH_SAFE body head s = Some s' \<and> I [] s'"
  by (rule ll_foreach_safe_list [OF dl_ll_list [OF assms(1)], of I, OF assms(2)]) (use assms(3) dl_ll_list in blast)

interpretation ll: list_macros ll_list LL_PREPEND LL_DELETE LL_REPLACE_ELEM LL_PREPEND_ELEM LL_FOREACH_SAFE
  by unfold_locales
    (fact list_Nil list_distinct list_alive list_dealloc_frame ll_prepend ll_delete ll_replace ll_prepend_elem ll_foreach_safe_list)+

interpretation dl: list_macros dl_list DL_PREPEND DL_DELETE DL_REPLACE_ELEM DL_PREPEND_ELEM DL_FOREACH_SAFE
  by unfold_locales
    (fact list_Nil list_distinct list_alive list_dealloc_frame dl_prepend dl_delete dl_replace dl_prepend_elem dl_foreach_safe_list)+

interpretation cdl: list_macros cdl_list CDL_PREPEND CDL_DELETE CDL_REPLACE_ELEM CDL_PREPEND_ELEM CDL_FOREACH_SAFE
  by unfold_locales
    (fact list_Nil list_distinct list_alive list_dealloc_frame cdl_prepend cdl_delete cdl_replace cdl_prepend_elem cdl_foreach_safe_list)+

subsection \<open>Properties\<close>

text \<open>C10: through any sequence of additions at the front, deletions, replacements and insertions the macros
  of all three kinds of list perform exactly the edit on the list of elements, never touch a pointer
  they may not touch, and leave everything but the links of the structures as it was.\<close>

theorem list_macros_edit_lists:
  assumes "edits_ok (alive h) ps es"
  shows "(ll_list h head ps \<longrightarrow> (\<exists>h' head'. run_edits LL_PREPEND LL_DELETE LL_REPLACE_ELEM LL_PREPEND_ELEM h head es =
            Some (h', head') \<and> ll_list h' head' (foldl edit_list ps es) \<and> same_payload h h')) \<and>
         (dl_list h head ps \<longrightarrow> (\<exists>h' head'. run_edits DL_PREPEND DL_DELETE DL_REPLACE_ELEM DL_PREPEND_ELEM h head es =
            Some (h', head') \<and> dl_list h' head' (foldl edit_list ps es) \<and> same_payload h h')) \<and>
         (cdl_list h head ps \<longrightarrow> (\<exists>h' head'. run_edits CDL_PREPEND CDL_DELETE CDL_REPLACE_ELEM CDL_PREPEND_ELEM h head es =
            Some (h', head') \<and> cdl_list h' head' (foldl edit_list ps es) \<and> same_payload h h'))"
  using ll.run_edits_list dl.run_edits_list cdl.run_edits_list assms by blast

text \<open>Four structures in memory, and a session of edits that starts from the empty list.\<close>

definition sample_mem :: "unit mem" where
  "sample_mem = \<lparr>cells = (\<lambda>p. if p < 4 then Some \<lparr>nxt = None, prv = None\<rparr> else None), brk = 4, limit = 9\<rparr>"

definition sample_edits :: "edit list" where
  "sample_edits = [Add_front 0, Add_front 1, Add_before 0 2, Put_for 1 3, Remove 0, Add_before 2 1]"

lemma sample_edits_ok: "edits_ok (alive sample_mem) [] sample_edits" "foldl edit_list [] sample_edits = [3, 1, 2]"
  by (simp_all add: sample_edits_def sample_mem_def alive_def)

lemma sample_empty: "ll_list sample_mem None []" "dl_list sample_mem None []" "cdl_list sample_mem None []"
  by (simp_all add: list_defs)

theorem list_macros_edit_lists_witness:
  "(\<exists>h' head'. run_edits LL_PREPEND LL_DELETE LL_REPLACE_ELEM LL_PREPEND_ELEM sample_mem None sample_edits =
      Some (h', head') \<and> ll_list h' head' [3, 1, 2] \<and> same_payload sample_mem h') \<and>
   (\<exists>h' head'. run_edits DL_PREPEND DL_DELETE DL_REPLACE_ELEM DL_PREPEND_ELEM sample_mem None sample_edits =
      Some (h', head') \<and> dl_list h' head' [3, 1, 2] \<and> same_payload sample_mem h') \<and>
   (\<exists>h' head'. run_edits CDL_PREPEND CDL_DELETE CDL_REPLACE_ELEM CDL_PREPEND_ELEM sample_mem None sample_edits =
      Some (h', head') \<and> cdl_list h' head' [3, 1, 2] \<and> same_payload sample_mem h')"
  using list_macros_edit_lists [OF sample_edits_ok(1), of None] sample_empty by (simp add: sample_edits_ok(2))

text \<open>A safe loop that deletes and releases the element it is at empties the list and releases exactly its
  elements.\<close>

theorem list_safe_iteration:
  "(ll_list h head ps \<longrightarrow> (\<exists>h'. LL_FOREACH_SAFE (free_elem LL_DELETE) head (h, head) = Some (h', None) \<and>
      payload h' = (\<lambda>p. if p \<in> set ps then None else payload h p))) \<and>
   (dl_list h head ps \<longrightarrow> (\<exists>h'. DL_FOREACH_SAFE (free_elem DL_DELETE) head (h, head) = Some (h', None) \<and>
      payload h' = (\<lambda>p. if p \<in> set ps then None else payload h p))) \<and>
   (cdl_list h head ps \<longrightarrow> (\<exists>h'. CDL_FOREACH_SAFE (free_elem CDL_DELETE) head (h, head) = Some (h', None) \<and>
      payload h' = (\<lambda>p. if p \<in> set ps then None else payload h p)))"
  using ll.free_all dl.free_all cdl.free_all by blast

end
