(* ===== verification/Work_Queue.thy ===== *)
theory Work_Queue
  imports Ut_List
begin

text \<open>
  The work queue of the socket server, \<^verbatim>\<open>2PCKVStore/wq.c\<close>, down to the pointers: the items are
  records of a heap, doubly linked by the macros \<^verbatim>\<open>DL_APPEND\<close> and \<^verbatim>\<open>DL_DELETE\<close> of
  \<^verbatim>\<open>utlist.h\<close> (the head's \<open>prev\<close> is the tail, the tail's \<open>next\<close> is NULL).

  Each operation runs under \<open>wq->mutex\<close>, so it is one atomic step.  \<^verbatim>\<open>wq_pop\<close> on an empty queue
  waits on the condition variable: \<open>Some None\<close> is "the caller waits", \<open>Some (Some (job, q))\<close> is the
  return of a job.  The theory shows that the queue implements the first-in first-out interface
  \<open>fifo\<close>, and proves for every implementation of \<open>fifo\<close> what the server relies on.
\<close>

subsection \<open>Data\<close>

record wq_item_t = link +
  item :: int

type_synonym wq_heap = "wq_item_t heap"

record wq_t =
  wq_size :: int
  wq_head :: "ptr option"
  wq_mem :: wq_heap

subsection \<open>The operations\<close>

definition wq_init :: "wq_heap \<Rightarrow> wq_t" where
  "wq_init h = \<lparr>wq_size = 0, wq_head = None, wq_mem = h\<rparr>"

definition wq_pop :: "wq_t \<Rightarrow> (int \<times> wq_t) option option" where
  "wq_pop wq =
     (if wq_size wq = 0 then Some None
      else do {
        wq_item \<leftarrow> wq_head wq;
        c \<leftarrow> load (wq_mem wq) wq_item;
        let job = item c;
        s \<leftarrow> c_int (wq_size wq - 1);
        (h, head) \<leftarrow> DL_DELETE (wq_mem wq) (wq_head wq) wq_item;
        h \<leftarrow> dealloc h wq_item;
        Some (Some (job, \<lparr>wq_size = s, wq_head = head, wq_mem = h\<rparr>))
      })"

definition wq_push :: "wq_t \<Rightarrow> int \<Rightarrow> wq_t option" where
  "wq_push wq it = do {
     (wq_item, h) \<leftarrow> new (wq_mem wq) \<lparr>nxt = None, prv = None, item = 0\<rparr>;
     h \<leftarrow> modify h wq_item (\<lambda>c. c\<lparr>item := it\<rparr>);
     (h, head) \<leftarrow> DL_APPEND h (wq_head wq) wq_item;
     s \<leftarrow> c_int (wq_size wq + 1);
     Some \<lparr>wq_size = s, wq_head = head, wq_mem = h\<rparr>
   }"

subsection \<open>The representation of a queue\<close>

definition node_items :: "wq_heap \<Rightarrow> ptr list \<Rightarrow> int option list" where
  "node_items h ps = map (\<lambda>p. map_option item (cells h p)) ps"

definition wq_rep :: "wq_t \<Rightarrow> int list \<Rightarrow> bool" where
  "wq_rep wq xs \<longleftrightarrow> heap_ok (wq_mem wq) \<and> wq_size wq = int (length xs) \<and>
     wq_size wq \<le> INT_MAX \<and>
     (\<exists>ps. dl_list (wq_mem wq) (wq_head wq) ps \<and> node_items (wq_mem wq) ps = map Some xs)"

text \<open>How many more items are sure to fit: memory and the range of the counter.\<close>

definition wq_room :: "wq_t \<Rightarrow> nat" where
  "wq_room wq = min (limit (wq_mem wq) - brk (wq_mem wq)) (nat (INT_MAX - wq_size wq))"

subsection \<open>The interface of a queue and its clients\<close>

datatype 'a qevent = Push 'a | Pop

text \<open>A run of producers and consumers: the jobs handed out, in order, and the final queue.  A
  consumer that finds the queue empty waits, which changes nothing.\<close>

fun queue_run :: "('q \<Rightarrow> 'a \<Rightarrow> 'q option) \<Rightarrow> ('q \<Rightarrow> ('a \<times> 'q) option option) \<Rightarrow> 'q \<Rightarrow>
    'a qevent list \<Rightarrow> ('a list \<times> 'q) option" where
  "queue_run push pop q [] = Some ([], q)"
| "queue_run push pop q (Push x # es) = do { q \<leftarrow> push q x; queue_run push pop q es }"
| "queue_run push pop q (Pop # es) = do {
     r \<leftarrow> pop q;
     (case r of
        None \<Rightarrow> queue_run push pop q es
      | Some (x, q) \<Rightarrow> do { (ys, q) \<leftarrow> queue_run push pop q es; Some (x # ys, q) })
   }"

fun pushed :: "'a qevent list \<Rightarrow> 'a list" where
  "pushed [] = []"
| "pushed (Push x # es) = x # pushed es"
| "pushed (Pop # es) = pushed es"

locale fifo =
  fixes push :: "'q \<Rightarrow> 'a \<Rightarrow> 'q option"
    and pop :: "'q \<Rightarrow> ('a \<times> 'q) option option"
    and rep :: "'q \<Rightarrow> 'a list \<Rightarrow> bool"
    and room :: "'q \<Rightarrow> nat"
  assumes push_rep: "rep q xs \<Longrightarrow> 0 < room q \<Longrightarrow>
      \<exists>q'. push q x = Some q' \<and> rep q' (xs @ [x]) \<and> room q \<le> Suc (room q')"
    and pop_empty: "rep q [] \<Longrightarrow> pop q = Some None"
    and pop_rep: "rep q (x # xs) \<Longrightarrow> \<exists>q'. pop q = Some (Some (x, q')) \<and> rep q' xs \<and> room q \<le> room q'"
begin

text \<open>Every run with enough room goes through, and what was handed out followed by what is left is
  what was there followed by what was pushed: no job is lost, duplicated or reordered.\<close>

lemma run_fifo:
  assumes "rep q xs" and "length (pushed es) \<le> room q"
  shows "\<exists>ys q' zs. queue_run push pop q es = Some (ys, q') \<and> rep q' zs \<and> xs @ pushed es = ys @ zs"
  using assms
proof (induction es arbitrary: q xs rule: pushed.induct)
  case 1
  then show ?case by auto
next
  case (2 x es)
  then obtain q' where q': "push q x = Some q'" "rep q' (xs @ [x])" "room q \<le> Suc (room q')"
    using push_rep [of q xs x] by auto
  then have "length (pushed es) \<le> room q'" using "2.prems" by simp
  from "2.IH" [OF q'(2) this] q'(1) show ?case by auto
next
  case (3 es)
  show ?case
  proof (cases xs)
    case Nil
    with "3.IH" [of q xs] "3.prems" pop_empty [of q] show ?thesis by simp
  next
    case (Cons x xs')
    with 3 obtain q' where q': "pop q = Some (Some (x, q'))" "rep q' xs'" "room q \<le> room q'"
      using pop_rep by blast
    then have "length (pushed es) \<le> room q'" using "3.prems" by simp
    from "3.IH" [OF q'(2) this] obtain ys q'' zs where
        "queue_run push pop q' es = Some (ys, q'')" "rep q'' zs" "xs' @ pushed es = ys @ zs"
      by blast
    with q' Cons show ?thesis by auto
  qed
qed

end

subsection \<open>The operations keep the representation\<close>

lemma wq_rep_init: "heap_ok h \<Longrightarrow> wq_rep (wq_init h) []"
  by (simp add: wq_rep_def wq_init_def dl_list_def node_items_def INT_MAX_def)

lemma item_more: "link.more c' = link.more c \<Longrightarrow> item c' = item c" for c c' :: wq_item_t
  by (cases c; cases c') simp

lemma node_items_frame:
  assumes "\<And>p. p \<in> set ps \<Longrightarrow> payload h' p = payload h p"
  shows "node_items h' ps = node_items h ps"
proof -
  have "map_option item (cells h' p) = map_option item (cells h p)" if "p \<in> set ps" for p
    using assms [OF that] item_more [of "the (cells h' p)" "the (cells h p)"]
    by (cases "cells h p"; cases "cells h' p") (auto simp add: payload_def load_def)
  then show ?thesis by (simp add: node_items_def)
qed

lemma node_items_append [simp]: "node_items h (ps @ qs) = node_items h ps @ node_items h qs"
  by (simp add: node_items_def)

lemma wq_push_rep:
  assumes rep: "wq_rep q xs" and room: "0 < wq_room q"
  shows "\<exists>q'. wq_push q x = Some q' \<and> wq_rep q' (xs @ [x]) \<and> wq_room q \<le> Suc (wq_room q')"
proof -
  obtain ps where ok: "heap_ok (wq_mem q)" and dl: "dl_list (wq_mem q) (wq_head q) ps"
    and it: "node_items (wq_mem q) ps = map Some xs" and sz: "wq_size q = int (length xs)"
    using rep by (auto simp: wq_rep_def)
  let ?p = "brk (wq_mem q)"
  define h where "h = (wq_mem q)\<lparr>brk := Suc ?p,
      cells := (cells (wq_mem q))(?p \<mapsto> \<lparr>nxt = None, prv = None, item = x\<rparr>)\<rparr>"
  have fresh: "?p \<notin> set ps" using list_alive(2) [OF dl, of ?p] heap_ok_fresh [OF ok] by (auto simp: alive_def)
  have "dl_list h (wq_head q) ps" using dl fresh
    by (subst list_frame(2) [of ps _ "wq_mem q"]) (auto simp: h_def get_next_def get_prev_def load_def)
  from dl_append [OF this, of ?p] fresh obtain h' head' where app: "DL_APPEND h (wq_head q) ?p = Some (h', head')"
    and dl': "dl_list h' head' (ps @ [?p])" and fr: "same_payload h h'" by (auto simp: h_def alive_def)
  have "heap_ok h" using ok by (auto simp: heap_ok_def h_def less_Suc_eq)
  then have ok': "heap_ok h'" using same_payload_heap_ok fr by blast
  have "node_items h' ps = node_items (wq_mem q) ps"
    by (rule node_items_frame) (use fresh fr in \<open>auto simp: h_def same_payload_def payload_def load_def\<close>)
  moreover have "node_items h' [?p] = node_items h [?p]"
    by (rule node_items_frame) (use fr in \<open>simp add: same_payload_def\<close>)
  moreover have "node_items h [?p] = [Some x]" by (simp add: node_items_def h_def)
  ultimately have "node_items h' (ps @ [?p]) = map Some (xs @ [x])" using it by simp
  moreover have "wq_push q x = Some \<lparr>wq_size = wq_size q + 1, wq_head = head', wq_mem = h'\<rparr>"
    using room app sz by (simp add: wq_push_def wq_room_def heap_simps c_int_Some INT_MAX_def h_def)
  ultimately show ?thesis
    using ok' dl' sz room fr by (auto simp: wq_rep_def wq_room_def h_def same_payload_def)
qed

lemma wq_pop_empty: "wq_rep q [] \<Longrightarrow> wq_pop q = Some None"
  by (simp add: wq_rep_def wq_pop_def)

lemma wq_pop_rep:
  assumes rep: "wq_rep q (x # xs)"
  shows "\<exists>q'. wq_pop q = Some (Some (x, q')) \<and> wq_rep q' xs \<and> wq_room q \<le> wq_room q'"
proof -
  obtain p ps c where ok: "heap_ok (wq_mem q)" and dl: "dl_list (wq_mem q) (wq_head q) (p # ps)"
    and c: "cells (wq_mem q) p = Some c" "item c = x" and it: "node_items (wq_mem q) ps = map Some xs"
    and sz: "wq_size q = int (length xs) + 1" "wq_size q \<le> INT_MAX"
    using rep by (auto simp: wq_rep_def node_items_def map_eq_Cons_conv)
  have head: "wq_head q = Some p" and d: "p \<notin> set ps" using dl by (auto simp: dl_list_def)
  from dl_delete [of "wq_mem q" "wq_head q" "[]" p ps] dl obtain h' head' where
    del: "DL_DELETE (wq_mem q) (wq_head q) p = Some (h', head')" and dl': "dl_list h' head' ps"
    and fr: "same_payload (wq_mem q) h'" by auto
  have "alive h' p" using same_payload_alive [OF fr] c by (simp add: alive_def)
  then obtain c' where c': "cells h' p = Some c'" by (auto simp: alive_def)
  let ?h = "h'\<lparr>cells := (cells h')(p := None)\<rparr>"
  have "heap_ok h'" by (rule same_payload_heap_ok [OF fr ok])
  then have "heap_ok ?h" by (auto simp: heap_ok_def)
  moreover have "dl_list ?h head' ps" using dl' d by (simp add: list_dealloc_frame)
  moreover have "node_items ?h ps = map Some xs"
    unfolding it [symmetric] by (rule node_items_frame) (use fr d in \<open>auto simp: link_dealloc same_payload_def\<close>)
  moreover have "wq_pop q = Some (Some (x, \<lparr>wq_size = int (length xs), wq_head = head', wq_mem = ?h\<rparr>))"
    using head c c' del sz by (simp add: wq_pop_def heap_simps c_int_Some INT_MAX_def)
  ultimately show ?thesis using sz fr by (auto simp: wq_rep_def wq_room_def same_payload_def)
qed

subsection \<open>The queue is first-in first-out\<close>

interpretation wq: fifo wq_push wq_pop wq_rep wq_room
  using wq_push_rep wq_pop_empty wq_pop_rep by unfold_locales blast+

subsection \<open>Properties\<close>

text \<open>C11: a work queue that starts empty, in a heap with room for the items pushed, never gets stuck or
  touches freed memory, whatever the order of pushes and pops, and the jobs the workers received,
  followed by the jobs still queued, are the jobs pushed, in order: none is lost, duplicated or
  overtaken.\<close>

theorem work_queue_fifo:
  assumes "heap_ok h" and "length (pushed es) \<le> limit h - brk h" and "int (length (pushed es)) \<le> INT_MAX"
  shows "\<exists>ys q' zs. queue_run wq_push wq_pop (wq_init h) es = Some (ys, q') \<and> wq_rep q' zs \<and>
           pushed es = ys @ zs"
  using wq.run_fifo [OF wq_rep_init [OF assms(1)], of es] assms(2,3)
  by (simp add: wq_room_def wq_init_def)

theorem work_queue_fifo_witness:
  "heap_ok (empty_heap 3 :: wq_heap) \<and>
   (\<exists>ys q' zs. queue_run wq_push wq_pop (wq_init (empty_heap 3)) [Push 7, Pop, Pop, Push 8, Push 9, Pop] =
       Some (ys, q') \<and> wq_rep q' zs \<and> [7, 8, 9] = ys @ zs)"
  using work_queue_fifo [of "empty_heap 3" "[Push 7, Pop, Pop, Push 8, Push 9, Pop]"]
  by (simp add: empty_heap_def INT_MAX_def heap_ok_def del: queue_run.simps)

end
