(* ===== verification/MD5.thy ===== *)
theory MD5
  imports Prelude
begin

unbundle bit_operations_syntax

text \<open>
  The MD5 implementation of \<^verbatim>\<open>2PCKVStore/md5.c\<close> and the string hash \<^verbatim>\<open>strhash64\<close> of
  \<^verbatim>\<open>kvconstants.h\<close> that places keys and followers on the ring.

  The context is the C struct at its widths (the field \<open>block\<close> is only used by the portable variant
  of the macro \<open>SET\<close>; the model reads the four input bytes directly, as the x86 variant does).
  The 64 \<open>STEP\<close> lines of \<^verbatim>\<open>body\<close> are the table \<open>md5_rounds\<close>, one entry per line; the macro's
  register arguments rotate by one position from line to line, which is the rotation in \<open>md5_STEP\<close>.
  Reads and writes outside a buffer are \<^const>\<open>None\<close>.

  The main result is that hashing a message in any number of pieces computes the digest of
  RFC 1321: padding and bit count of the standard, then the compression function over the 64-byte
  blocks, with the round schedule in its closed form.
\<close>

type_synonym md5_regs = "u32 \<times> u32 \<times> u32 \<times> u32"

record MD5_CTX =
  ctx_lo :: u32
  ctx_hi :: u32
  ctx_regs :: md5_regs
  ctx_buffer :: "u8 list"

subsection \<open>The round functions and the step\<close>

definition md5_F :: "u32 \<Rightarrow> u32 \<Rightarrow> u32 \<Rightarrow> u32" where
  "md5_F x y z = z XOR (x AND (y XOR z))"

definition md5_G :: "u32 \<Rightarrow> u32 \<Rightarrow> u32 \<Rightarrow> u32" where
  "md5_G x y z = y XOR (z AND (x XOR y))"

definition md5_H :: "u32 \<Rightarrow> u32 \<Rightarrow> u32 \<Rightarrow> u32" where
  "md5_H x y z = (x XOR y) XOR z"

definition md5_H2 :: "u32 \<Rightarrow> u32 \<Rightarrow> u32 \<Rightarrow> u32" where
  "md5_H2 x y z = x XOR (y XOR z)"

definition md5_I :: "u32 \<Rightarrow> u32 \<Rightarrow> u32 \<Rightarrow> u32" where
  "md5_I x y z = y XOR (x OR NOT z)"

datatype md5_fn = RF | RG | RH | RH2 | RI

fun md5_apply :: "md5_fn \<Rightarrow> u32 \<Rightarrow> u32 \<Rightarrow> u32 \<Rightarrow> u32" where
  "md5_apply RF = md5_F"
| "md5_apply RG = md5_G"
| "md5_apply RH = md5_H"
| "md5_apply RH2 = md5_H2"
| "md5_apply RI = md5_I"

definition md5_STEP :: "(nat \<Rightarrow> u32) \<Rightarrow> md5_fn \<times> nat \<times> u32 \<times> nat \<Rightarrow> md5_regs \<Rightarrow> md5_regs" where
  "md5_STEP X = (\<lambda>(f, n, t, s) (a, b, c, d).
     let a = a + (md5_apply f b c d + X n + t);
         a = push_bit s a OR drop_bit (32 - s) (a AND 0xffffffff);
         a = a + b
     in (d, a, b, c))"

definition md5_rounds :: "(md5_fn \<times> nat \<times> u32 \<times> nat) list" where
  "md5_rounds = [
     (RF, 0, 0xd76aa478, 7), (RF, 1, 0xe8c7b756, 12), (RF, 2, 0x242070db, 17), (RF, 3, 0xc1bdceee, 22),
     (RF, 4, 0xf57c0faf, 7), (RF, 5, 0x4787c62a, 12), (RF, 6, 0xa8304613, 17), (RF, 7, 0xfd469501, 22),
     (RF, 8, 0x698098d8, 7), (RF, 9, 0x8b44f7af, 12), (RF, 10, 0xffff5bb1, 17), (RF, 11, 0x895cd7be, 22),
     (RF, 12, 0x6b901122, 7), (RF, 13, 0xfd987193, 12), (RF, 14, 0xa679438e, 17), (RF, 15, 0x49b40821, 22),
     (RG, 1, 0xf61e2562, 5), (RG, 6, 0xc040b340, 9), (RG, 11, 0x265e5a51, 14), (RG, 0, 0xe9b6c7aa, 20),
     (RG, 5, 0xd62f105d, 5), (RG, 10, 0x02441453, 9), (RG, 15, 0xd8a1e681, 14), (RG, 4, 0xe7d3fbc8, 20),
     (RG, 9, 0x21e1cde6, 5), (RG, 14, 0xc33707d6, 9), (RG, 3, 0xf4d50d87, 14), (RG, 8, 0x455a14ed, 20),
     (RG, 13, 0xa9e3e905, 5), (RG, 2, 0xfcefa3f8, 9), (RG, 7, 0x676f02d9, 14), (RG, 12, 0x8d2a4c8a, 20),
     (RH, 5, 0xfffa3942, 4), (RH2, 8, 0x8771f681, 11), (RH, 11, 0x6d9d6122, 16), (RH2, 14, 0xfde5380c, 23),
     (RH, 1, 0xa4beea44, 4), (RH2, 4, 0x4bdecfa9, 11), (RH, 7, 0xf6bb4b60, 16), (RH2, 10, 0xbebfbc70, 23),
     (RH, 13, 0x289b7ec6, 4), (RH2, 0, 0xeaa127fa, 11), (RH, 3, 0xd4ef3085, 16), (RH2, 6, 0x04881d05, 23),
     (RH, 9, 0xd9d4d039, 4), (RH2, 12, 0xe6db99e5, 11), (RH, 15, 0x1fa27cf8, 16), (RH2, 2, 0xc4ac5665, 23),
     (RI, 0, 0xf4292244, 6), (RI, 7, 0x432aff97, 10), (RI, 14, 0xab9423a7, 15), (RI, 5, 0xfc93a039, 21),
     (RI, 12, 0x655b59c3, 6), (RI, 3, 0x8f0ccc92, 10), (RI, 10, 0xffeff47d, 15), (RI, 1, 0x85845dd1, 21),
     (RI, 8, 0x6fa87e4f, 6), (RI, 15, 0xfe2ce6e0, 10), (RI, 6, 0xa3014314, 15), (RI, 13, 0x4e0811a1, 21),
     (RI, 4, 0xf7537e82, 6), (RI, 11, 0xbd3af235, 10), (RI, 2, 0x2ad7d2bb, 15), (RI, 9, 0xeb86d391, 21)]"

text \<open>\<open>SET n\<close>: the little-endian word at \<open>ptr[4 * n]\<close>.\<close>

definition md5_SET :: "u8 list \<Rightarrow> nat \<Rightarrow> u32" where
  "md5_SET p n = ucast (p ! (n * 4)) OR push_bit 8 (ucast (p ! (n * 4 + 1))) OR
                 push_bit 16 (ucast (p ! (n * 4 + 2))) OR push_bit 24 (ucast (p ! (n * 4 + 3)))"

definition add_regs :: "md5_regs \<Rightarrow> md5_regs \<Rightarrow> md5_regs" where
  "add_regs = (\<lambda>(a, b, c, d) (sa, sb, sc, sd). (a + sa, b + sb, c + sc, d + sd))"

text \<open>One iteration of the loop of \<^verbatim>\<open>body\<close>: the 64 steps on one block, then the addition of the saved
  registers.\<close>

definition md5_block :: "md5_regs \<Rightarrow> u8 list \<Rightarrow> md5_regs" where
  "md5_block r p = add_regs (fold (md5_STEP (md5_SET p)) md5_rounds r) r"

function body_loop :: "md5_regs \<Rightarrow> u8 list \<Rightarrow> u64 \<Rightarrow> (md5_regs \<times> u8 list) option" where
  "body_loop r data sz =
     (if length data < 64 then None
      else let r = md5_block r (take 64 data); sz = sz - 64
           in if sz \<noteq> 0 then body_loop r (drop 64 data) sz
              else Some (r, drop 64 data))"
  by pat_completeness auto
termination
  by (relation "measure (\<lambda>(r, data, sz). length data)") auto

definition md5_body :: "MD5_CTX \<Rightarrow> u8 list \<Rightarrow> u64 \<Rightarrow> (MD5_CTX \<times> u8 list) option" where
  "md5_body ctx data sz = do {
     (r, rest) \<leftarrow> body_loop (ctx_regs ctx) data sz;
     Some (ctx\<lparr>ctx_regs := r\<rparr>, rest)
   }"

subsection \<open>The interface\<close>

text \<open>\<^verbatim>\<open>memcpy(&buf[off], src, n)\<close> and \<^verbatim>\<open>memset(&buf[off], 0, n)\<close>.\<close>

definition memcpy :: "u8 list \<Rightarrow> nat \<Rightarrow> u8 list \<Rightarrow> nat \<Rightarrow> u8 list option" where
  "memcpy buf off src n =
     (if off + n \<le> length buf \<and> n \<le> length src
      then Some (take off buf @ take n src @ drop (off + n) buf) else None)"

definition memzero :: "u8 list \<Rightarrow> nat \<Rightarrow> nat \<Rightarrow> u8 list option" where
  "memzero buf off n = memcpy buf off (replicate n 0) n"

definition MD5_Init :: "u8 list \<Rightarrow> MD5_CTX" where
  "MD5_Init junk = \<lparr>ctx_lo = 0, ctx_hi = 0,
     ctx_regs = (0x67452301, 0xefcdab89, 0x98badcfe, 0x10325476), ctx_buffer = junk\<rparr>"

definition MD5_Update :: "MD5_CTX \<Rightarrow> u8 list \<Rightarrow> u64 \<Rightarrow> MD5_CTX option" where
  "MD5_Update ctx data sz =
     (let saved_lo = ctx_lo ctx;
          lo = ucast ((ucast saved_lo + sz) AND 0x1fffffff :: u64) :: u32;
          hi = (if lo < saved_lo then ctx_hi ctx + 1 else ctx_hi ctx);
          hi = hi + ucast (drop_bit 29 sz);
          ctx = ctx\<lparr>ctx_lo := lo, ctx_hi := hi\<rparr>;
          used = (ucast (saved_lo AND 0x3f) :: u64);
          available = 64 - used
      in if used \<noteq> 0 \<and> sz < available then do {
           b \<leftarrow> memcpy (ctx_buffer ctx) (unat used) data (unat sz);
           Some (ctx\<lparr>ctx_buffer := b\<rparr>)
         }
         else do {
           (ctx, data, sz) \<leftarrow>
             (if used \<noteq> 0 then do {
                b \<leftarrow> memcpy (ctx_buffer ctx) (unat used) data (unat available);
                let ctx = ctx\<lparr>ctx_buffer := b\<rparr>;
                let data = drop (unat available) data;
                let sz = sz - available;
                (ctx, _) \<leftarrow> md5_body ctx (ctx_buffer ctx) 64;
                Some (ctx, data, sz)
              }
              else Some (ctx, data, sz));
           (ctx, data, sz) \<leftarrow>
             (if sz \<ge> 64 then do {
                (ctx, data) \<leftarrow> md5_body ctx data (sz AND NOT 0x3f);
                Some (ctx, data, sz AND 0x3f)
              }
              else Some (ctx, data, sz));
           b \<leftarrow> memcpy (ctx_buffer ctx) 0 data (unat sz);
           Some (ctx\<lparr>ctx_buffer := b\<rparr>)
         })"

definition word_bytes :: "u32 \<Rightarrow> u8 list" where
  "word_bytes w = [ucast w, ucast (drop_bit 8 w), ucast (drop_bit 16 w), ucast (drop_bit 24 w)]"

definition MD5_Final :: "MD5_CTX \<Rightarrow> u8 list option" where
  "MD5_Final ctx = do {
     let used = unat (ctx_lo ctx AND 0x3f);
     b \<leftarrow> memcpy (ctx_buffer ctx) used [0x80] 1;
     let ctx = ctx\<lparr>ctx_buffer := b\<rparr>;
     let used = used + 1;
     let available = 64 - used;
     (ctx, used, available) \<leftarrow>
       (if available < 8 then do {
          b \<leftarrow> memzero (ctx_buffer ctx) used available;
          (ctx, _) \<leftarrow> md5_body (ctx\<lparr>ctx_buffer := b\<rparr>) b 64;
          Some (ctx, 0, 64)
        }
        else Some (ctx, used, available));
     b \<leftarrow> memzero (ctx_buffer ctx) used (available - 8);
     let lo = push_bit 3 (ctx_lo ctx);
     let ctx = ctx\<lparr>ctx_lo := lo\<rparr>;
     b \<leftarrow> memcpy b 56 (word_bytes (ctx_lo ctx) @ word_bytes (ctx_hi ctx)) 8;
     let ctx = ctx\<lparr>ctx_buffer := b\<rparr>;
     (ctx, _) \<leftarrow> md5_body ctx (ctx_buffer ctx) 64;
     (case ctx_regs ctx of (a, b, c, d) \<Rightarrow>
        Some (word_bytes a @ word_bytes b @ word_bytes c @ word_bytes d))
   }"

definition junk64 :: "u8 list" where
  "junk64 = replicate 64 0"

text \<open>The hash of a string: the first eight bytes of the digest as a little-endian number.  The
  buffer of a fresh context is uninitialised; \<open>strhash64_of\<close> takes its contents as an argument,
  and the digest theorem below shows that they do not matter.\<close>

definition str_bytes :: "string \<Rightarrow> u8 list" where
  "str_bytes s = map of_char s"

definition le64 :: "u8 list \<Rightarrow> u64" where
  "le64 p = (\<Sum>i<8. push_bit (8 * i) (ucast (p ! i)))"

definition strhash64_of :: "u8 list \<Rightarrow> string \<Rightarrow> u64 option" where
  "strhash64_of junk str = do {
     ctx \<leftarrow> MD5_Update (MD5_Init junk) (str_bytes str) (of_nat (length str));
     result \<leftarrow> MD5_Final ctx;
     Some (le64 result)
   }"

definition strhash64 :: "string \<Rightarrow> u64" where
  "strhash64 str = (case strhash64_of junk64 str of Some h \<Rightarrow> h | None \<Rightarrow> 0)"

subsection \<open>The digest of RFC 1321\<close>

text \<open>The standard's words, round functions, index and shift schedule.  The constants \<open>T\<close> are read off
  the code's table.\<close>

definition rfc_word :: "u8 list \<Rightarrow> nat \<Rightarrow> u32" where
  "rfc_word p k = of_nat (unat (p ! (k * 4)) + 2 ^ 8 * unat (p ! (k * 4 + 1)) +
     2 ^ 16 * unat (p ! (k * 4 + 2)) + 2 ^ 24 * unat (p ! (k * 4 + 3)))"

definition rfc_f :: "nat \<Rightarrow> u32 \<Rightarrow> u32 \<Rightarrow> u32 \<Rightarrow> u32" where
  "rfc_f i x y z =
     (if i < 16 then (x AND y) OR (NOT x AND z)
      else if i < 32 then (x AND z) OR (y AND NOT z)
      else if i < 48 then x XOR y XOR z
      else y XOR (x OR NOT z))"

definition rfc_k :: "nat \<Rightarrow> nat" where
  "rfc_k i = (if i < 16 then i else if i < 32 then (5 * i + 1) mod 16
              else if i < 48 then (3 * i + 5) mod 16 else (7 * i) mod 16)"

definition rfc_s :: "nat \<Rightarrow> nat" where
  "rfc_s i = [7, 12, 17, 22, 5, 9, 14, 20, 4, 11, 16, 23, 6, 10, 15, 21] ! (4 * (i div 16) + i mod 4)"

definition rfc_T :: "nat \<Rightarrow> u32" where
  "rfc_T i = fst (snd (snd (md5_rounds ! i)))"

definition rfc_step :: "u8 list \<Rightarrow> nat \<Rightarrow> md5_regs \<Rightarrow> md5_regs" where
  "rfc_step p i = (\<lambda>(a, b, c, d).
     (d, b + word_rotl (rfc_s i) (a + rfc_f i b c d + rfc_word p (rfc_k i) + rfc_T i), b, c))"

definition rfc_block :: "md5_regs \<Rightarrow> u8 list \<Rightarrow> md5_regs" where
  "rfc_block r p = add_regs (fold (rfc_step p) [0..<64] r) r"

fun md5_compress :: "md5_regs \<Rightarrow> u8 list \<Rightarrow> md5_regs" where
  "md5_compress r p = (if length p < 64 then r else md5_compress (rfc_block r (take 64 p)) (drop 64 p))"

definition md5_iv :: md5_regs where
  "md5_iv = (0x67452301, 0xefcdab89, 0x98badcfe, 0x10325476)"

text \<open>Padding: a one bit, zero bits up to 56 bytes modulo 64, and the low 64 bits of the length in
  bits.\<close>

definition md5_pad :: "u8 list \<Rightarrow> u8 list" where
  "md5_pad msg = msg @ 0x80 # replicate ((119 - length msg mod 64) mod 64) 0 @
     word_bytes (of_nat (8 * length msg)) @ word_bytes (of_nat (8 * length msg div 2 ^ 32))"

definition md5_digest :: "u8 list \<Rightarrow> u8 list" where
  "md5_digest msg = (case md5_compress md5_iv (md5_pad msg) of (a, b, c, d) \<Rightarrow>
     word_bytes a @ word_bytes b @ word_bytes c @ word_bytes d)"

subsection \<open>What the context stands for\<close>

text \<open>A context has absorbed the message \<open>msg\<close>: the counters hold its length, the registers the
  compression of its whole blocks, the front of the buffer the bytes after them.\<close>

definition md5_inv :: "MD5_CTX \<Rightarrow> u8 list \<Rightarrow> bool" where
  "md5_inv ctx msg \<longleftrightarrow> length (ctx_buffer ctx) = 64 \<and>
     unat (ctx_lo ctx) = length msg mod 2 ^ 29 \<and> ctx_hi ctx = of_nat (length msg div 2 ^ 29) \<and>
     (\<exists>full part. msg = full @ part \<and> 64 dvd length full \<and> length part < 64 \<and>
        ctx_regs ctx = md5_compress md5_iv full \<and> take (length part) (ctx_buffer ctx) = part)"

text \<open>The last part of \<^const>\<open>MD5_Update\<close>: whole blocks from the input, the rest into the buffer.\<close>

definition md5_tail :: "MD5_CTX \<Rightarrow> u8 list \<Rightarrow> u64 \<Rightarrow> MD5_CTX option" where
  "md5_tail ctx data sz = do {
     (ctx, data, sz) \<leftarrow>
       (if sz \<ge> 64 then do {
          (ctx, data) \<leftarrow> md5_body ctx data (sz AND NOT 0x3f);
          Some (ctx, data, sz AND 0x3f)
        }
        else Some (ctx, data, sz));
     b \<leftarrow> memcpy (ctx_buffer ctx) 0 data (unat sz);
     Some (ctx\<lparr>ctx_buffer := b\<rparr>)
   }"

fun md5_updates :: "MD5_CTX \<Rightarrow> u8 list list \<Rightarrow> MD5_CTX option" where
  "md5_updates ctx [] = Some ctx"
| "md5_updates ctx (d # ds) = do {
     ctx \<leftarrow> MD5_Update ctx d (of_nat (length d));
     md5_updates ctx ds
   }"

fun round_no :: "md5_fn \<Rightarrow> nat" where
  "round_no RF = 0" | "round_no RG = 1" | "round_no RH = 2" | "round_no RH2 = 2" | "round_no RI = 3"


subsection \<open>Word arithmetic\<close>

lemma unat_and_63: "unat (w AND 0x3f :: 'a::len word) = unat w mod 64" if "6 \<le> LENGTH('a)"
proof -
  have "(0x3f :: 'a word) = mask 6" by (simp add: mask_eq_decr_exp)
  then have "w AND 0x3f = take_bit 6 w" by (simp add: take_bit_eq_mask)
  then have "unat (w AND 0x3f) = take_bit 6 (unat w)" by (simp only: unsigned_take_bit_eq)
  then show ?thesis by (simp add: take_bit_eq_mod)
qed

lemma unat_and_not_63: "unat (w AND NOT 0x3f :: u64) = unat w - unat w mod 64"
proof -
  have "(w AND NOT 0x3f) + (w AND 0x3f) = (w AND NOT 0x3f) OR (w AND 0x3f)"
    by (rule disjunctive_add) (simp add: bit_simps)
  also have "\<dots> = w" by (rule bit_word_eqI) (auto simp: bit_simps)
  finally have eq: "(w AND NOT 0x3f) + (w AND 0x3f) = w" .
  then have "w AND 0x3f = w - (w AND NOT 0x3f)" by (metis add_diff_cancel_left')
  moreover have "w AND NOT 0x3f \<le> w" by (simp add: word_and_le2)
  ultimately have "unat (w AND 0x3f) = unat w - unat (w AND NOT 0x3f)" "unat (w AND NOT 0x3f) \<le> unat w"
    by (simp_all add: unat_sub word_le_nat_alt)
  then show ?thesis by (simp add: unat_and_63)
qed

lemma rot: "0 < s \<Longrightarrow> s < 32 \<Longrightarrow> push_bit s a OR drop_bit (32 - s) (a AND 0xffffffff) = word_rotl s (a :: u32)"
proof -
  assume s: "0 < s" "s < 32"
  have "(0xffffffff :: u32) = mask LENGTH(32)" by (simp add: mask_eq_decr_exp)
  then have m: "a AND 0xffffffff = a" by (metis take_bit_eq_mask take_bit_length_eq)
  show ?thesis unfolding m
  proof (rule bit_word_eqI)
    fix n assume "n < LENGTH(32)"
    then have n: "n < 32" by simp
    show "bit (push_bit s a OR drop_bit (32 - s) a) n = bit (word_rotl s a) n"
    proof (cases "n < s")
      case True
      then have "(n + (32 - s)) mod 32 = n + (32 - s)" using s by simp
      then show ?thesis using True s n by (simp add: bit_simps add.commute [of n 32])
    next
      case False
      then have "n + (32 - s) = (n - s) + 32" using s by simp
      then have "(n + (32 - s)) mod 32 = (n - s + 32) mod 32" by (rule arg_cong)
      then have "(n + (32 - s)) mod 32 = n - s" using n by simp
      then show ?thesis using False s n by (auto simp: bit_simps dest: bit_imp_le_length)
    qed
  qed
qed

lemma or_push_bit:
  fixes x y :: u32
  assumes "unat x < 2 ^ k"
  shows "x OR push_bit k y = x + push_bit k y"
proof -
  have "x AND push_bit k y = 0"
  proof (rule bit_word_eqI)
    fix n assume "n < LENGTH(32)"
    have "x = take_bit k x"
      using assms by (metis take_bit_nat_eq_self unsigned_take_bit_eq word_unat_eq_iff)
    then have "\<not> (k \<le> n \<and> bit x n)" by (metis bit_take_bit_iff not_le)
    then show "bit (x AND push_bit k y) n = bit (0 :: u32) n" by (auto simp: bit_simps)
  qed
  then show ?thesis by (rule disjunctive_add_eq_or [symmetric])
qed

lemma unat_add_push_bit:
  fixes x y :: u32
  assumes "unat x < 2 ^ k" and "unat y < 2 ^ j" and "k + j \<le> 32"
  shows "unat (x + push_bit k y) = unat x + 2 ^ k * unat y \<and> unat (x + push_bit k y) < 2 ^ (k + j)"
proof -
  have "unat x + 2 ^ k * unat y < 2 ^ k + 2 ^ k * unat y" using assms(1) by simp
  also have "\<dots> = 2 ^ k * Suc (unat y)" by simp
  also have "\<dots> \<le> 2 ^ k * 2 ^ j" using assms(2) by (intro mult_le_mono) simp_all
  finally have lt: "unat x + 2 ^ k * unat y < 2 ^ (k + j)" by (simp add: power_add)
  also have "\<dots> \<le> 2 ^ 32" using assms(3) by (intro power_increasing) simp_all
  finally have "unat x + 2 ^ k * unat y < 2 ^ 32" .
  moreover have "push_bit k y = of_nat (2 ^ k * unat y)" by (simp add: push_bit_eq_mult ac_simps)
  then have "x + push_bit k y = of_nat (unat x + 2 ^ k * unat y)" by simp
  then have "unat (x + push_bit k y) = (unat x + 2 ^ k * unat y) mod 2 ^ 32"
    by (simp add: unat_of_nat del: of_nat_add of_nat_mult)
  ultimately have "unat (x + push_bit k y) = unat x + 2 ^ k * unat y" by simp
  with lt show ?thesis by simp
qed

lemma unat_ucast8: "unat (ucast (x :: u8) :: u32) = unat x" "unat (ucast (x :: u8) :: u32) < 2 ^ 8"
proof -
  have "unat x < 2 ^ 8" using unsigned_less [of x] by simp
  then show "unat (ucast x :: u32) = unat x" "unat (ucast x :: u32) < 2 ^ 8"
    by (simp_all add: unsigned_ucast_eq take_bit_eq_mod)
qed

lemma md5_SET_word: "md5_SET p n = rfc_word p n"
proof -
  let ?b = "\<lambda>i. ucast (p ! (n * 4 + i)) :: u32"
  let ?w1 = "?b 0 + push_bit 8 (?b 1)" let ?w2 = "?w1 + push_bit 16 (?b 2)" let ?w3 = "?w2 + push_bit 24 (?b 3)"
  have w1: "unat ?w1 = unat (?b 0) + 2 ^ 8 * unat (?b 1)" "unat ?w1 < 2 ^ 16"
    using unat_add_push_bit [of "?b 0" 8 "?b 1" 8] unat_ucast8 by simp_all
  have w2: "unat ?w2 = unat ?w1 + 2 ^ 16 * unat (?b 2)" "unat ?w2 < 2 ^ 24"
    using unat_add_push_bit [of ?w1 16 "?b 2" 8] w1 unat_ucast8 by simp_all
  have w3: "unat ?w3 = unat ?w2 + 2 ^ 24 * unat (?b 3)"
    using unat_add_push_bit [of ?w2 24 "?b 3" 8] w2 unat_ucast8 by simp_all
  have o: "?b 0 OR push_bit 8 (?b 1) = ?w1" "?w1 OR push_bit 16 (?b 2) = ?w2" "?w2 OR push_bit 24 (?b 3) = ?w3"
    by (rule or_push_bit, rule unat_ucast8, rule or_push_bit, rule w1(2), rule or_push_bit, rule w2(2))
  have "md5_SET p n = ((?b 0 OR push_bit 8 (?b 1)) OR push_bit 16 (?b 2)) OR push_bit 24 (?b 3)"
    by (simp only: md5_SET_def or.assoc add_0_right)
  also have "\<dots> = ?w3" by (simp only: o)
  also have "\<dots> = of_nat (unat ?w3)" by simp
  also have "\<dots> = rfc_word p n"
    unfolding w3 unfolding w2(1) w1(1) unat_ucast8(1) rfc_word_def by (simp only: add_0_right)
  finally show ?thesis .
qed

lemma rfc_f_apply: "i < 64 \<Longrightarrow> round_no f = i div 16 \<Longrightarrow> md5_apply f x y z = rfc_f i x y z"
  by (cases f)
    (auto simp: rfc_f_def md5_F_def md5_G_def md5_H_def md5_H2_def md5_I_def bit_simps not_less intro!: bit_word_eqI)

lemma schedule: "list_all (\<lambda>i. case md5_rounds ! i of (f, n, t, s) \<Rightarrow>
     round_no f = i div 16 \<and> n = rfc_k i \<and> s = rfc_s i \<and> 0 < s \<and> s < 32) [0..<64]"
  by code_simp

lemma md5_STEP_rfc:
  assumes "i < 64"
  shows "md5_STEP (md5_SET p) (md5_rounds ! i) r = rfc_step p i r"
proof -
  obtain f n t s where e: "md5_rounds ! i = (f, n, t, s)" by (cases "md5_rounds ! i")
  obtain a b c d where r: "r = (a, b, c, d)" by (cases r)
  from bspec [OF schedule [unfolded list_all_iff], of i] assms e
  have "round_no f = i div 16" "n = rfc_k i" "s = rfc_s i" "0 < s" "s < 32"
    by simp_all
  moreover from this have "md5_STEP (md5_SET p) (f, n, t, s) (a, b, c, d) =
      (d, word_rotl s (a + (md5_apply f b c d + md5_SET p n + t)) + b, b, c)"
    unfolding md5_STEP_def Let_def prod.case by (simp only: rot)
  ultimately show ?thesis using assms
    by (simp add: rfc_step_def e r rfc_f_apply md5_SET_word rfc_T_def ac_simps)
qed

lemma md5_block_rfc [simp]: "md5_block r p = rfc_block r p"
proof -
  have "length md5_rounds = 64" by (simp add: md5_rounds_def)
  then have "md5_rounds = map ((!) md5_rounds) [0..<64]" using map_nth [of md5_rounds] by simp
  then have "fold (md5_STEP (md5_SET p)) md5_rounds r = fold (md5_STEP (md5_SET p) \<circ> (!) md5_rounds) [0..<64] r"
    by (metis fold_map)
  also have "\<dots> = fold (rfc_step p) [0..<64] r"
    by (rule fold_cong) (auto simp: md5_STEP_rfc fun_eq_iff)
  finally show ?thesis by (simp add: md5_block_def rfc_block_def)
qed

declare md5_compress.simps [simp del]
declare body_loop.simps [simp del]

lemma md5_compress_short [simp]: "length p < 64 \<Longrightarrow> md5_compress r p = r"
  by (subst md5_compress.simps) simp

lemma md5_compress_block: "length b = 64 \<Longrightarrow> md5_compress r (b @ p) = md5_compress (rfc_block r b) p"
  by (subst md5_compress.simps) simp

lemma md5_compress_append:
  "64 dvd length p \<Longrightarrow> md5_compress r (p @ q) = md5_compress (md5_compress r p) q"
proof (induction r p rule: md5_compress.induct)
  case (1 r p)
  show ?case
  proof (cases "length p < 64")
    case True
    with 1(2) have "p = []" by (auto elim: dvdE)
    then show ?thesis by simp
  next
    case False
    have "64 dvd length (drop 64 p)" using 1(2) False by (simp add: dvd_diff_nat)
    with 1(1) False have "md5_compress (rfc_block r (take 64 p)) (drop 64 p @ q) =
        md5_compress (md5_compress (rfc_block r (take 64 p)) (drop 64 p)) q" by simp
    with False show ?thesis
      by (simp add: md5_compress.simps [of r "p @ q"] md5_compress.simps [of r p])
  qed
qed

lemma body_loop_compress:
  "64 dvd unat sz \<Longrightarrow> sz \<noteq> 0 \<Longrightarrow> unat sz \<le> length data \<Longrightarrow>
   body_loop r data sz = Some (md5_compress r (take (unat sz) data), drop (unat sz) data)"
proof (induction r data sz rule: body_loop.induct)
  case (1 r data sz)
  then have le: "64 \<le> unat sz" by (metis dvd_imp_le unat_gt_0)
  then have "64 \<le> sz" by (simp add: word_le_nat_alt)
  then have sub: "unat (sz - 64) = unat sz - 64" by (simp add: unat_sub)
  have data: "\<not> length data < 64" using le 1(4) by simp
  have dvd: "64 dvd unat (sz - 64)" using 1(2) by (simp add: sub dvd_diff_nat)
  have take: "md5_compress r (take (unat sz) data) = 
      md5_compress (rfc_block r (take 64 data)) (take (unat sz - 64) (drop 64 data))"
    using le data by (subst md5_compress.simps) (simp add: min_def drop_take)
  show ?case
  proof (cases "sz - 64 = 0")
    case True
    then have "unat sz = 64" using sub le by simp
    then show ?thesis using True data take by (subst body_loop.simps) (simp add: Let_def)
  next
    case False
    then have "body_loop (md5_block r (take 64 data)) (drop 64 data) (sz - 64) = 
       Some (md5_compress (rfc_block r (take 64 data)) (take (unat (sz - 64)) (drop 64 data)), drop (unat (sz - 64)) (drop 64 data))"
      using 1(1)[OF data refl refl _ dvd] 1(4) sub by simp
    then show ?thesis using False data take sub le
      by (subst body_loop.simps) (simp add: Let_def)
  qed
qed

lemma md5_inv_Init: "length junk = 64 \<Longrightarrow> md5_inv (MD5_Init junk) []"
  by (simp add: md5_inv_def MD5_Init_def md5_iv_def)

lemma md5_lo_step:
  fixes lo :: u32 and sz :: u64
  assumes "unat lo = n mod 2 ^ 29"
  shows "unat (ucast ((ucast lo + sz) AND 0x1fffffff :: u64) :: u32) = (n + unat sz) mod 2 ^ 29"
proof -
  have m: "(0x1fffffff :: u64) = mask 29" by (simp add: mask_eq_decr_exp)
  have lo32: "unat lo < 2 ^ 32" using unsigned_less [of lo] by simp
  have "unat (ucast lo + sz :: u64) mod 2 ^ 29 = (unat lo + unat sz) mod 2 ^ 64 mod 2 ^ 29"
    using lo32 by (simp add: unat_word_ariths unsigned_ucast_eq take_bit_eq_mod)
  also have "\<dots> = (unat lo + unat sz) mod 2 ^ 29" by (simp add: mod_mod_cancel)
  also have "\<dots> = (n + unat sz) mod 2 ^ 29" by (simp add: assms mod_simps)
  finally have "unat (ucast lo + sz :: u64) mod 2 ^ 29 = (n + unat sz) mod 2 ^ 29" .
  moreover have "unat ((ucast lo + sz) AND mask 29 :: u64) = unat (ucast lo + sz :: u64) mod 2 ^ 29"
    by (metis take_bit_eq_mask unsigned_take_bit_eq take_bit_eq_mod)
  ultimately have u: "unat ((ucast lo + sz) AND 0x1fffffff :: u64) = (n + unat sz) mod 2 ^ 29"
    by (simp only: m)
  have "(n + unat sz) mod 2 ^ 29 < 2 ^ 32"
    by (rule order.strict_trans [OF mod_less_divisor]) simp_all
  then show ?thesis by (simp add: unsigned_ucast_eq u take_bit_eq_mod)
qed

lemma div_carry:
  fixes n k m :: nat
  assumes "0 < k"
  shows "(n + m) div k = n div k + m div k + (if (n + m) mod k < n mod k then 1 else 0)"
proof -
  have "(n + m) div k = n div k + m div k + (n mod k + m mod k) div k" by (rule div_add1_eq)
  moreover have "(n + m) mod k = (n mod k + m mod k) mod k" by (simp add: mod_simps)
  moreover have "(n mod k + m mod k) div k = (if (n mod k + m mod k) mod k < n mod k then 1 else 0)"
  proof (cases "n mod k + m mod k < k")
    case False
    moreover have "n mod k + m mod k - k < k"
      using assms mod_less_divisor [of k n] mod_less_divisor [of k m] by linarith
    ultimately have "(n mod k + m mod k) div k = 1" "(n mod k + m mod k) mod k = n mod k + m mod k - k"
      using assms by (simp_all add: le_div_geq le_mod_geq)
    moreover have "m mod k < k" using assms by simp
    ultimately show ?thesis using False by (auto simp: not_less)
  qed simp
  ultimately show ?thesis by simp
qed

lemma md5_hi_step:
  fixes lo :: u32 and sz :: u64 and hi :: u32
  assumes "unat lo = n mod 2 ^ 29" and "hi = of_nat (n div 2 ^ 29)"
    and lo': "unat lo' = (n + unat sz) mod 2 ^ 29"
  shows "(if lo' < lo then hi + 1 else hi) + ucast (drop_bit 29 sz) = of_nat ((n + unat sz) div 2 ^ 29)"
proof -
  have "unat (drop_bit 29 sz) = unat sz div 2 ^ 29"
    by (simp only: unat_drop_bit_eq) (simp add: drop_bit_eq_div)
  then have "(of_nat (unat (drop_bit 29 sz)) :: u32) = of_nat (unat sz div 2 ^ 29)" by (rule arg_cong)
  then have "(ucast (drop_bit 29 sz) :: u32) = of_nat (unat sz div 2 ^ 29)" unfolding of_nat_unat .
  moreover have "lo' < lo \<longleftrightarrow> (n + unat sz) mod 2 ^ 29 < n mod 2 ^ 29"
    by (simp only: word_less_nat_alt assms lo')
  ultimately show ?thesis
    using div_carry [of "2 ^ 29" n "unat sz"] assms(2) by (simp add: algebra_simps)
qed

lemma md5_body_compress:
  assumes "64 dvd unat sz" and "sz \<noteq> 0" and "unat sz \<le> length data"
  shows "md5_body ctx data sz =
    Some (ctx\<lparr>ctx_regs := md5_compress (ctx_regs ctx) (take (unat sz) data)\<rparr>, drop (unat sz) data)"
  using body_loop_compress [OF assms] by (simp add: md5_body_def)

lemma md5_body_buffer:
  "length b = 64 \<Longrightarrow> md5_body ctx b 64 = Some (ctx\<lparr>ctx_regs := rfc_block (ctx_regs ctx) b\<rparr>, [])"
  using md5_compress_block [of b _ "[]"] by (simp add: md5_body_compress)

lemma md5_tail_correct:
  assumes buf: "length (ctx_buffer ctx) = 64" and sz: "unat sz = length data"
  shows "\<exists>b. md5_tail ctx data sz = Some (ctx\<lparr>ctx_regs := md5_compress (ctx_regs ctx) data, ctx_buffer := b\<rparr>) \<and>
     length b = 64 \<and> take (length data mod 64) b = drop (length data - length data mod 64) data"
proof (cases "sz \<ge> 64")
  case True
  let ?n = "length data - length data mod 64" and ?k = "length data mod 64"
  have n: "unat (sz AND NOT 0x3f) = ?n" and k: "unat (sz AND 0x3f) = ?k"
    using unat_and_not_63 [of sz] unat_and_63 [of sz] by (simp_all add: sz)
  have len: "64 \<le> length data" using True sz by (simp add: word_le_nat_alt)
  have "0 < ?n" using len mod_less_divisor [of 64 "length data"] by linarith
  then have pos: "sz AND NOT 0x3f \<noteq> 0" using n by auto
  have dvd: "64 dvd ?n" by (metis dvd_minus_mod)
  have cmp: "md5_compress r (take ?n data) = md5_compress r data" for r
    using md5_compress_append [of "take ?n data" r "drop ?n data"] dvd by simp
  have "md5_tail ctx data sz = Some (ctx\<lparr>ctx_regs := md5_compress (ctx_regs ctx) data,
      ctx_buffer := drop ?n data @ drop ?k (ctx_buffer ctx)\<rparr>)"
    using True n k dvd pos buf by (simp add: md5_tail_def md5_body_compress cmp memcpy_def less_imp_le)
  then show ?thesis using buf by (auto simp: min_def)
next
  case False
  then have "length data < 64" using sz by (simp add: word_le_nat_alt not_le)
  with False buf sz show ?thesis by (auto simp: md5_tail_def memcpy_def)
qed

lemma md5_used:
  assumes "unat lo = length msg mod 2 ^ 29" and "msg = full @ part" "64 dvd length full" "length part < 64"
  shows "unat (lo AND 0x3f :: u32) = length part" "unat (ucast (lo AND 0x3f :: u32) :: u64) = length part"
proof -
  have "unat (lo AND 0x3f) = length msg mod 2 ^ 29 mod 64"
    using unat_and_63 [of lo] assms(1) by simp
  also have "\<dots> = length msg mod 64" by (simp add: mod_mod_cancel)
  also have "\<dots> = length part" using assms(2-4) by (auto elim!: dvdE)
  finally show u: "unat (lo AND 0x3f) = length part" .
  then show "unat (ucast (lo AND 0x3f) :: u64) = length part"
    using assms(4) by (simp add: unsigned_ucast_eq take_bit_eq_mod)
qed

lemma MD5_Update_tail:
  assumes lo: "lo = ucast ((ucast (ctx_lo ctx) + sz) AND 0x1fffffff :: u64)"
    and hi: "hi = (if lo < ctx_lo ctx then ctx_hi ctx + 1 else ctx_hi ctx) + ucast (drop_bit 29 sz)"
    and used: "used = ucast (ctx_lo ctx AND 0x3f)"
    and ctx1: "ctx1 = ctx\<lparr>ctx_lo := lo, ctx_hi := hi\<rparr>"
  shows "MD5_Update ctx data sz =
     (if used \<noteq> 0 \<and> sz < 64 - used then do {
        b \<leftarrow> memcpy (ctx_buffer ctx) (unat used) data (unat sz);
        Some (ctx1\<lparr>ctx_buffer := b\<rparr>)
      }
      else if used \<noteq> 0 then do {
        b \<leftarrow> memcpy (ctx_buffer ctx) (unat used) data (unat (64 - used));
        (ctx2, _) \<leftarrow> md5_body (ctx1\<lparr>ctx_buffer := b\<rparr>) b 64;
        md5_tail ctx2 (drop (unat (64 - used)) data) (sz - (64 - used))
      }
      else md5_tail ctx1 data sz)"
  unfolding MD5_Update_def md5_tail_def Let_def lo [symmetric] hi [symmetric] used [symmetric] ctx1 [symmetric]
  by (simp add: ctx1 split: prod.splits Option.bind_splits)

lemma md5_inv_split:
  assumes "unat (ctx_lo ctx) = length msg mod 2 ^ 29" and "ctx_hi ctx = of_nat (length msg div 2 ^ 29)"
    and "msg = f @ p" and "64 dvd length f" and "length p < 64" and "length b = 64" and "take (length p) b = p"
  shows "md5_inv (ctx\<lparr>ctx_regs := md5_compress md5_iv f, ctx_buffer := b\<rparr>) msg"
  using assms unfolding md5_inv_def by auto

text \<open>The last part of an update, from a block boundary.\<close>

lemma md5_tail_inv:
  assumes cnt: "unat (ctx_lo ctx) = length msg mod 2 ^ 29" "ctx_hi ctx = of_nat (length msg div 2 ^ 29)"
    and f: "msg = f @ d" "64 dvd length f" "length b = 64" "unat s = length d"
  shows "\<exists>ctx'. md5_tail (ctx\<lparr>ctx_buffer := b, ctx_regs := md5_compress md5_iv f\<rparr>) d s = Some ctx' \<and> md5_inv ctx' msg"
proof -
  let ?n = "length d - length d mod 64"
  have dvd: "64 dvd ?n" by (rule dvd_minus_mod)
  have "length (take ?n d) = ?n" by simp
  with dvd f(2) have dv: "64 dvd length (f @ take ?n d)" by (metis dvd_add length_append)
  have "md5_compress (md5_compress md5_iv f) d = md5_compress md5_iv (f @ take ?n d)"
    using md5_compress_append [OF f(2), of md5_iv] md5_compress_append [of "take ?n d" _ "drop ?n d"] dvd
    by simp
  with md5_tail_correct [of "ctx\<lparr>ctx_buffer := b, ctx_regs := md5_compress md5_iv f\<rparr>" s d] f(3,4)
  obtain b' where "md5_tail (ctx\<lparr>ctx_buffer := b, ctx_regs := md5_compress md5_iv f\<rparr>) d s =
      Some (ctx\<lparr>ctx_regs := md5_compress md5_iv (f @ take ?n d), ctx_buffer := b'\<rparr>)"
    and b': "length b' = 64" "take (length d mod 64) b' = drop ?n d"
    by auto
  moreover have "md5_inv (ctx\<lparr>ctx_regs := md5_compress md5_iv (f @ take ?n d), ctx_buffer := b'\<rparr>) msg"
    by (rule md5_inv_split [OF cnt, of "f @ take ?n d" "drop ?n d", OF _ dv]) (use f b' in simp_all)
  ultimately show ?thesis by simp
qed

lemma MD5_Update_inv:
  assumes inv: "md5_inv ctx msg" and sz: "unat sz = length data"
  shows "\<exists>ctx'. MD5_Update ctx data sz = Some ctx' \<and> md5_inv ctx' (msg @ data)"
proof -
  define lo where "lo = (ucast ((ucast (ctx_lo ctx) + sz) AND 0x1fffffff :: u64) :: u32)"
  define hi where "hi = (if lo < ctx_lo ctx then ctx_hi ctx + 1 else ctx_hi ctx) + ucast (drop_bit 29 sz)"
  define used where "used = (ucast (ctx_lo ctx AND 0x3f) :: u64)"
  define ctx1 where "ctx1 = ctx\<lparr>ctx_lo := lo, ctx_hi := hi\<rparr>"
  note upd = MD5_Update_tail [OF lo_def hi_def used_def ctx1_def, of data]
  from inv obtain full part where buf: "length (ctx_buffer ctx) = 64"
    and l: "unat (ctx_lo ctx) = length msg mod 2 ^ 29" and h: "ctx_hi ctx = of_nat (length msg div 2 ^ 29)"
    and msg: "msg = full @ part" "64 dvd length full" "length part < 64"
    and regs: "ctx_regs ctx = md5_compress md5_iv full" and part: "take (length part) (ctx_buffer ctx) = part"
    by (auto simp: md5_inv_def)
  have lo': "unat lo = length (msg @ data) mod 2 ^ 29"
    unfolding lo_def using md5_lo_step [OF l] sz by simp
  have hi': "hi = of_nat (length (msg @ data) div 2 ^ 29)"
    unfolding hi_def using md5_hi_step [OF l h] lo' sz by simp
  have u: "unat used = length part" unfolding used_def by (rule md5_used(2) [OF l msg])
  have u0: "used = 0 \<longleftrightarrow> part = []" using u by (metis length_0_conv unat_eq_zero)
  have av: "unat (64 - used) = 64 - length part" using u msg(3) by (simp add: unat_sub word_le_nat_alt)
  note split = md5_inv_split [of ctx1 "msg @ data"] and tail = md5_tail_inv [of ctx1 "msg @ data"]
  have c1: "unat (ctx_lo ctx1) = length (msg @ data) mod 2 ^ 29" "ctx_hi ctx1 = of_nat (length (msg @ data) div 2 ^ 29)"
    using lo' hi' by (simp_all add: ctx1_def)
  show ?thesis
  proof (cases "used \<noteq> 0 \<and> sz < 64 - used")
    case True
    then have "length data < 64 - length part" using av sz by (simp add: word_less_nat_alt)
    then have lt: "length part + length data < 64" by linarith
    let ?b = "take (length part) (ctx_buffer ctx) @ data @ drop (length part + length data) (ctx_buffer ctx)"
    have "MD5_Update ctx data sz = Some (ctx1\<lparr>ctx_buffer := ?b\<rparr>)"
      using True lt u sz buf by (simp add: upd memcpy_def)
    moreover have "ctx1\<lparr>ctx_buffer := ?b\<rparr> = ctx1\<lparr>ctx_regs := md5_compress md5_iv full, ctx_buffer := ?b\<rparr>"
      using regs by (simp add: ctx1_def)
    moreover have "md5_inv \<dots> (msg @ data)"
      by (rule split [OF c1, of full "part @ data"]) (use msg lt buf part in auto)
    ultimately show ?thesis by simp
  next
    case nlt: False
    show ?thesis
    proof (cases "used = 0")
      case True
      then have "part = []" using u0 by simp
      have "ctx1 = ctx1\<lparr>ctx_buffer := ctx_buffer ctx, ctx_regs := md5_compress md5_iv full\<rparr>"
        using regs by (simp add: ctx1_def)
      with tail [OF c1, of full data "ctx_buffer ctx" sz] msg \<open>part = []\<close> buf sz True show ?thesis
        by (simp add: upd)
    next
      case False
      let ?n = "64 - length part"
      have ge: "?n \<le> length data" and s: "unat (sz - (64 - used)) = length data - ?n"
        using nlt False av sz by (simp_all add: word_less_nat_alt not_less unat_sub word_le_nat_alt)
      let ?b = "part @ take ?n data"
      have lb: "length ?b = 64" using ge msg(3) by simp
      have mc: "memcpy (ctx_buffer ctx) (unat used) data (unat (64 - used)) = Some ?b"
        using ge msg(3) buf u av part by (simp add: memcpy_def)
      have f: "md5_compress md5_iv (full @ ?b) = rfc_block (ctx_regs ctx) ?b"
        using md5_compress_append [OF msg(2), of md5_iv ?b] md5_compress_block [OF lb, of _ "[]"] regs by simp
      have "MD5_Update ctx data sz = md5_tail (ctx1\<lparr>ctx_buffer := ?b, ctx_regs := md5_compress md5_iv (full @ ?b)\<rparr>) 
          (drop ?n data) (sz - (64 - used))"
        using nlt False mc lb av f by (simp add: upd md5_body_buffer ctx1_def)
      moreover have "msg @ data = (full @ ?b) @ drop ?n data" using msg(1) by simp
      moreover have "64 dvd length (full @ ?b)" using msg(2) lb by simp
      ultimately show ?thesis using tail [OF c1, of "full @ ?b" "drop ?n data" ?b "sz - (64 - used)"] lb s by simp
    qed
  qed
qed

lemma md5_count:
  fixes lo hi :: u32
  assumes "unat lo = n mod 2 ^ 29" and "hi = of_nat (n div 2 ^ 29)"
  shows "push_bit 3 lo = of_nat (8 * n)" and "hi = of_nat (8 * n div 2 ^ 32)"
proof -
  have "8 * (x + 2 ^ 29 * y) = 8 * x + 2 ^ 32 * y" for x y :: nat by simp
  from this [of "n mod 2 ^ 29" "n div 2 ^ 29"]
  have "8 * n = 8 * (n mod 2 ^ 29) + 2 ^ 32 * (n div 2 ^ 29)" by (simp only: mod_mult_div_eq)
  then have "(of_nat (8 * n) :: u32) = of_nat (8 * (n mod 2 ^ 29)) + 2 ^ 32 * of_nat (n div 2 ^ 29)"
    by (metis of_nat_add of_nat_mult of_nat_numeral of_nat_power)
  also have "(2 ^ 32 :: u32) = 0" by simp
  finally have "(of_nat (8 * n) :: u32) = 8 * lo" using assms(1) by (metis add.right_neutral mult_zero_left of_nat_mult of_nat_numeral of_nat_unat ucast_id)
  then show "push_bit 3 lo = of_nat (8 * n)" by (simp add: push_bit_eq_mult ac_simps)
  have "8 * n div 2 ^ 32 = n div 2 ^ 29" using div_mult_mult1 [of 8 n "2 ^ 29"] by simp
  then show "hi = of_nat (8 * n div 2 ^ 32)" using assms(2) by simp
qed

lemma length_word_bytes [simp]: "length (word_bytes w) = 4"
  by (simp add: word_bytes_def)

lemma memcpy_append:
  "length pre = off \<Longrightarrow> n \<le> length suf \<Longrightarrow> n \<le> length src \<Longrightarrow>
   memcpy (pre @ suf) off src n = Some (pre @ take n src @ drop n suf)"
  by (simp add: memcpy_def)

text \<open>The padding in the buffer, when the count fits behind it and when it needs a block of its own.\<close>

lemma final_one_block:
  assumes p: "length part < 56" and buf: "length buf = 64" and cnt8: "length cnt8 = 8"
  shows "\<exists>b2. memzero (part @ 0x80 # drop (length part + 1) buf) (Suc (length part)) (55 - length part) = Some b2 \<and>
    memcpy b2 56 cnt8 8 = Some (part @ 0x80 # replicate ((119 - length part) mod 64) 0 @ cnt8) \<and>
    length (part @ 0x80 # replicate ((119 - length part) mod 64) 0 @ cnt8) = 64"
proof -
  let ?p = "length part"
  let ?b2 = "part @ 0x80 # replicate (55 - ?p) 0 @ drop 56 buf"
  have mz: "memzero (part @ 0x80 # drop (?p + 1) buf) (Suc ?p) (55 - ?p) = Some ?b2"
    using memcpy_append [of "part @ [0x80]" "Suc ?p" "55 - ?p" "drop (?p + 1) buf" "replicate (55 - ?p) 0"] p buf
    by (simp add: memzero_def)
  have "119 - ?p = (55 - ?p) + 64" using p by simp
  then have "(119 - ?p) mod 64 = ((55 - ?p) + 64) mod 64" by (rule arg_cong)
  also have "\<dots> = 55 - ?p" by simp
  finally have m: "(119 - ?p) mod 64 = 55 - ?p" .
  have "memcpy ?b2 56 cnt8 8 = Some (part @ 0x80 # replicate (55 - ?p) 0 @ cnt8)"
    using memcpy_append [of "part @ 0x80 # replicate (55 - ?p) 0" 56 8 "drop 56 buf" cnt8] p buf cnt8 by simp
  with mz show ?thesis using p cnt8 by (simp add: m)
qed

lemma final_two_blocks:
  assumes p: "\<not> length part < 56" "length part < 64" and buf: "length buf = 64" and cnt8: "length cnt8 = 8"
  shows "\<exists>b3. memzero (part @ 0x80 # drop (length part + 1) buf) (Suc (length part)) (63 - length part) =
        Some (part @ 0x80 # replicate (63 - length part) 0) \<and>
      memzero (part @ 0x80 # replicate (63 - length part) 0) 0 56 = Some b3 \<and> memcpy b3 56 cnt8 8 = Some (replicate 56 0 @ cnt8) \<and>
      length (part @ 0x80 # replicate (63 - length part) (0 :: u8)) = 64 \<and> length (replicate 56 (0 :: u8) @ cnt8) = 64 \<and>
      part @ 0x80 # replicate ((119 - length part) mod 64) 0 @ cnt8 = (part @ 0x80 # replicate (63 - length part) 0) @ replicate 56 0 @ cnt8"
proof -
  let ?p = "length part"
  let ?b2 = "part @ 0x80 # replicate (63 - ?p) (0 :: u8)"
  have mz: "memzero (part @ 0x80 # drop (?p + 1) buf) (Suc ?p) (63 - ?p) = Some ?b2"
    using p buf by (simp add: memzero_def memcpy_def)
  have len2: "length ?b2 = 64" using p(2) by simp
  have mz3: "memzero ?b2 0 56 = Some (replicate 56 0 @ drop 56 ?b2)" using len2 by (simp add: memzero_def memcpy_def)
  have mc: "memcpy (replicate 56 0 @ drop 56 ?b2) 56 cnt8 8 = Some (replicate 56 0 @ cnt8)"
    using memcpy_append [of "replicate 56 0" 56 8 "drop 56 ?b2" cnt8] len2 cnt8 by simp
  have "119 - ?p = (63 - ?p) + 56" "119 - ?p < 64" using p by simp_all
  then have "replicate ((119 - ?p) mod 64) (0 :: u8) = replicate (63 - ?p) 0 @ replicate 56 0"
    by (simp only: mod_less replicate_add)
  with mz mz3 mc len2 cnt8 show ?thesis by simp
qed

lemma MD5_Final_digest:
  assumes "md5_inv ctx msg"
  shows "MD5_Final ctx = Some (md5_digest msg)"
proof -
  from assms obtain full part where buf: "length (ctx_buffer ctx) = 64"
    and l: "unat (ctx_lo ctx) = length msg mod 2 ^ 29" and h: "ctx_hi ctx = of_nat (length msg div 2 ^ 29)"
    and msg: "msg = full @ part" "64 dvd length full" "length part < 64"
    and regs: "ctx_regs ctx = md5_compress md5_iv full" and part: "take (length part) (ctx_buffer ctx) = part"
    by (auto simp: md5_inv_def)
  have used: "unat (ctx_lo ctx AND 0x3f) = length part"
    by (rule md5_used(1) [OF l msg])
  define cnt8 where "cnt8 = word_bytes (of_nat (8 * length msg)) @ word_bytes (of_nat (8 * length msg div 2 ^ 32))"
  have cnt8: "length cnt8 = 8" by (simp add: cnt8_def)
  have cnt: "word_bytes (push_bit 3 (ctx_lo ctx)) @ word_bytes (ctx_hi ctx) = cnt8"
    unfolding cnt8_def md5_count(1) [OF l h] by (subst md5_count(2) [OF l h]) (rule refl)
  have lm: "length msg mod 64 = length part" using msg by (auto elim!: dvdE)
  define blks where "blks = part @ 0x80 # replicate ((119 - length part) mod 64) 0 @ cnt8"
  have "md5_pad msg = full @ blks" unfolding md5_pad_def lm blks_def cnt8_def by (subst msg(1)) (rule append_assoc)
  then have pad: "md5_compress md5_iv (md5_pad msg) = md5_compress (ctx_regs ctx) blks"
    using md5_compress_append [OF msg(2), of md5_iv blks] by (simp add: regs)
  let ?p = "length part"
  let ?b1 = "part @ 0x80 # drop (?p + 1) (ctx_buffer ctx)"
  have b1: "memcpy (ctx_buffer ctx) ?p [0x80] 1 = Some ?b1"
    using part buf msg(3) by (simp add: memcpy_def)
  show ?thesis
  proof (cases "?p < 56")
    case True
    then obtain b2 where b2: "memzero ?b1 (Suc ?p) (55 - ?p) = Some b2" "memcpy b2 56 cnt8 8 = Some blks" "length blks = 64"
      using final_one_block [OF True buf cnt8] by (auto simp: blks_def)
    have "\<not> 63 - ?p < 8" using True by linarith
    then show ?thesis
      using b2 b1 cnt pad md5_compress_block [OF b2(3), of _ "[]"]
      by (simp add: MD5_Final_def used md5_body_buffer md5_digest_def Let_def split: prod.splits)
  next
    case False
    let ?b2 = "part @ 0x80 # replicate (63 - ?p) 0" and ?b4 = "replicate 56 0 @ cnt8"
    obtain b3 where b: "memzero ?b1 (Suc ?p) (63 - ?p) = Some ?b2" "memzero ?b2 0 56 = Some b3" "memcpy b3 56 cnt8 8 = Some ?b4"
        "length ?b2 = 64" "length ?b4 = 64" "blks = ?b2 @ ?b4"
      using final_two_blocks [OF _ msg(3) buf cnt8] False by (auto simp: blks_def)
    have "md5_compress r blks = rfc_block (rfc_block r ?b2) ?b4" for r
      unfolding b(6) using md5_compress_block [OF b(4), of r ?b4] md5_compress_block [OF b(5), of _ "[]"] by simp
    moreover have "63 - ?p < 8" using False by linarith
    ultimately show ?thesis using b(1-5) b1 cnt pad
      by (simp add: MD5_Final_def used md5_body_buffer md5_digest_def Let_def split: prod.splits)
  qed
qed

subsection \<open>The digest does not depend on how the message is cut\<close>

lemma md5_updates_inv:
  assumes "md5_inv ctx msg" and "\<forall>d \<in> set ds. length d < 2 ^ 64"
  shows "\<exists>ctx'. md5_updates ctx ds = Some ctx' \<and> md5_inv ctx' (msg @ concat ds)"
  using assms
proof (induction ds arbitrary: ctx msg)
  case (Cons d ds)
  then have "unat (of_nat (length d) :: u64) = length d" by (simp add: unat_of_nat)
  from MD5_Update_inv [OF Cons.prems(1) this] obtain ctx1 where
    "MD5_Update ctx d (of_nat (length d)) = Some ctx1" "md5_inv ctx1 (msg @ d)" by blast
  with Cons.IH [of ctx1 "msg @ d"] Cons.prems(2) show ?case by simp
qed auto

lemma md5_stream_digest:
  assumes "length junk = 64" and "\<forall>d \<in> set ds. length d < 2 ^ 64"
  shows "Option.bind (md5_updates (MD5_Init junk) ds) MD5_Final = Some (md5_digest (concat ds))"
  using md5_updates_inv [OF md5_inv_Init [OF assms(1)] assms(2)] by (auto simp: MD5_Final_digest)

lemma strhash64_of_digest:
  assumes "length junk = 64" and "length str < 2 ^ 64"
  shows "strhash64_of junk str = Some (le64 (md5_digest (str_bytes str)))"
  using md5_stream_digest [OF assms(1), of "[str_bytes str]"] assms(2)
  by (cases "MD5_Update (MD5_Init junk) (str_bytes str) (of_nat (length str))")
     (auto simp: strhash64_of_def str_bytes_def)

lemma strhash64_digest:
  "length str < 2 ^ 64 \<Longrightarrow> strhash64 str = le64 (md5_digest (str_bytes str))"
  using strhash64_of_digest [of junk64 str] by (simp add: strhash64_def junk64_def)

subsection \<open>Properties\<close>



text \<open>The code's tables and round functions compute the test vectors of RFC 1321 for the empty message
  and for \<open>abc\<close>.\<close>

lemma md5_test_vectors:
  "Option.bind (MD5_Update (MD5_Init junk64) (str_bytes []) 0) MD5_Final =
     Some [0xd4, 0x1d, 0x8c, 0xd9, 0x8f, 0x00, 0xb2, 0x04, 0xe9, 0x80, 0x09, 0x98, 0xec, 0xf8, 0x42, 0x7e]
   \<and> Option.bind (MD5_Update (MD5_Init junk64) (str_bytes ''abc'') 3) MD5_Final =
     Some [0x90, 0x01, 0x50, 0x98, 0x3c, 0xd2, 0x4f, 0xb0, 0xd6, 0x96, 0x3f, 0x7d, 0x28, 0xe1, 0x7f, 0x72]"
  by (rule conjI; code_simp)

text \<open>The string hash that names the files of the store and orders the ring of followers is a function
  of the string alone, the first eight bytes of its MD5 digest: it does not depend on the uninitialised
  memory of the context, and it never runs into undefined behaviour.\<close>

lemma strhash64_deterministic:
  assumes "length junk = 64" and "length str < 2 ^ 64"
  shows "strhash64_of junk str = Some (strhash64 str) \<and> strhash64 str = le64 (md5_digest (str_bytes str))"
  using assms strhash64_of_digest strhash64_digest by simp

lemma strhash64_deterministic_witness:
  "strhash64_of (replicate 64 255) ''key'' = Some (strhash64 ''key'')"
  using strhash64_deterministic [of "replicate 64 255" "''key''"] by simp

end
