(* ===== verification/KV_Constants.thy ===== *)
theory KV_Constants
  imports MD5
begin

text \<open>
  The constants shared by the key-value servers, \<^verbatim>\<open>2PCKVStore/kvconstants.h\<close>: buffer sizes,
  messages, error codes, the message types of the wire protocol and the states of a transaction.
  The string hash \<^verbatim>\<open>strhash64\<close> of the same header is in the theory on MD5.
\<close>

definition MAX_KEYLEN :: nat where "MAX_KEYLEN = 1024"
definition MAX_VALLEN :: nat where "MAX_VALLEN = 1024"
definition KVRES_BODY_MAX_SIZE :: nat where "KVRES_BODY_MAX_SIZE = 40"
definition PATH_MAX_SIZE :: nat where "PATH_MAX_SIZE = 8"

definition HTTP_MSG_MAX_SIZE :: nat where
  "HTTP_MSG_MAX_SIZE = PATH_MAX_SIZE + MAX_KEYLEN + MAX_VALLEN + KVRES_BODY_MAX_SIZE + 20"

definition MAX_FILENAME :: nat where "MAX_FILENAME = 1024"

definition MSG_COMMIT :: string where "MSG_COMMIT = ''commit''"
definition ERRMSG_NO_KEY :: string where "ERRMSG_NO_KEY = ''error: no key''"
definition ERRMSG_KEY_LEN :: string where "ERRMSG_KEY_LEN = ''error: improper key length''"
definition ERRMSG_VAL_LEN :: string where "ERRMSG_VAL_LEN = ''error: value too long''"
definition ERRMSG_INVALID_REQUEST :: string where "ERRMSG_INVALID_REQUEST = ''error: invalid request''"
definition ERRMSG_NOT_IMPLEMENTED :: string where "ERRMSG_NOT_IMPLEMENTED = ''error: not implemented''"
definition ERRMSG_NOT_AT_CAPACITY :: string where
  "ERRMSG_NOT_AT_CAPACITY = ''error: follower_capacity not yet full''"
definition ERRMSG_FOLLOWER_CAPACITY :: string where
  "ERRMSG_FOLLOWER_CAPACITY = ''error: follower capacity already full''"
definition ERRMSG_GENERIC_ERROR :: string where
  "ERRMSG_GENERIC_ERROR = ''error: unable to process request''"

definition ERR_KEYLEN :: int where "ERR_KEYLEN = -11"
definition ERR_VALLEN :: int where "ERR_VALLEN = -12"
definition ERR_NOKEY :: int where "ERR_NOKEY = -13"
definition ERR_INVLDMSG :: int where "ERR_INVLDMSG = -14"
definition ERR_FILACCESS :: int where "ERR_FILACCESS = -17"

lemmas err_defs = ERR_KEYLEN_def ERR_VALLEN_def ERR_NOKEY_def ERR_INVLDMSG_def ERR_FILACCESS_def

lemmas size_defs = MAX_KEYLEN_def MAX_VALLEN_def KVRES_BODY_MAX_SIZE_def PATH_MAX_SIZE_def
  HTTP_MSG_MAX_SIZE_def MAX_FILENAME_def

lemmas msg_defs = MSG_COMMIT_def ERRMSG_NO_KEY_def ERRMSG_KEY_LEN_def ERRMSG_VAL_LEN_def
  ERRMSG_INVALID_REQUEST_def ERRMSG_NOT_IMPLEMENTED_def ERRMSG_NOT_AT_CAPACITY_def
  ERRMSG_FOLLOWER_CAPACITY_def ERRMSG_GENERIC_ERROR_def

definition GETMSG :: "int \<Rightarrow> string" where
  "GETMSG error =
     (if error = ERR_KEYLEN then ERRMSG_KEY_LEN
      else if error = ERR_VALLEN then ERRMSG_VAL_LEN
      else if error = ERR_NOKEY then ERRMSG_NO_KEY else ERRMSG_GENERIC_ERROR)"

definition COMMIT_PATH :: string where "COMMIT_PATH = MSG_COMMIT"
definition ABORT_PATH :: string where "ABORT_PATH = ''abort''"
definition REGISTER_PATH :: string where "REGISTER_PATH = ''register''"

datatype msgtype_t = INDEX | GETREQ | PUTREQ | DELREQ | REGISTER | COMMIT | ABORT
  | GETRESP | SUCCESS | ERROR | VOTE | ACK | EMPTY

datatype tpc_state_t = TPC_INIT | TPC_WAIT | TPC_READY | TPC_ABORT | TPC_COMMIT

definition is_empty_str :: "string \<Rightarrow> bool" where
  "is_empty_str str \<longleftrightarrow> str = []"

lemma GETMSG_length: "length (GETMSG e) \<le> KVRES_BODY_MAX_SIZE"
  by (simp add: GETMSG_def msg_defs size_defs)

lemma GETMSG_not_commit: "GETMSG e \<noteq> MSG_COMMIT"
  by (simp add: GETMSG_def msg_defs)

end
