(* ===== verification/Posix_Files.thy ===== *)
theory Posix_Files
  imports Prelude
begin

text \<open>
  The part of the POSIX file interface that the stores use: \<^verbatim>\<open>stat\<close>, \<^verbatim>\<open>mkdir\<close>, \<^verbatim>\<open>fopen\<close>/\<^verbatim>\<open>open\<close>,
  \<^verbatim>\<open>remove\<close> and \<^verbatim>\<open>rename\<close> on paths.  A file system is the set of its directories, the contents of
  its files, and the set of paths the process has no permission to change or read (\<open>denied\<close>), so that
  the failing branches of the callers are branches of the model.  Errors carry the error number.
\<close>

record fs =
  dirs :: "string \<Rightarrow> bool"
  files :: "string \<Rightarrow> char list option"
  denied :: "string \<Rightarrow> bool"

definition ENOENT :: int where "ENOENT = 2"
definition EACCES :: int where "EACCES = 13"
definition ENOTEMPTY :: int where "ENOTEMPTY = 39"

text \<open>The directory part of a path.\<close>

definition parent :: "string \<Rightarrow> string" where
  "parent p = rev (tl (dropWhile (\<lambda>c. c \<noteq> CHR ''/'') (rev p)))"

definition stat :: "fs \<Rightarrow> string \<Rightarrow> bool" where
  "stat fs p \<longleftrightarrow> dirs fs p \<or> files fs p \<noteq> None"

definition mkdir :: "fs \<Rightarrow> string \<Rightarrow> int + fs" where
  "mkdir fs p = (if denied fs p then Inl EACCES else Inr (fs\<lparr>dirs := (dirs fs)(p := True)\<rparr>))"

definition fopen_r :: "fs \<Rightarrow> string \<Rightarrow> char list option" where
  "fopen_r fs p = (if denied fs p then None else files fs p)"

definition can_create :: "fs \<Rightarrow> string \<Rightarrow> bool" where
  "can_create fs p \<longleftrightarrow> \<not> denied fs p \<and> \<not> dirs fs p \<and> dirs fs (parent p)"

definition write_file :: "fs \<Rightarrow> string \<Rightarrow> char list \<Rightarrow> fs" where
  "write_file fs p bs = fs\<lparr>files := (files fs)(p \<mapsto> bs)\<rparr>"

definition remove_path :: "fs \<Rightarrow> string \<Rightarrow> int + fs" where
  "remove_path fs p =
     (if denied fs p then Inl EACCES
      else if files fs p \<noteq> None then Inr (fs\<lparr>files := (files fs)(p := None)\<rparr>)
      else Inl ENOENT)"

text \<open>\<^verbatim>\<open>rmdir\<close> fails while the directory holds a file or a directory; \<^verbatim>\<open>remove\<close> is \<^verbatim>\<open>rmdir\<close> on a
  directory and \<^verbatim>\<open>unlink\<close> on anything else.\<close>

definition remove_dir :: "fs \<Rightarrow> string \<Rightarrow> int + fs" where
  "remove_dir fs p =
     (if denied fs p then Inl EACCES
      else if \<not> dirs fs p then Inl ENOENT
      else if \<exists>q. q \<noteq> p \<and> stat fs q \<and> parent q = p then Inl ENOTEMPTY
      else Inr (fs\<lparr>dirs := (dirs fs)(p := False)\<rparr>))"

definition remove :: "fs \<Rightarrow> string \<Rightarrow> int + fs" where
  "remove fs p = (if dirs fs p then remove_dir fs p else remove_path fs p)"

definition rename_path :: "fs \<Rightarrow> string \<Rightarrow> string \<Rightarrow> int + fs" where
  "rename_path fs p q =
     (if denied fs p \<or> denied fs q then Inl EACCES
      else case files fs p of
             None \<Rightarrow> Inl ENOENT
           | Some bs \<Rightarrow> Inr (fs\<lparr>files := (files fs)(p := None, q \<mapsto> bs)\<rparr>))"

lemma parent_file: "CHR ''/'' \<notin> set n \<Longrightarrow> parent (d @ CHR ''/'' # n) = d"
proof -
  assume "CHR ''/'' \<notin> set n"
  then have "dropWhile (\<lambda>c. c \<noteq> CHR ''/'') (rev n @ CHR ''/'' # rev d) = CHR ''/'' # rev d"
    by (subst dropWhile_append2) auto
  then show ?thesis by (simp add: parent_def)
qed

lemma write_file_simps [simp]:
  "dirs (write_file fs p bs) = dirs fs" "denied (write_file fs p bs) = denied fs"
  "files (write_file fs p bs) = (files fs)(p \<mapsto> bs)"
  by (simp_all add: write_file_def)

end
