(* ===== verification/KV_Store.thy ===== *)
theory KV_Store
  imports KV_Constants Posix_Files "HOL-Library.Multiset"
begin

text \<open>
  The persistent key-value store, \<^verbatim>\<open>2PCKVStore/kvstore.c\<close>.  An entry is a file named
  \<open>hash(key)-chainpos.entry\<close> in the store's directory; keys with the same hash form a chain of
  consecutive positions.  The loops over a chain stop at the first position without a file, so they
  run forever when every position exists: they are \<^theory_text>\<open>partial_function\<close>s into \<open>option\<close>.

  Every function takes the file system and returns the new one with its C return code.  The operations
  run one at a time, as in a server with one worker thread: \<^verbatim>\<open>kvstore_put\<close> and \<^verbatim>\<open>kvstore_del\<close> look the key
  up under the reader lock and change the chain under the writer lock, in two critical sections.  The
  theory shows that chains stay complete (no gap, no duplicate key) and that the store refines a finite
  map.
\<close>

subsection \<open>Entry files\<close>

record kvstore_t =
  kv_dirname :: string

definition KVSTORE_FILETYPE :: string where "KVSTORE_FILETYPE = ''.entry''"

definition entry_file :: "string \<Rightarrow> u64 \<Rightarrow> nat \<Rightarrow> string" where
  "entry_file d hashval counter =
     d @ ''/'' @ dec (unat hashval) @ ''-'' @ dec counter @ KVSTORE_FILETYPE"

text \<open>A \<^verbatim>\<open>kventry_t\<close> on disk: the \<open>int\<close> length in little-endian order, then the data.\<close>

definition entry_bytes :: "string \<times> string \<Rightarrow> char list" where
  "entry_bytes = (\<lambda>(key, val).
     le_bytes 4 (length key + length val + 2) @ key @ [NUL] @ val @ [NUL])"

text \<open>What \<^verbatim>\<open>find_entry\<close> reads of a file: the header, then \<open>length\<close> bytes.  A file that is too short leaves
  uninitialised memory in the buffer.\<close>

definition read_entry :: "char list \<Rightarrow> char list option" where
  "read_entry bs =
     (if length bs < 4 then None
      else let len = le_val (take 4 bs); data = drop 4 bs
           in if int len \<le> INT_MAX \<and> len \<le> length data then Some (take len data) else None)"

subsection \<open>The operations\<close>

definition kvstore_init :: "fs \<Rightarrow> string \<Rightarrow> int \<times> kvstore_t option \<times> fs" where
  "kvstore_init fs dirname =
     (if \<not> stat fs dirname then
        (case mkdir fs dirname of
           Inl errno \<Rightarrow> (errno, None, fs)
         | Inr fs \<Rightarrow> (0, Some \<lparr>kv_dirname = dirname\<rparr>, fs))
      else (0, Some \<lparr>kv_dirname = dirname\<rparr>, fs))"

partial_function (option) find_loop :: "fs \<Rightarrow> string \<Rightarrow> u64 \<Rightarrow> string \<Rightarrow> bool \<Rightarrow> 32 word \<Rightarrow>
    (int \<times> string option) option" where
  "find_loop fs d hashval key want counter =
     (if \<not> stat fs (entry_file d hashval (unat counter)) then Some (ERR_NOKEY, None)
      else case fopen_r fs (entry_file d hashval (unat counter)) of
             None \<Rightarrow> Some (ERR_FILACCESS, None)
           | Some bs \<Rightarrow> do {
               data \<leftarrow> read_entry bs;
               k \<leftarrow> cstr_at data 0;
               if key = k then
                 (if want then do { v \<leftarrow> cstr_at data (length k + 1); Some (sint counter, Some v) }
                  else Some (sint counter, None))
               else find_loop fs d hashval key want (counter + 1)
             })"

definition find_entry :: "fs \<Rightarrow> kvstore_t \<Rightarrow> string \<Rightarrow> bool \<Rightarrow> (int \<times> string option) option" where
  "find_entry fs store key want =
     (if length key > MAX_KEYLEN then Some (ERR_KEYLEN, None)
      else if \<not> stat fs (kv_dirname store) then Some (ERR_FILACCESS, None)
      else find_loop fs (kv_dirname store) (strhash64 key) key want 0)"

definition kvstore_haskey :: "fs \<Rightarrow> kvstore_t \<Rightarrow> string \<Rightarrow> bool option" where
  "kvstore_haskey fs store key = do { (ret, _) \<leftarrow> find_entry fs store key False; Some (ret \<ge> 0) }"

definition kvstore_get :: "fs \<Rightarrow> kvstore_t \<Rightarrow> string \<Rightarrow> (int \<times> string option) option" where
  "kvstore_get fs store key = do {
     (ret, v) \<leftarrow> find_entry fs store key True;
     Some (if ret < 0 then (ret, v) else (0, v))
   }"

definition kvstore_put_check :: "fs \<Rightarrow> kvstore_t \<Rightarrow> string \<Rightarrow> string \<Rightarrow> int" where
  "kvstore_put_check fs store key val =
     (if length key > MAX_KEYLEN then ERR_KEYLEN
      else if length val > MAX_VALLEN then ERR_VALLEN
      else if \<not> stat fs (kv_dirname store) then ERR_FILACCESS else 0)"

text \<open>The search for the end of a chain in \<^verbatim>\<open>kvstore_put\<close>, whose counter is a signed \<open>int\<close> that is
  incremented before the file is looked up; the result is the position of the free file.\<close>

partial_function (option) put_loop :: "fs \<Rightarrow> string \<Rightarrow> u64 \<Rightarrow> int \<Rightarrow> int option" where
  "put_loop fs d hashval counter = do {
     next \<leftarrow> c_int (counter + 1);
     if stat fs (entry_file d hashval (nat counter)) then put_loop fs d hashval next
     else Some counter
   }"

text \<open>The part of \<^verbatim>\<open>kvstore_put\<close> under the writer lock, from the result of the look-up.\<close>

definition put_locked :: "fs \<Rightarrow> kvstore_t \<Rightarrow> string \<Rightarrow> string \<Rightarrow> int \<Rightarrow> (int \<times> fs) option" where
  "put_locked fs store key val counter =
     (let hashval = strhash64 key; d = kv_dirname store
      in do {
        pos \<leftarrow> (if counter \<ge> 0 then Some counter else put_loop fs d hashval 0);
        let filename = entry_file d hashval (nat pos);
        if \<not> can_create fs filename then Some (ERR_FILACCESS, fs)
        else Some (0, write_file fs filename (entry_bytes (key, val)))
      })"

definition kvstore_put :: "fs \<Rightarrow> kvstore_t \<Rightarrow> string \<Rightarrow> string \<Rightarrow> (int \<times> fs) option" where
  "kvstore_put fs store key val =
     (let check = kvstore_put_check fs store key val
      in if check < 0 then Some (check, fs)
         else do {
           (counter, _) \<leftarrow> find_entry fs store key False;
           put_locked fs store key val counter
         })"

definition kvstore_del_check :: "fs \<Rightarrow> kvstore_t \<Rightarrow> string \<Rightarrow> int option" where
  "kvstore_del_check fs store key =
     (if length key > MAX_KEYLEN then Some ERR_KEYLEN
      else if \<not> stat fs (kv_dirname store) then Some ERR_FILACCESS
      else do { has \<leftarrow> kvstore_haskey fs store key; Some (if \<not> has then ERR_NOKEY else 0) })"

partial_function (option) del_loop :: "fs \<Rightarrow> string \<Rightarrow> u64 \<Rightarrow> 32 word \<Rightarrow> 32 word option" where
  "del_loop fs d hashval counter =
     (if stat fs (entry_file d hashval (unat counter)) then del_loop fs d hashval (counter + 1)
      else Some counter)"

text \<open>The part of \<^verbatim>\<open>kvstore_del\<close> under the writer lock.\<close>

definition del_locked :: "fs \<Rightarrow> kvstore_t \<Rightarrow> string \<Rightarrow> int \<Rightarrow> (int \<times> fs) option" where
  "del_locked fs store key chainpos = do {
     let hashval = strhash64 key;
     let d = kv_dirname store;
     let delfile = entry_file d hashval (nat chainpos);
     counter \<leftarrow> del_loop fs d hashval (word_of_int chainpos + 1);
     succ \<leftarrow> c_int (chainpos + 1);
     Some (if counter = word_of_int succ then
             (case remove fs delfile of
                Inl errno \<Rightarrow> (errno, fs) | Inr fs \<Rightarrow> (0, fs))
           else
             (case rename_path fs (entry_file d hashval (unat (counter - 1))) delfile of
                Inl errno \<Rightarrow> (errno, fs) | Inr fs \<Rightarrow> (0, fs)))
   }"

definition kvstore_del :: "fs \<Rightarrow> kvstore_t \<Rightarrow> string \<Rightarrow> (int \<times> fs) option" where
  "kvstore_del fs store key = do {
     (chainpos, _) \<leftarrow> find_entry fs store key False;
     if chainpos < 0 then Some (chainpos, fs) else del_locked fs store key chainpos
   }"

text \<open>\<^verbatim>\<open>kvstore_clean\<close> removes what \<^verbatim>\<open>readdir\<close> lists, ignoring failures, and then the directory.  The list
  of names, in the order the system returns them, is an argument.\<close>

fun clean_loop :: "fs \<Rightarrow> string \<Rightarrow> string list \<Rightarrow> fs" where
  "clean_loop fs d [] = fs"
| "clean_loop fs d (name # names) =
     clean_loop (case remove fs (d @ ''/'' @ name) of Inl _ \<Rightarrow> fs | Inr fs \<Rightarrow> fs) d names"

definition kvstore_clean :: "fs \<Rightarrow> kvstore_t \<Rightarrow> string list \<Rightarrow> int \<times> fs" where
  "kvstore_clean fs store names =
     (if \<not> dirs fs (kv_dirname store) then (0, fs)
      else let fs = clean_loop fs (kv_dirname store) names
           in (0, case remove fs (kv_dirname store) of Inl _ \<Rightarrow> fs | Inr fs \<Rightarrow> fs))"

subsection \<open>Representation\<close>

text \<open>The chains on disk: position \<open>c\<close> of the chain of hash \<open>h\<close> is the file \<open>h-c.entry\<close>, chains have no gap,
  and every key is in the chain of its hash.  In a proper store no chain holds a key twice.\<close>

type_synonym chains = "u64 \<Rightarrow> (string \<times> string) list"

definition kv_ok :: "string \<times> string \<Rightarrow> bool" where
  "kv_ok = (\<lambda>(k, v). cstring k \<and> cstring v \<and> length k \<le> MAX_KEYLEN \<and> length v \<le> MAX_VALLEN)"

definition nth_opt :: "'a list \<Rightarrow> nat \<Rightarrow> 'a option" where
  "nth_opt xs i = (if i < length xs then Some (xs ! i) else None)"

definition kv_layout :: "fs \<Rightarrow> string \<Rightarrow> chains \<Rightarrow> bool" where
  "kv_layout fs d ch \<longleftrightarrow> dirs fs d \<and>
     (\<forall>h c. files fs (entry_file d h c) = map_option entry_bytes (nth_opt (ch h) c)) \<and>
     (\<forall>h c. \<not> dirs fs (entry_file d h c) \<and> \<not> denied fs (entry_file d h c)) \<and>
     (\<forall>h. int (length (ch h)) \<le> INT_MAX \<and> (\<forall>kv \<in> set (ch h). kv_ok kv \<and> strhash64 (fst kv) = h))"

definition kv_chains :: "fs \<Rightarrow> string \<Rightarrow> chains \<Rightarrow> bool" where
  "kv_chains fs d ch \<longleftrightarrow> kv_layout fs d ch \<and> (\<forall>h. distinct (map fst (ch h)))"

lemma kv_chains_layout: "kv_chains fs d ch \<Longrightarrow> kv_layout fs d ch"
  by (simp add: kv_chains_def)

definition kv_map :: "chains \<Rightarrow> string \<Rightarrow> string option" where
  "kv_map ch k = map_of (ch (strhash64 k)) k"

definition kv_rep :: "fs \<Rightarrow> kvstore_t \<Rightarrow> (string \<Rightarrow> string option) \<Rightarrow> bool" where
  "kv_rep fs store m \<longleftrightarrow> (\<exists>ch. kv_chains fs (kv_dirname store) ch \<and> m = kv_map ch)"

definition kv_pos :: "(string \<times> string) list \<Rightarrow> string \<Rightarrow> nat" where
  "kv_pos xs k = length (takeWhile (\<lambda>kv. fst kv \<noteq> k) xs)"

lemma entry_file_inject [simp]: "entry_file d h c = entry_file d h' c' \<longleftrightarrow> h = h' \<and> c = c'"
proof
  assume "entry_file d h c = entry_file d h' c'"
  then have eq: "dec (unat h) @ CHR ''-'' # dec c @ KVSTORE_FILETYPE = dec (unat h') @ CHR ''-'' # dec c' @ KVSTORE_FILETYPE"
    by (simp add: entry_file_def)
  have "unat h = unat h' \<and> dec c @ KVSTORE_FILETYPE = dec c' @ KVSTORE_FILETYPE"
    using eq by (rule dec_sep_inject) (simp add: is_digit_def)
  then show "h = h' \<and> c = c'" by (simp add: word_unat_eq_iff)
qed simp

lemma parent_entry_file [simp]: "parent (entry_file d h c) = d"
proof -
  have "CHR ''/'' \<notin> set (dec n)" for n using dec_is_digit digit_not(3) by blast
  then have "CHR ''/'' \<notin> set (dec (unat h) @ ''-'' @ dec c @ KVSTORE_FILETYPE)"
    by (auto simp: KVSTORE_FILETYPE_def)
  from parent_file [OF this] show ?thesis by (simp add: entry_file_def)
qed


lemma read_entry_bytes:
  "kv_ok (k, v) \<Longrightarrow> read_entry (entry_bytes (k, v)) = Some (k @ NUL # v @ [NUL])"
proof -
  assume "kv_ok (k, v)"
  then have "length k + length v + 2 < 256 ^ 4" by (simp add: kv_ok_def size_defs)
  from le_val_le_bytes [OF this] show ?thesis
    using \<open>kv_ok (k, v)\<close>
    by (simp add: read_entry_def entry_bytes_def Let_def kv_ok_def size_defs INT_MAX_def)
qed

lemma sint_of_nat: "int c \<le> INT_MAX \<Longrightarrow> sint (of_nat c :: 32 word) = int c"
  by (simp add: INT_MAX_def signed_of_nat signed_take_bit_int_eq_self)

lemma unat_of_nat32: "int c \<le> INT_MAX + 1 \<Longrightarrow> unat (of_nat c :: 32 word) = c"
  by (simp add: INT_MAX_def unat_of_nat)

lemma kv_layout_file:
  "kv_layout fs d ch \<Longrightarrow> stat fs (entry_file d h c) \<longleftrightarrow> c < length (ch h)"
  "kv_layout fs d ch \<Longrightarrow> c < length (ch h) \<Longrightarrow> fopen_r fs (entry_file d h c) = Some (entry_bytes (ch h ! c))"
  by (auto simp: kv_layout_def stat_def fopen_r_def nth_opt_def)

lemma kv_layout_ok:
  "kv_layout fs d ch \<Longrightarrow> c < length (ch h) \<Longrightarrow> kv_ok (ch h ! c) \<and> strhash64 (fst (ch h ! c)) = h"
  using nth_mem [of c "ch h"] unfolding kv_layout_def by blast

lemma kv_layout_len: "kv_layout fs d ch \<Longrightarrow> int (length (ch h)) \<le> INT_MAX"
  by (simp add: kv_layout_def)

definition find_res :: "(string \<times> string) list \<Rightarrow> string \<Rightarrow> bool \<Rightarrow> nat \<Rightarrow> int \<times> string option" where
  "find_res xs key want c = (case map_of (drop c xs) key of
      None \<Rightarrow> (ERR_NOKEY, None)
    | Some v \<Rightarrow> (int (c + kv_pos (drop c xs) key), if want then Some v else None))"

lemma find_loop_chain:
  assumes ch: "kv_layout fs d ch"
  shows "c \<le> length (ch h) \<Longrightarrow> find_loop fs d h key want (of_nat c) = Some (find_res (ch h) key want c)"
proof (induction "length (ch h) - c" arbitrary: c)
  case 0
  then have "c = length (ch h)" by simp
  then show ?case
    using kv_layout_len [OF ch, of h]
    by (subst find_loop.simps) (simp add: unat_of_nat32 kv_layout_file(1) [OF ch] find_res_def)
next
  case (Suc n)
  then have c: "c < length (ch h)" and le: "int c \<le> INT_MAX" using kv_layout_len [OF ch, of h] by simp_all
  obtain k v where kv: "ch h ! c = (k, v)" by (cases "ch h ! c")
  have ok: "kv_ok (k, v)" using kv_layout_ok [OF ch c] kv by simp
  then have cs: "cstring k" "cstring v" by (simp_all add: kv_ok_def)
  have at2: "cstr_at (k @ NUL # v @ [NUL]) (Suc (length k)) = Some v"
    using cstr_at_second [OF cs(2), of k "[]"] by simp
  have dr: "drop c (ch h) = (k, v) # drop (Suc c) (ch h)" using c kv by (metis Cons_nth_drop_Suc)
  have IH: "find_loop fs d h key want (of_nat (Suc c)) = Some (find_res (ch h) key want (Suc c))"
    by (rule Suc(1)) (use Suc(2) c in simp_all)
  show ?case
    using c le IH ok cs dr at2
    by (subst find_loop.simps)
      (auto simp: unat_of_nat32 kv_layout_file [OF ch] kv read_entry_bytes str_simps find_res_def kv_pos_def
         sint_of_nat add.commute split: option.splits)
qed

lemma find_entry_chain:
  assumes "kv_layout fs (kv_dirname store) ch" and "length key \<le> MAX_KEYLEN"
  shows "find_entry fs store key want = Some (find_res (ch (strhash64 key)) key want 0)"
  using assms find_loop_chain [OF assms(1), of 0 "strhash64 key" key want]
  by (auto simp: find_entry_def kv_layout_def stat_def)


lemma kv_pos_less: "map_of xs k = Some v \<Longrightarrow> kv_pos xs k < length xs \<and> xs ! kv_pos xs k = (k, v)"
proof (induction xs)
  case (Cons x xs)
  then show ?case by (cases x) (auto simp: kv_pos_def)
qed simp

text \<open>Lookup after an update in place, an append, and the swap of the last entry into a hole.\<close>

lemma map_of_upd_pos:
  "map_of xs k = Some w \<Longrightarrow> map_of (xs[kv_pos xs k := (k, v)]) = (map_of xs)(k \<mapsto> v)"
proof (induction xs)
  case (Cons x xs)
  then show ?case by (cases x) (auto simp: kv_pos_def fun_eq_iff)
qed simp

lemma map_of_snoc: "map_of xs k = None \<Longrightarrow> map_of (xs @ [(k, v)]) = (map_of xs)(k \<mapsto> v)"
  by (auto simp: fun_eq_iff map_add_def split: option.splits)

definition kv_remove :: "(string \<times> string) list \<Rightarrow> nat \<Rightarrow> (string \<times> string) list" where
  "kv_remove xs i = (if Suc i = length xs then butlast xs else (butlast xs)[i := last xs])"

lemma kv_remove_mset: "i < length xs \<Longrightarrow> mset (kv_remove xs i) + {#xs ! i#} = mset xs"
proof -
  assume i: "i < length xs"
  then have xs: "xs = butlast xs @ [last xs]" by (metis append_butlast_last_id list.size(3) not_less0)
  have mx: "mset xs = add_mset (last xs) (mset (butlast xs))" using arg_cong [OF xs, of mset] by simp
  show ?thesis
  proof (cases "Suc i = length xs")
    case True
    then have "xs ! i = last xs" by (metis diff_Suc_1 i last_conv_nth length_0_conv not_less0)
    with True mx show ?thesis by (simp add: kv_remove_def)
  next
    case False
    with i have b: "i < length (butlast xs)" by simp
    then have nth: "butlast xs ! i = xs ! i" by (simp add: nth_butlast)
    have "mset ((butlast xs)[i := last xs]) = add_mset (last xs) (mset (butlast xs) - {#xs ! i#})"
      using mset_update [OF b, of "last xs"] nth by simp
    moreover have "xs ! i \<in># mset (butlast xs)" using b nth by (metis nth_mem set_mset_mset)
    ultimately show ?thesis using False mx by (simp add: kv_remove_def)
  qed
qed

lemma kv_remove_subset: "i < length xs \<Longrightarrow> set (kv_remove xs i) \<subseteq> set xs"
  using arg_cong [OF kv_remove_mset, of i xs set_mset] by auto

lemma kv_remove_set:
  assumes "distinct (map fst xs)" and "i < length xs"
  shows "set (kv_remove xs i) = set xs - {xs ! i} \<and> distinct (map fst (kv_remove xs i))"
proof -
  have m: "mset xs = add_mset (xs ! i) (mset (kv_remove xs i))"
    using kv_remove_mset [OF assms(2)] by simp
  then have "mset (map fst xs) = mset (map fst (xs ! i # kv_remove xs i))" by simp
  then have d: "distinct (map fst (xs ! i # kv_remove xs i))"
    using assms(1) mset_eq_imp_distinct_iff by blast
  then have "xs ! i \<notin> set (kv_remove xs i)" by (metis distinct.simps(2) distinct_map list.simps(9))
  moreover have "set xs = insert (xs ! i) (set (kv_remove xs i))"
    using arg_cong [OF m, of set_mset] by simp
  ultimately show ?thesis using d by auto
qed

lemma map_of_remove:
  assumes "distinct (map fst xs)" and "map_of xs k = Some v"
  shows "map_of (kv_remove xs (kv_pos xs k)) = (map_of xs)(k := None)"
proof
  fix k'
  let ?ys = "kv_remove xs (kv_pos xs k)"
  have i: "kv_pos xs k < length xs" "xs ! kv_pos xs k = (k, v)" using kv_pos_less [OF assms(2)] by auto
  have s: "set ?ys = set xs - {(k, v)}" and d: "distinct (map fst ?ys)"
    using kv_remove_set [OF assms(1) i(1)] i(2) by auto
  have "(k', w) \<in> set xs - {(k, v)} \<longleftrightarrow> k' \<noteq> k \<and> (k', w) \<in> set xs" for w
    using assms(2) map_of_is_SomeI [OF assms(1)] by fastforce
  then have "map_of ?ys k' = Some w \<longleftrightarrow> ((map_of xs)(k := None)) k' = Some w" for w
    using map_of_eq_Some_iff [OF d, of k' w] map_of_eq_Some_iff [OF assms(1), of k' w] s by simp
  then show "map_of ?ys k' = ((map_of xs)(k := None)) k'" by (metis option.exhaust)
qed

lemma put_loop_chain:
  assumes ch: "kv_layout fs d ch" and room: "int (length (ch h)) < INT_MAX"
  shows "c \<le> length (ch h) \<Longrightarrow> put_loop fs d h (int c) = Some (int (length (ch h)))"
proof (induction "length (ch h) - c" arbitrary: c)
  case 0
  then show ?case using room
    by (subst put_loop.simps) (simp add: kv_layout_file(1) [OF ch] c_int_Some INT_MAX_def)
next
  case (Suc n)
  then have "put_loop fs d h (int (Suc c)) = Some (int (length (ch h)))" by (intro Suc(1)) simp_all
  moreover have "c < length (ch h)" using Suc(2) by simp
  ultimately show ?case using room
    by (subst put_loop.simps) (simp add: kv_layout_file(1) [OF ch] c_int_Some INT_MAX_def add.commute)
qed

lemma del_loop_chain:
  assumes ch: "kv_layout fs d ch"
  shows "c \<le> length (ch h) \<Longrightarrow> del_loop fs d h (of_nat c) = Some (of_nat (length (ch h)))"
proof (induction "length (ch h) - c" arbitrary: c)
  case 0
  then show ?case using kv_layout_len [OF ch, of h]
    by (subst del_loop.simps) (simp add: unat_of_nat32 kv_layout_file(1) [OF ch])
next
  case (Suc n)
  then have "del_loop fs d h (of_nat (Suc c)) = Some (of_nat (length (ch h)))" by (intro Suc(1)) simp_all
  moreover have "c < length (ch h)" using Suc(2) by simp
  ultimately show ?case using kv_layout_len [OF ch, of h]
    by (subst del_loop.simps) (simp add: unat_of_nat32 kv_layout_file(1) [OF ch] add.commute)
qed

text \<open>A change of one chain and its files keeps the others.\<close>

lemma kv_layout_update:
  assumes ch: "kv_layout fs d ch" and fs': "dirs fs' = dirs fs" "denied fs' = denied fs"
    and same: "\<And>h' c. h' \<noteq> h \<Longrightarrow> files fs' (entry_file d h' c) = files fs (entry_file d h' c)"
    and new: "\<And>c. files fs' (entry_file d h c) = map_option entry_bytes (nth_opt xs c)"
    and xs: "int (length xs) \<le> INT_MAX"
      "\<And>kv. kv \<in> set xs \<Longrightarrow> kv_ok kv \<and> strhash64 (fst kv) = h"
  shows "kv_layout fs' d (ch(h := xs))"
  using assms unfolding kv_layout_def by simp

lemma kv_map_update:
  assumes "map_of xs = (map_of (ch (strhash64 k)))(k := r)"
  shows "kv_map (ch(strhash64 k := xs)) = (kv_map ch)(k := r)"
  using assms by (auto simp: kv_map_def fun_eq_iff)

abbreviation key_ok :: "string \<Rightarrow> bool" where
  "key_ok k \<equiv> cstring k \<and> length k \<le> MAX_KEYLEN"

abbreviation val_ok :: "string \<Rightarrow> bool" where
  "val_ok v \<equiv> cstring v \<and> length v \<le> MAX_VALLEN"

lemma kv_rep_finite: "kv_rep fs store m \<Longrightarrow> finite (dom m)"
proof -
  assume "kv_rep fs store m"
  then obtain ch where m: "m = kv_map ch" by (auto simp: kv_rep_def)
  have "dom m \<subseteq> (\<Union>h. fst ` set (ch h))"
    unfolding m kv_map_def dom_def by (force dest!: map_of_SomeD)
  moreover have "finite (\<Union>h :: u64. fst ` set (ch h))" by simp
  ultimately show ?thesis by (rule finite_subset)
qed

lemma kv_chain_card:
  assumes ch: "kv_chains fs d ch"
  shows "length (ch h) \<le> card (dom (kv_map ch))"
proof -
  have c: "distinct (map fst (ch h))" "\<And>kv. kv \<in> set (ch h) \<Longrightarrow> strhash64 (fst kv) = h"
    using ch by (auto simp: kv_chains_def kv_layout_def)
  have sub: "set (map fst (ch h)) \<subseteq> dom (kv_map ch)"
    using c by (auto simp: kv_map_def dom_def)
  have "finite (dom (kv_map ch))"
    using ch kv_rep_finite [of fs "\<lparr>kv_dirname = d\<rparr>"] by (auto simp: kv_rep_def)
  from card_mono [OF this sub] show ?thesis using distinct_card [OF c(1)] by simp
qed

lemma kvstore_get_rep:
  assumes "kv_rep fs store m" and "key_ok k"
  shows "kvstore_get fs store k = Some (case m k of None \<Rightarrow> (ERR_NOKEY, None) | Some v \<Rightarrow> (0, Some v))"
proof -
  obtain ch where ch: "kv_chains fs (kv_dirname store) ch" "m = kv_map ch"
    using assms(1) by (auto simp: kv_rep_def)
  from find_entry_chain [OF kv_chains_layout [OF ch(1)], of k True] assms(2) show ?thesis
    by (auto simp: kvstore_get_def find_res_def ch(2) kv_map_def err_defs split: option.splits)
qed

lemma kvstore_haskey_rep:
  assumes "kv_rep fs store m" and "key_ok k"
  shows "kvstore_haskey fs store k = Some (k \<in> dom m)"
proof -
  obtain ch where ch: "kv_chains fs (kv_dirname store) ch" "m = kv_map ch"
    using assms(1) by (auto simp: kv_rep_def)
  from find_entry_chain [OF kv_chains_layout [OF ch(1)], of k False] assms(2) show ?thesis
    by (auto simp: kvstore_haskey_def find_res_def ch(2) kv_map_def err_defs split: option.splits)
qed

lemma kvstore_put_layout:
  assumes ch: "kv_layout fs d ch" and kv: "kv_ok (k, v)" and i: "i \<le> length (ch (strhash64 k))"
    and xs: "xs = (if i < length (ch (strhash64 k)) then (ch (strhash64 k))[i := (k, v)]
                   else ch (strhash64 k) @ [(k, v)])"
    and len: "int (length xs) \<le> INT_MAX"
  shows "can_create fs (entry_file d (strhash64 k) i)"
    and "kv_layout (write_file fs (entry_file d (strhash64 k) i) (entry_bytes (k, v))) d
           (ch(strhash64 k := xs))"
proof -
  show "can_create fs (entry_file d (strhash64 k) i)" using ch by (simp add: can_create_def kv_layout_def)
  have old: "files fs (entry_file d h c) = map_option entry_bytes (nth_opt (ch h) c)" for h c
    using ch by (simp add: kv_layout_def)
  have ok: "kv' \<in> set (ch (strhash64 k)) \<Longrightarrow> kv_ok kv' \<and> strhash64 (fst kv') = strhash64 k" for kv'
    using ch by (simp add: kv_layout_def)
  have "kv' \<in> set xs \<Longrightarrow> kv_ok kv' \<and> strhash64 (fst kv') = strhash64 k" for kv'
    using ok [of kv'] kv by (auto simp: xs split: if_splits dest!: set_mp [OF set_update_subset_insert])
  moreover have "files (write_file fs (entry_file d (strhash64 k) i) (entry_bytes (k, v))) (entry_file d (strhash64 k) c)
      = map_option entry_bytes (nth_opt xs c)" for c
    using i old by (auto simp: xs nth_opt_def nth_append less_Suc_eq simp del: split_paired_Ex)
  ultimately show "kv_layout (write_file fs (entry_file d (strhash64 k) i) (entry_bytes (k, v))) d
           (ch(strhash64 k := xs))"
    by (intro kv_layout_update [OF ch]) (use len in simp_all)
qed

lemma kv_chains_upd:
  "kv_chains fs d ch \<Longrightarrow> kv_layout fs' d (ch(h := xs)) \<Longrightarrow> distinct (map fst xs) \<Longrightarrow> kv_chains fs' d (ch(h := xs))"
  by (simp add: kv_chains_def)

text \<open>The locked part of an insertion, started with the position the look-up finds.\<close>

lemma put_locked_chain:
  assumes ch: "kv_chains fs (kv_dirname store) ch" and k: "key_ok k" and v: "val_ok v"
    and len: "int (length (ch (strhash64 k))) < INT_MAX" and c: "c = fst (find_res (ch (strhash64 k)) k False 0)"
  shows "\<exists>fs' xs. put_locked fs store k v c = Some (0, fs') \<and> kv_chains fs' (kv_dirname store) (ch(strhash64 k := xs)) \<and>
    map_of xs = (map_of (ch (strhash64 k)))(k \<mapsto> v)"
proof -
  let ?h = "strhash64 k" and ?d = "kv_dirname store"
  let ?xs = "ch ?h"
  have kv: "kv_ok (k, v)" using k v by (simp add: kv_ok_def)
  have dist: "distinct (map fst ?xs)" and lay: "kv_layout fs ?d ch" using ch by (auto simp: kv_chains_def)
  show ?thesis
  proof (cases "map_of ?xs k")
    case None
    have d': "distinct (map fst (?xs @ [(k, v)]))" using dist None by (simp add: map_of_eq_None_iff)
    have pl: "put_loop fs ?d ?h 0 = Some (int (length ?xs))" using put_loop_chain [OF lay len, of 0] by simp
    note w = kvstore_put_layout [OF lay kv order_refl, of "?xs @ [(k, v)]"]
    from w len have w: "can_create fs (entry_file ?d ?h (length ?xs))"
      "kv_chains (write_file fs (entry_file ?d ?h (length ?xs)) (entry_bytes (k, v))) ?d (ch(?h := ?xs @ [(k, v)]))"
      using kv_chains_upd [OF ch _ d'] by auto
    then have "put_locked fs store k v c = Some (0, write_file fs (entry_file ?d ?h (length ?xs)) (entry_bytes (k, v)))"
      using pl None c by (simp add: put_locked_def find_res_def err_defs Let_def)
    with w(2) map_of_snoc [OF None, of v] show ?thesis by blast
  next
    case (Some w)
    then have i: "kv_pos ?xs k < length ?xs" "?xs ! kv_pos ?xs k = (k, w)" using kv_pos_less by auto
    have "map fst (?xs[kv_pos ?xs k := (k, v)]) = map fst ?xs"
      using i by (metis fst_conv list_update_id map_update)
    then have d': "distinct (map fst (?xs[kv_pos ?xs k := (k, v)]))" using dist by simp
    note w = kvstore_put_layout [OF lay kv order.strict_implies_order [OF i(1)], of "?xs[kv_pos ?xs k := (k, v)]"]
    from w len i(1) have w: "can_create fs (entry_file ?d ?h (kv_pos ?xs k))"
      "kv_chains (write_file fs (entry_file ?d ?h (kv_pos ?xs k)) (entry_bytes (k, v))) ?d
         (ch(?h := ?xs[kv_pos ?xs k := (k, v)]))"
      using kv_chains_upd [OF ch _ d'] by auto
    then have "put_locked fs store k v c = Some (0, write_file fs (entry_file ?d ?h (kv_pos ?xs k)) (entry_bytes (k, v)))"
      using Some c by (simp add: put_locked_def find_res_def Let_def)
    with w(2) map_of_upd_pos [OF Some, of v] show ?thesis by blast
  qed
qed

lemma kvstore_put_check_ok: "kv_layout fs (kv_dirname store) ch \<Longrightarrow> key_ok k \<Longrightarrow> val_ok v \<Longrightarrow> kvstore_put_check fs store k v = 0"
  by (simp add: kvstore_put_check_def kv_layout_def stat_def)

lemma kvstore_put_rep:
  assumes rep: "kv_rep fs store m" and k: "key_ok k" and v: "val_ok v" and room: "card (dom m) < nat INT_MAX"
  shows "\<exists>fs'. kvstore_put fs store k v = Some (0, fs') \<and> kv_rep fs' store (m(k \<mapsto> v))"
proof -
  obtain ch where ch: "kv_chains fs (kv_dirname store) ch" and m: "m = kv_map ch" using rep by (auto simp: kv_rep_def)
  have len: "int (length (ch (strhash64 k))) < INT_MAX"
    using kv_chain_card [OF ch, of "strhash64 k"] room by (auto simp: m INT_MAX_def)
  obtain fs' xs where w: "put_locked fs store k v (fst (find_res (ch (strhash64 k)) k False 0)) = Some (0, fs')"
      "kv_chains fs' (kv_dirname store) (ch(strhash64 k := xs))" "map_of xs = (map_of (ch (strhash64 k)))(k \<mapsto> v)"
    using put_locked_chain [OF ch k v len refl] by blast
  have "kvstore_put fs store k v = Some (0, fs')"
    using w(1) kvstore_put_check_ok [OF kv_chains_layout [OF ch] k v] find_entry_chain [OF kv_chains_layout [OF ch], of k False] k
    by (simp add: kvstore_put_def split_beta)
  moreover have "kv_rep fs' store (m(k \<mapsto> v))" using w(2) kv_map_update [of xs ch k "Some v"] w(3) m by (auto simp: kv_rep_def)
  ultimately show ?thesis by blast
qed

lemma kvstore_del_layout:
  assumes ch: "kv_layout fs d ch" and i: "i < length (ch h)" and n: "n = length (ch h)"
  shows "kv_layout (if Suc i = n then fs\<lparr>files := (files fs)(entry_file d h i := None)\<rparr>
      else fs\<lparr>files := (files fs)(entry_file d h (n - 1) := None, entry_file d h i \<mapsto> entry_bytes (ch h ! (n - 1)))\<rparr>)
     d (ch(h := kv_remove (ch h) i))"
proof -
  let ?fs = "(if Suc i = n then fs\<lparr>files := (files fs)(entry_file d h i := None)\<rparr>
      else fs\<lparr>files := (files fs)(entry_file d h (n - 1) := None, entry_file d h i \<mapsto> entry_bytes (ch h ! (n - 1)))\<rparr>)"
  have old: "files fs (entry_file d h c) = map_option entry_bytes (nth_opt (ch h) c)" for h c
    using ch by (simp add: kv_layout_def)
  have ok: "\<And>kv. kv \<in> set (ch h) \<Longrightarrow> kv_ok kv \<and> strhash64 (fst kv) = h"
    using ch by (auto simp: kv_layout_def)
  have l: "last (ch h) = ch h ! (n - 1)" using i n by (metis last_conv_nth length_0_conv not_less0)
  have "files ?fs (entry_file d h c) = map_option entry_bytes (nth_opt (kv_remove (ch h) i) c)" for c
    using i n l less_SucI [of c "n - 1"] by (cases "Suc i = n"; cases "c < n - 1"; cases "c = i"; cases "c = n - 1")
      (simp_all add: old nth_opt_def kv_remove_def nth_butlast del: map_option_eq_Some split_paired_Ex)
  moreover have "int (length (kv_remove (ch h) i)) \<le> INT_MAX"
    using kv_layout_len [OF ch, of h] by (simp add: kv_remove_def) linarith
  ultimately show ?thesis
    using kv_remove_subset [OF i] ok by (intro kv_layout_update [OF ch]) auto
qed

text \<open>The locked part of a deletion of an entry of a chain, also of one that holds a key twice.\<close>

lemma del_locked_layout:
  assumes lay: "kv_layout fs (kv_dirname store) ch" and i: "i < length (ch (strhash64 k))"
  shows "\<exists>fs'. del_locked fs store k (int i) = Some (0, fs') \<and>
    kv_layout fs' (kv_dirname store) (ch(strhash64 k := kv_remove (ch (strhash64 k)) i))"
proof -
  let ?h = "strhash64 k" and ?d = "kv_dirname store"
  let ?xs = "ch ?h"
  let ?n = "length ?xs"
  have len: "int ?n \<le> INT_MAX" using kv_layout_len [OF lay] .
  have dl: "del_loop fs ?d ?h (word_of_int (int i) + 1) = Some (of_nat ?n)"
    using del_loop_chain [OF lay, of "Suc i" ?h] i by (simp add: add.commute)
  have eq1: "of_nat i + 1 = (of_nat (Suc i) :: 32 word)" by (simp add: add.commute)
  have eq: "(of_nat ?n :: 32 word) = of_nat i + 1 \<longleftrightarrow> Suc i = ?n"
    using i len unat_of_nat32 [of "?n"] unat_of_nat32 [of "Suc i"] by (auto simp: eq1 word_unat_eq_iff add.commute)
  have pred: "unat (of_nat ?n - 1 :: 32 word) = ?n - 1"
    using i len unat_of_nat32 [of "?n - 1"] by (cases ?n) auto
  have files: "files fs (entry_file ?d ?h c) = (if c < ?n then Some (entry_bytes (?xs ! c)) else None)"
    and nd: "\<not> denied fs (entry_file ?d ?h c)" "\<not> dirs fs (entry_file ?d ?h c)" for c
    using lay by (auto simp: kv_layout_def nth_opt_def)
  show ?thesis using kvstore_del_layout [OF lay i refl] dl i len
    by (auto simp: del_locked_def eq pred files nd remove_def remove_path_def rename_path_def c_int_Some INT_MAX_def Let_def)
qed

lemma del_locked_chain:
  assumes ch: "kv_chains fs (kv_dirname store) ch" and k: "map_of (ch (strhash64 k)) k = Some v"
    and c: "c = fst (find_res (ch (strhash64 k)) k False 0)"
  shows "\<exists>fs' xs. del_locked fs store k c = Some (0, fs') \<and> kv_chains fs' (kv_dirname store) (ch(strhash64 k := xs)) \<and>
    map_of xs = (map_of (ch (strhash64 k)))(k := None)"
proof -
  let ?xs = "ch (strhash64 k)"
  have i: "kv_pos ?xs k < length ?xs" using kv_pos_less [OF k] by simp
  have dist: "distinct (map fst ?xs)" using ch by (simp add: kv_chains_def)
  have "c = int (kv_pos ?xs k)" using c k by (simp add: find_res_def)
  then show ?thesis
    using del_locked_layout [OF kv_chains_layout [OF ch] i] kv_chains_upd [OF ch _ conjunct2 [OF kv_remove_set [OF dist i]]]
      map_of_remove [OF dist k] by blast
qed

lemma kvstore_del_rep:
  assumes rep: "kv_rep fs store m" and k: "key_ok k"
  shows "\<exists>fs'. kvstore_del fs store k = Some (if m k = None then ERR_NOKEY else 0, fs') \<and>
           kv_rep fs' store (m(k := None))"
proof -
  let ?h = "strhash64 k"
  obtain ch where ch: "kv_chains fs (kv_dirname store) ch" and m: "m = kv_map ch" using rep by (auto simp: kv_rep_def)
  have fe: "find_entry fs store k False = Some (find_res (ch ?h) k False 0)"
    using find_entry_chain [OF kv_chains_layout [OF ch]] k by simp
  show ?thesis
  proof (cases "map_of (ch ?h) k")
    case None
    then have "m(k := None) = m" by (auto simp: m kv_map_def)
    with fe None rep show ?thesis by (auto simp: kvstore_del_def find_res_def err_defs m kv_map_def)
  next
    case (Some v)
    from del_locked_chain [OF ch Some refl] obtain fs' xs where
      w: "del_locked fs store k (fst (find_res (ch ?h) k False 0)) = Some (0, fs')" "kv_chains fs' (kv_dirname store) (ch(?h := xs))"
        "map_of xs = (map_of (ch ?h))(k := None)" by blast
    have "kv_rep fs' store (m(k := None))" using w(2) kv_map_update [of xs ch k None] w(3) m by (auto simp: kv_rep_def)
    with w(1) fe Some show ?thesis by (auto simp: kvstore_del_def find_res_def m kv_map_def)
  qed
qed


subsection \<open>The interface of a store and its clients\<close>

datatype ('k, 'v) store_op = Get 'k | Put 'k 'v | Del 'k

text \<open>A run of operations: the return code and, for a lookup, the value of each of them.\<close>

fun store_run :: "('s \<Rightarrow> 'k \<Rightarrow> (int \<times> 'v option) option) \<Rightarrow> ('s \<Rightarrow> 'k \<Rightarrow> 'v \<Rightarrow> (int \<times> 's) option) \<Rightarrow>
    ('s \<Rightarrow> 'k \<Rightarrow> (int \<times> 's) option) \<Rightarrow> 's \<Rightarrow> ('k, 'v) store_op list \<Rightarrow>
    ((int \<times> 'v option) list \<times> 's) option" where
  "store_run get put del s [] = Some ([], s)"
| "store_run get put del s (Get k # xs) = do {
     r \<leftarrow> get s k; (rs, s) \<leftarrow> store_run get put del s xs; Some (r # rs, s) }"
| "store_run get put del s (Put k v # xs) = do {
     (c, s) \<leftarrow> put s k v; (rs, s) \<leftarrow> store_run get put del s xs; Some ((c, None) # rs, s) }"
| "store_run get put del s (Del k # xs) = do {
     (c, s) \<leftarrow> del s k; (rs, s) \<leftarrow> store_run get put del s xs; Some ((c, None) # rs, s) }"

text \<open>The same operations on a finite map; \<open>e\<close> is the code for a missing key.\<close>

fun map_run :: "int \<Rightarrow> ('k \<rightharpoonup> 'v) \<Rightarrow> ('k, 'v) store_op list \<Rightarrow> (int \<times> 'v option) list \<times> ('k \<rightharpoonup> 'v)" where
  "map_run e m [] = ([], m)"
| "map_run e m (Get k # xs) =
     (let (rs, m') = map_run e m xs
      in ((case m k of None \<Rightarrow> (e, None) | Some v \<Rightarrow> (0, Some v)) # rs, m'))"
| "map_run e m (Put k v # xs) = (let (rs, m') = map_run e (m(k \<mapsto> v)) xs in ((0, None) # rs, m'))"
| "map_run e m (Del k # xs) =
     (let (rs, m') = map_run e (m(k := None)) xs
      in ((if m k = None then e else 0, None) # rs, m'))"

fun op_ok :: "('k \<Rightarrow> bool) \<Rightarrow> ('v \<Rightarrow> bool) \<Rightarrow> ('k, 'v) store_op \<Rightarrow> bool" where
  "op_ok okk okv (Get k) = okk k"
| "op_ok okk okv (Put k v) = (okk k \<and> okv v)"
| "op_ok okk okv (Del k) = okk k"

locale map_store =
  fixes get :: "'s \<Rightarrow> 'k \<Rightarrow> (int \<times> 'v option) option"
    and put :: "'s \<Rightarrow> 'k \<Rightarrow> 'v \<Rightarrow> (int \<times> 's) option"
    and del :: "'s \<Rightarrow> 'k \<Rightarrow> (int \<times> 's) option"
    and rep :: "'s \<Rightarrow> ('k \<rightharpoonup> 'v) \<Rightarrow> bool"
    and okk :: "'k \<Rightarrow> bool" and okv :: "'v \<Rightarrow> bool" and cap :: nat and nokey :: int
  assumes rep_finite: "rep s m \<Longrightarrow> finite (dom m)"
    and get_rep: "rep s m \<Longrightarrow> okk k \<Longrightarrow>
      get s k = Some (case m k of None \<Rightarrow> (nokey, None) | Some v \<Rightarrow> (0, Some v))"
    and put_rep: "rep s m \<Longrightarrow> okk k \<Longrightarrow> okv v \<Longrightarrow> card (dom m) < cap \<Longrightarrow>
      \<exists>s'. put s k v = Some (0, s') \<and> rep s' (m(k \<mapsto> v))"
    and del_rep: "rep s m \<Longrightarrow> okk k \<Longrightarrow>
      \<exists>s'. del s k = Some (if m k = None then nokey else 0, s') \<and> rep s' (m(k := None))"
begin

lemma card_put: "rep s m \<Longrightarrow> card (dom (m(k \<mapsto> v))) \<le> Suc (card (dom m))"
  by (simp add: rep_finite card_insert_if)

lemma card_del: "rep s m \<Longrightarrow> card (dom (m(k := None))) \<le> card (dom m)"
  by (simp add: rep_finite card_mono)

text \<open>A store answers a run of operations as a map does, whatever their order.\<close>

lemma run_refines:
  assumes "rep s m" and "card (dom m) + length xs \<le> cap" and "list_all (op_ok okk okv) xs"
  shows "\<exists>s'. store_run get put del s xs = Some (fst (map_run nokey m xs), s') \<and>
           rep s' (snd (map_run nokey m xs))"
  using assms
proof (induction xs arbitrary: s m)
  case (Cons x xs)
  show ?case
  proof (cases x)
    case (Get k)
    then show ?thesis using Cons.IH [of s m] Cons.prems get_rep [of s m k]
      by (auto simp: split_beta Let_def)
  next
    case (Put k v)
    then obtain s' where s': "put s k v = Some (0, s')" "rep s' (m(k \<mapsto> v))"
      using put_rep [of s m k v] Cons.prems by auto
    have "card (dom (m(k \<mapsto> v))) + length xs \<le> cap"
      using card_put [OF Cons.prems(1), of k v] Cons.prems(2) by simp
    from Cons.IH [OF s'(2) this] Cons.prems(3) s' Put show ?thesis
      by (auto simp: split_beta Let_def simp del: fun_upd_apply)
  next
    case (Del k)
    then obtain s' where s': "del s k = Some (if m k = None then nokey else 0, s')" "rep s' (m(k := None))"
      using del_rep [of s m k] Cons.prems by auto
    have "card (dom (m(k := None))) + length xs \<le> cap"
      using card_del [OF Cons.prems(1), of k] Cons.prems(2) by simp
    from Cons.IH [OF s'(2) this] Cons.prems(3) s' Del show ?thesis
      by (auto simp: split_beta Let_def simp del: fun_upd_apply)
  qed
qed simp

end

interpretation kvs: map_store "\<lambda>fs. kvstore_get fs store" "\<lambda>fs. kvstore_put fs store"
  "\<lambda>fs. kvstore_del fs store" "\<lambda>fs. kv_rep fs store" key_ok val_ok "nat INT_MAX" ERR_NOKEY for store
  using kv_rep_finite kvstore_get_rep kvstore_put_rep kvstore_del_rep by unfold_locales blast+

subsection \<open>Errors, buffers and initialisation\<close>

lemma kvstore_key_too_long:
  assumes "length k > MAX_KEYLEN"
  shows "kvstore_get fs store k = Some (ERR_KEYLEN, None)"
    and "kvstore_put fs store k v = Some (ERR_KEYLEN, fs)"
    and "kvstore_del fs store k = Some (ERR_KEYLEN, fs)"
  using assms
  by (simp_all add: kvstore_get_def kvstore_put_def kvstore_del_def find_entry_def kvstore_put_check_def
      err_defs Let_def)

lemma kvstore_val_too_long:
  assumes "length k \<le> MAX_KEYLEN" and "length v > MAX_VALLEN"
  shows "kvstore_put fs store k v = Some (ERR_VALLEN, fs)"
  using assms by (simp add: kvstore_put_def kvstore_put_check_def err_defs Let_def)

text \<open>The directory name leaves 39 bytes for the rest of a file name and its terminator.\<close>

lemma entry_file_fits:
  assumes "length d + 39 \<le> MAX_FILENAME" and "c < 2 ^ 32"
  shows "length (entry_file d h c) < MAX_FILENAME"
proof -
  have "unat h < 2 ^ 64" using unsigned_less [of h] by simp
  then have "length (dec (unat h)) \<le> 20" by (intro length_dec) auto
  moreover have "length (dec c) \<le> 10" using assms(2) by (intro length_dec) auto
  ultimately show ?thesis using assms(1) by (simp add: entry_file_def KVSTORE_FILETYPE_def)
qed

text \<open>A store opened on a path that does not exist yet, in a place where the process may create files, is
  empty.\<close>

lemma kvstore_init_fresh:
  assumes "\<not> stat fs d" and "\<not> denied fs d"
    and "\<And>h c. \<not> stat fs (entry_file d h c) \<and> \<not> denied fs (entry_file d h c)"
  shows "\<exists>fs'. kvstore_init fs d = (0, Some \<lparr>kv_dirname = d\<rparr>, fs') \<and>
           kv_rep fs' \<lparr>kv_dirname = d\<rparr> Map.empty"
proof -
  have "d \<noteq> entry_file d h c" for h c by (simp add: entry_file_def)
  moreover have "Map.empty = kv_map (\<lambda>h. [])" by (simp add: kv_map_def fun_eq_iff)
  moreover have "kv_chains (fs\<lparr>dirs := (dirs fs)(d := True)\<rparr>) d (\<lambda>h. [])"
    using assms(3) by (auto simp: kv_chains_def kv_layout_def nth_opt_def stat_def INT_MAX_def entry_file_def)
  ultimately show ?thesis using assms(1,2) by (auto simp: kvstore_init_def mkdir_def kv_rep_def)
qed


text \<open>\<^verbatim>\<open>kvstore_clean\<close>: once \<^verbatim>\<open>readdir\<close> has listed every name, nothing of the store is left.\<close>

lemma clean_loop_files:
  assumes "\<And>p. parent p = d \<Longrightarrow> \<not> dirs fs p \<and> \<not> denied fs p"
    and "\<And>name. name \<in> set names \<Longrightarrow> CHR ''/'' \<notin> set name"
  shows "clean_loop fs d names = fs\<lparr>files := (\<lambda>p. if p \<in> (\<lambda>name. d @ ''/'' @ name) ` set names then None else files fs p)\<rparr>"
  using assms
proof (induction names arbitrary: fs)
  case (Cons name names)
  have p: "parent (d @ CHR ''/'' # name) = d" using Cons.prems(2) by (simp add: parent_file)
  have "(case remove fs (d @ ''/'' @ name) of Inl _ \<Rightarrow> fs | Inr fs \<Rightarrow> fs) =
      fs\<lparr>files := (files fs)(d @ ''/'' @ name := None)\<rparr>"
    using Cons.prems(1) [OF p] by (auto simp: remove_def remove_path_def fun_upd_idem)
  then show ?case
    using Cons.IH [of "fs\<lparr>files := (files fs)(d @ ''/'' @ name := None)\<rparr>"] Cons.prems
    by (auto simp: fun_eq_iff)
qed simp

lemma kvstore_clean_empty:
  assumes d: "dirs fs d" "\<not> denied fs d" "parent d \<noteq> d"
    and "\<And>p. parent p = d \<Longrightarrow> \<not> dirs fs p \<and> \<not> denied fs p"
    and "\<And>name. name \<in> set names \<Longrightarrow> CHR ''/'' \<notin> set name"
    and all: "\<And>p. files fs p \<noteq> None \<Longrightarrow> parent p = d \<Longrightarrow> p \<in> (\<lambda>name. d @ ''/'' @ name) ` set names"
  shows "\<exists>fs'. kvstore_clean fs \<lparr>kv_dirname = d\<rparr> names = (0, fs') \<and> \<not> dirs fs' d \<and>
           (\<forall>p. parent p = d \<longrightarrow> \<not> stat fs' p) \<and>
           (\<forall>p. parent p \<noteq> d \<longrightarrow> files fs' p = files fs p)"
proof -
  let ?fs = "fs\<lparr>files := (\<lambda>p. if p \<in> (\<lambda>name. d @ ''/'' @ name) ` set names then None else files fs p)\<rparr>"
  have cl: "clean_loop fs d names = ?fs" using assms(4,5) by (rule clean_loop_files)
  have none: "parent p = d \<Longrightarrow> \<not> stat ?fs p" for p using all [of p] assms(4) [of p]
    by (cases "files fs p") (auto simp: stat_def)
  then have "remove ?fs d = Inr (?fs\<lparr>dirs := (dirs fs)(d := False)\<rparr>)"
    using d by (auto simp: remove_def remove_dir_def)
  moreover have "parent p \<noteq> d \<Longrightarrow> files ?fs p = files fs p" for p
    using assms(5) by (auto simp: parent_file)
  ultimately show ?thesis using d none by (auto simp: kvstore_clean_def cl stat_def)
qed

subsection \<open>Properties\<close>

text \<open>C4: a store that represents a map answers every sequence of lookups, insertions and deletions of keys
  and values within the length limits as the map does, return codes included, and represents the
  resulting map afterwards, hash collisions included; every call terminates and reads no uninitialised
  memory.\<close>

theorem kvstore_refines_map:
  assumes "kv_rep fs store m" and "card (dom m) + length xs \<le> nat INT_MAX" and "list_all (op_ok key_ok val_ok) xs"
  shows "\<exists>fs'. store_run (\<lambda>fs. kvstore_get fs store) (\<lambda>fs. kvstore_put fs store) (\<lambda>fs. kvstore_del fs store) fs xs
             = Some (fst (map_run ERR_NOKEY m xs), fs') \<and>
           kv_rep fs' store (snd (map_run ERR_NOKEY m xs))"
  using assms by (rule kvs.run_refines)

definition sample_fs :: fs where
  "sample_fs = \<lparr>dirs = (\<lambda>p. p = ''d''), files = Map.empty, denied = (\<lambda>_. False)\<rparr>"

definition sample_store :: kvstore_t where
  "sample_store = \<lparr>kv_dirname = ''d''\<rparr>"

lemma sample_rep: "kv_rep sample_fs sample_store Map.empty"
proof -
  have "kv_chains sample_fs ''d'' (\<lambda>h. [])"
    by (auto simp: kv_chains_def kv_layout_def sample_fs_def nth_opt_def entry_file_def INT_MAX_def)
  moreover have "Map.empty = kv_map (\<lambda>h. [])" by (simp add: kv_map_def fun_eq_iff)
  ultimately show ?thesis by (auto simp: kv_rep_def sample_store_def)
qed

theorem kvstore_refines_map_witness:
  "\<exists>fs'. store_run (\<lambda>fs. kvstore_get fs sample_store) (\<lambda>fs. kvstore_put fs sample_store)
       (\<lambda>fs. kvstore_del fs sample_store) sample_fs
       [Put ''a'' ''1'', Put ''b'' ''2'', Put ''a'' ''3'', Del ''b'', Get ''a'', Get ''b'', Del ''b''] =
     Some ([(0, None), (0, None), (0, None), (0, None), (0, Some ''3''), (ERR_NOKEY, None), (ERR_NOKEY, None)], fs')
     \<and> kv_rep fs' sample_store [''a'' \<mapsto> ''3'']"
  using kvstore_refines_map [OF sample_rep,
      of "[Put ''a'' ''1'', Put ''b'' ''2'', Put ''a'' ''3'', Del ''b'', Get ''a'', Get ''b'', Del ''b'']"]
  by (simp add: INT_MAX_def size_defs fun_upd_twist fun_upd_idem del: store_run.simps)

text \<open>An operation on a key longer than the limit, or an insertion of a value longer than the limit,
  returns the error for it and leaves the file system as it is.\<close>

lemma kvstore_length_errors:
  assumes "length k > MAX_KEYLEN \<or> length v > MAX_VALLEN"
  shows "kvstore_put fs store k v = Some (if length k > MAX_KEYLEN then ERR_KEYLEN else ERR_VALLEN, fs) \<and>
    (length k > MAX_KEYLEN \<longrightarrow> kvstore_get fs store k = Some (ERR_KEYLEN, None) \<and>
       kvstore_del fs store k = Some (ERR_KEYLEN, fs))"
  using assms kvstore_key_too_long [of k] kvstore_val_too_long [of k v] by auto

lemma kvstore_length_errors_witness:
  "kvstore_put sample_fs sample_store ''k'' (replicate 1025 CHR ''v'') = Some (ERR_VALLEN, sample_fs)"
  using kvstore_length_errors [of "''k''" "replicate 1025 CHR ''v''" sample_fs sample_store]
  by (simp add: size_defs)

text \<open>When the directory name leaves 39 bytes of \<^verbatim>\<open>MAX_FILENAME\<close>, every entry file name that the store
  prints, for any hash and any 32-bit chain position, fits its buffer with its terminator.\<close>

lemma kvstore_filename_fits:
  assumes "length d + 39 \<le> MAX_FILENAME" and "c < 2 ^ 32"
  shows "length (entry_file d h c) < MAX_FILENAME"
  using assms by (rule entry_file_fits)

lemma kvstore_filename_fits_witness:
  "length (entry_file (replicate 985 CHR ''d'') (-1) (2 ^ 32 - 1)) < MAX_FILENAME"
  using kvstore_filename_fits [of "replicate 985 CHR ''d''" "2 ^ 32 - 1" "-1"] by (simp add: size_defs)

text \<open>\<^verbatim>\<open>kvstore_clean\<close>, when \<^verbatim>\<open>readdir\<close> lists every file, leaves no file of the store and no directory, and
  touches no file outside it.\<close>

lemma kvstore_clean_removes:
  assumes "dirs fs d" "\<not> denied fs d" "parent d \<noteq> d"
    and "\<And>p. parent p = d \<Longrightarrow> \<not> dirs fs p \<and> \<not> denied fs p"
    and "\<And>name. name \<in> set names \<Longrightarrow> CHR ''/'' \<notin> set name"
    and "\<And>p. files fs p \<noteq> None \<Longrightarrow> parent p = d \<Longrightarrow> p \<in> (\<lambda>name. d @ ''/'' @ name) ` set names"
  shows "\<exists>fs'. kvstore_clean fs \<lparr>kv_dirname = d\<rparr> names = (0, fs') \<and> \<not> dirs fs' d \<and>
           (\<forall>p. parent p = d \<longrightarrow> \<not> stat fs' p) \<and> (\<forall>p. parent p \<noteq> d \<longrightarrow> files fs' p = files fs p)"
  using assms by (rule kvstore_clean_empty)

lemma kvstore_clean_removes_witness:
  "\<exists>fs'. kvstore_clean (write_file sample_fs ''d/x'' []) \<lparr>kv_dirname = ''d''\<rparr> [''.'', ''x'', ''..''] = (0, fs') \<and>
     \<not> dirs fs' ''d'' \<and> \<not> stat fs' ''d/x''"
proof -
  have "parent ''d'' = []" "parent ''d/x'' = ''d''" by (simp_all add: parent_def)
  then show ?thesis
    using kvstore_clean_removes [of "write_file sample_fs ''d/x'' []" "''d''" "[''.'', ''x'', ''..'']"]
    by (fastforce simp: sample_fs_def split: if_splits)
qed

end
