(* ===== verification/TPC_Log.thy ===== *)
theory TPC_Log
  imports KV_Store
begin

text \<open>
  The log of two-phase commit actions, \<^verbatim>\<open>2PCKVStore/tpclog.c\<close>.  Entry \<open>n\<close> of the log is the file
  \<open>n.log\<close> of the log's directory; the follower keeps its log in the directory of its store.  An entry
  is the \<^verbatim>\<open>logentry_t\<close> as it lies in memory: type, length, the key and the value with their
  terminators, and the unused rest of the \<^verbatim>\<open>malloc\<close>ed block (an argument of the model, since it is
  uninitialised).

  The theory shows that a log keeps its entries in the order of receipt through any number of restarts,
  and that it does not disturb a store in the same directory.
\<close>

subsection \<open>Entries and files\<close>

fun msgtype_code :: "msgtype_t \<Rightarrow> nat" where
  "msgtype_code INDEX = 0" | "msgtype_code GETREQ = 1" | "msgtype_code PUTREQ = 2"
| "msgtype_code DELREQ = 3" | "msgtype_code REGISTER = 4" | "msgtype_code COMMIT = 5"
| "msgtype_code ABORT = 6" | "msgtype_code GETRESP = 7" | "msgtype_code SUCCESS = 8"
| "msgtype_code ERROR = 9" | "msgtype_code VOTE = 10" | "msgtype_code ACK = 11"
| "msgtype_code EMPTY = 12"

definition TPCLOG_FILETYPE :: string where "TPCLOG_FILETYPE = ''.log''"
definition MAX_LOGENTRY :: nat where "MAX_LOGENTRY = MAX_KEYLEN + MAX_VALLEN + 2"

record tpclog_t =
  log_dirname :: string
  nextid :: u64
  iterpos :: u64

record logentry_t =
  log_type :: nat
  log_length :: nat
  log_data :: "char list"

text \<open>The size of \<^verbatim>\<open>logentry_t\<close>: two 4-byte fields and the data, padded to a multiple of 4.\<close>

definition sizeof_logentry :: nat where "sizeof_logentry = 2060"

definition log_file :: "string \<Rightarrow> u64 \<Rightarrow> string" where
  "log_file d n = d @ ''/'' @ dec (unat n) @ TPCLOG_FILETYPE"

subsection \<open>The operations\<close>

partial_function (option) init_loop :: "fs \<Rightarrow> string \<Rightarrow> u64 \<Rightarrow> u64 option" where
  "init_loop fs d next_id =
     (if stat fs (log_file d next_id) then init_loop fs d (next_id + 1) else Some (next_id + 1))"

definition tpclog_init :: "fs \<Rightarrow> string \<Rightarrow> (int \<times> tpclog_t option \<times> fs) option" where
  "tpclog_init fs dirname =
     (case (if \<not> stat fs dirname then mkdir fs dirname else Inr fs) of
        Inl errno \<Rightarrow> Some (errno, None, fs)
      | Inr fs \<Rightarrow> do {
          next_id \<leftarrow> init_loop fs dirname 0;
          Some (0, Some \<lparr>log_dirname = dirname, nextid = next_id - 1, iterpos = 0\<rparr>, fs)
        })"

text \<open>\<^verbatim>\<open>tpclog_init\<close> leaves \<open>iterpos\<close> unset (it is 0 above, and every iteration sets it first).
  \<^verbatim>\<open>write\<close> to a file opened without \<open>O_TRUNC\<close> replaces the front of what the file holds.\<close>

definition write_front :: "fs \<Rightarrow> string \<Rightarrow> char list \<Rightarrow> fs" where
  "write_front fs p bs = write_file fs p
     (bs @ (case files fs p of None \<Rightarrow> [] | Some old \<Rightarrow> drop (length bs) old))"

definition tpclog_log :: "fs \<Rightarrow> tpclog_t \<Rightarrow> msgtype_t \<Rightarrow> string option \<Rightarrow> string option \<Rightarrow> char list \<Rightarrow>
    (int \<times> tpclog_t \<times> fs) option" where
  "tpclog_log fs log type key val junk =
     (if type \<noteq> PUTREQ \<and> type \<noteq> DELREQ \<and> type \<noteq> ABORT \<and> type \<noteq> COMMIT then Some (ERR_INVLDMSG, log, fs)
      else
        let filename = log_file (log_dirname log) (nextid log)
        in if \<not> can_create fs filename then Some (ERR_FILACCESS, log, fs)
           else do {
             let log = log\<lparr>nextid := nextid log + 1\<rparr>;
             key \<leftarrow> (if type = PUTREQ \<or> type = DELREQ then map_option (\<lambda>k. k @ [NUL]) key else Some []);
             val \<leftarrow> (if type = PUTREQ then map_option (\<lambda>v. v @ [NUL]) val else Some []);
             let len = length key + length val;
             let entry = le_bytes 4 (msgtype_code type) @ le_bytes 4 len @ key @ val @
                         take (sizeof_logentry - 8) junk;
             Some (0, log, write_front fs filename entry)
           })"

text \<open>\<open>Some (0, Some e)\<close> loads an entry.  \<^verbatim>\<open>read\<close> puts what the file holds, up to the computed size, into a
  \<^verbatim>\<open>logentry_t\<close>: more than its size is a buffer overflow, a negative length an impossible size.\<close>

definition tpclog_load_entry :: "fs \<Rightarrow> string \<Rightarrow> (int \<times> logentry_t option) option" where
  "tpclog_load_entry fs filename =
     (case fopen_r fs filename of
        None \<Rightarrow> Some (ERR_FILACCESS, None)
      | Some bs \<Rightarrow>
          let header = sizeof_logentry - MAX_LOGENTRY
          in if length bs < header then Some (ERR_FILACCESS, None)
             else let len = le_val (take 4 (drop 4 bs)); sz = len + header
                  in if int len > INT_MAX \<or> min sz (length bs) > sizeof_logentry then None
                     else if length bs < sz then Some (ERR_FILACCESS, None)
                     else Some (0, Some \<lparr>log_type = le_val (take 4 bs), log_length = len,
                                         log_data = take len (drop 8 bs)\<rparr>))"

definition tpclog_iterate_begin :: "tpclog_t \<Rightarrow> tpclog_t" where
  "tpclog_iterate_begin log = log\<lparr>iterpos := 0\<rparr>"

definition tpclog_iterate_has_next :: "fs \<Rightarrow> tpclog_t \<Rightarrow> bool" where
  "tpclog_iterate_has_next fs log = stat fs (log_file (log_dirname log) (iterpos log))"

definition tpclog_iterate_next :: "fs \<Rightarrow> tpclog_t \<Rightarrow> (logentry_t option \<times> tpclog_t) option" where
  "tpclog_iterate_next fs log =
     (if \<not> tpclog_iterate_has_next fs log then Some (None, log)
      else do {
        let filename = log_file (log_dirname log) (iterpos log);
        let log = log\<lparr>iterpos := iterpos log + 1\<rparr>;
        (ret, entry) \<leftarrow> tpclog_load_entry fs filename;
        Some (if ret < 0 then None else entry, log)
      })"

partial_function (option) clear_loop :: "fs \<Rightarrow> string \<Rightarrow> u64 \<Rightarrow> (int \<times> fs) option" where
  "clear_loop fs d pos =
     (if stat fs (log_file d pos) then
        (case remove fs (log_file d pos) of
           Inl errno \<Rightarrow> Some (errno, fs)
         | Inr fs \<Rightarrow> clear_loop fs d (pos + 1))
      else Some (0, fs))"

definition tpclog_clear_log :: "fs \<Rightarrow> tpclog_t \<Rightarrow> (int \<times> tpclog_t \<times> fs) option" where
  "tpclog_clear_log fs log = do {
     (ret, fs) \<leftarrow> clear_loop fs (log_dirname log) 0;
     Some (ret, if ret = 0 then log\<lparr>nextid := 0\<rparr> else log, fs)
   }"

text \<open>The loop of a reader of the log, as the interface prescribes it: begin, then next until there is no
  more entry.\<close>

partial_function (option) read_loop :: "fs \<Rightarrow> tpclog_t \<Rightarrow> logentry_t list \<Rightarrow> logentry_t list option" where
  "read_loop fs log acc =
     (if tpclog_iterate_has_next fs log then do {
        (e, log) \<leftarrow> tpclog_iterate_next fs log;
        (case e of None \<Rightarrow> Some (rev acc) | Some e \<Rightarrow> read_loop fs log (e # acc))
      }
      else Some (rev acc))"

definition read_log :: "fs \<Rightarrow> tpclog_t \<Rightarrow> logentry_t list option" where
  "read_log fs log = read_loop fs (tpclog_iterate_begin log) []"

subsection \<open>Representation\<close>

type_synonym logrec = "msgtype_t \<times> char list"

text \<open>The data of an entry and its image in a file: header, data, and at least the two bytes that the header
  read of \<^verbatim>\<open>tpclog_load_entry\<close> takes in excess.\<close>

definition log_payload :: "msgtype_t \<Rightarrow> string \<Rightarrow> string \<Rightarrow> char list" where
  "log_payload t k v = (if t = PUTREQ then k @ [NUL] @ v @ [NUL] else if t = DELREQ then k @ [NUL] else [])"

definition log_image :: "logrec \<Rightarrow> char list \<Rightarrow> bool" where
  "log_image r bs \<longleftrightarrow> (\<exists>pad. bs = le_bytes 4 (msgtype_code (fst r)) @ le_bytes 4 (length (snd r)) @ snd r @ pad
      \<and> 2 \<le> length pad)"

definition log_view :: "logrec \<Rightarrow> logentry_t" where
  "log_view r = \<lparr>log_type = msgtype_code (fst r), log_length = length (snd r), log_data = snd r\<rparr>"

definition log_files :: "fs \<Rightarrow> string \<Rightarrow> logrec list \<Rightarrow> bool" where
  "log_files fs d es \<longleftrightarrow> dirs fs d \<and> length es < 2 ^ 64 \<and>
     (\<forall>r \<in> set es. length (snd r) \<le> MAX_LOGENTRY) \<and>
     (\<forall>n. \<not> dirs fs (log_file d n) \<and> \<not> denied fs (log_file d n)) \<and>
     (\<forall>n. unat n < length es \<longrightarrow> (\<exists>bs. files fs (log_file d n) = Some bs \<and> log_image (es ! unat n) bs)) \<and>
     (\<forall>n. length es \<le> unat n \<longrightarrow> files fs (log_file d n) = None)"

definition log_rep :: "fs \<Rightarrow> tpclog_t \<Rightarrow> logrec list \<Rightarrow> bool" where
  "log_rep fs log es \<longleftrightarrow> log_files fs (log_dirname log) es \<and> nextid log = of_nat (length es)"

lemma log_file_inject [simp]: "log_file d m = log_file d n \<longleftrightarrow> m = n"
proof
  assume "log_file d m = log_file d n"
  then have "dec (unat m) = dec (unat n)" by (simp add: log_file_def)
  then show "m = n" by (simp add: word_unat_eq_iff)
qed simp

lemma parent_log_file [simp]: "parent (log_file d n) = d"
proof -
  have "CHR ''/'' \<notin> set (dec n)" for n using dec_is_digit digit_not(3) by blast
  then have "CHR ''/'' \<notin> set (dec (unat n) @ TPCLOG_FILETYPE)" by (auto simp: TPCLOG_FILETYPE_def)
  from parent_file [OF this] show ?thesis by (simp add: log_file_def)
qed

lemma log_file_not_entry [simp]: "log_file d n \<noteq> entry_file d' h c" "entry_file d' h c \<noteq> log_file d n"
proof -
  have "last (log_file d n) = CHR ''g''" by (simp add: log_file_def TPCLOG_FILETYPE_def)
  moreover have "last (entry_file d' h c) = CHR ''y''" by (simp add: entry_file_def KVSTORE_FILETYPE_def)
  ultimately show "log_file d n \<noteq> entry_file d' h c" "entry_file d' h c \<noteq> log_file d n" by auto
qed

lemma msgtype_code_less: "msgtype_code t < 256 ^ 4"
  by (cases t) simp_all

lemma msgtype_code_inject [simp]: "msgtype_code s = msgtype_code t \<longleftrightarrow> s = t"
  by (cases s; cases t) simp_all

lemma unat_of_nat64: "n < 2 ^ 64 \<Longrightarrow> unat (of_nat n :: u64) = n"
  by (simp add: unat_of_nat)

lemma log_files_stat:
  "log_files fs d es \<Longrightarrow> stat fs (log_file d n) \<longleftrightarrow> unat n < length es"
  unfolding log_files_def stat_def by (metis not_less option.distinct(1))

lemma log_files_nth:
  assumes "log_files fs d es" and "n < length es"
  shows "\<exists>bs. files fs (log_file d (of_nat n)) = Some bs \<and> log_image (es ! n) bs"
proof -
  have "unat (of_nat n :: u64) = n" using assms by (simp add: log_files_def unat_of_nat64)
  with assms show ?thesis unfolding log_files_def by metis
qed

subsection \<open>Restart\<close>

lemma init_loop_end:
  assumes "log_files fs d es"
  shows "n \<le> length es \<Longrightarrow> init_loop fs d (of_nat n) = Some (of_nat (length es) + 1)"
proof (induction "length es - n" arbitrary: n)
  case 0
  moreover have "length es < 2 ^ 64" using assms by (simp add: log_files_def)
  ultimately show ?case
    by (subst init_loop.simps) (simp add: log_files_stat [OF assms] unat_of_nat64)
next
  case (Suc k)
  then have "init_loop fs d (of_nat (Suc n)) = Some (of_nat (length es) + 1)" by (intro Suc(1)) simp_all
  moreover have "n < length es" "length es < 2 ^ 64" using Suc(2) assms by (simp_all add: log_files_def)
  ultimately show ?case
    by (subst init_loop.simps) (simp add: log_files_stat [OF assms] unat_of_nat64 add.commute)
qed

lemma tpclog_init_rep:
  assumes "log_files fs d es"
  shows "\<exists>log. tpclog_init fs d = Some (0, Some log, fs) \<and> log_rep fs log es \<and> log_dirname log = d"
  using assms init_loop_end [OF assms, of 0]
  by (auto simp: tpclog_init_def log_rep_def log_files_def stat_def)

subsection \<open>Appending\<close>

definition loggable :: "msgtype_t \<Rightarrow> bool" where
  "loggable t \<longleftrightarrow> t = PUTREQ \<or> t = DELREQ \<or> t = COMMIT \<or> t = ABORT"

lemma tpclog_log_rep:
  assumes rep: "log_rep fs log es" and t: "loggable t" and room: "Suc (length es) < 2 ^ 64"
    and k: "t = PUTREQ \<or> t = DELREQ \<Longrightarrow> key = Some k \<and> length k \<le> MAX_KEYLEN"
    and v: "t = PUTREQ \<Longrightarrow> val = Some v \<and> length v \<le> MAX_VALLEN"
    and junk: "length junk = sizeof_logentry - 8"
  shows "\<exists>bs. tpclog_log fs log t key val junk =
      Some (0, log\<lparr>nextid := nextid log + 1\<rparr>, write_file fs (log_file (log_dirname log) (nextid log)) bs) \<and>
    log_rep (write_file fs (log_file (log_dirname log) (nextid log)) bs) (log\<lparr>nextid := nextid log + 1\<rparr>)
      (es @ [(t, log_payload t k v)])"
proof -
  let ?d = "log_dirname log" and ?n = "nextid log" and ?p = "log_payload t k v"
  have lf: "log_files fs ?d es" and n: "?n = of_nat (length es)" using rep by (auto simp: log_rep_def)
  have un: "unat ?n = length es" using room n by (simp add: unat_of_nat64)
  define bs where "bs = le_bytes 4 (msgtype_code t) @ le_bytes 4 (length ?p) @ ?p @ junk"
  have "files fs (log_file ?d ?n) = None" "can_create fs (log_file ?d ?n)"
    using lf un by (auto simp: log_files_def can_create_def)
  then have "tpclog_log fs log t key val junk =
      Some (0, log\<lparr>nextid := ?n + 1\<rparr>, write_file fs (log_file ?d ?n) bs)"
    using t k v junk
    by (auto simp: tpclog_log_def loggable_def write_front_def bs_def log_payload_def Let_def)
  moreover have "log_files (write_file fs (log_file ?d ?n) bs) ?d (es @ [(t, ?p)])"
  proof -
    have "length ?p \<le> MAX_LOGENTRY"
      using k v by (auto simp: log_payload_def MAX_LOGENTRY_def)
    moreover have "log_image (t, ?p) bs" using junk by (auto simp: log_image_def bs_def sizeof_logentry_def)
    ultimately have "\<exists>bs'. files (write_file fs (log_file ?d ?n) bs) (log_file ?d m) = Some bs' \<and>
              log_image ((es @ [(t, ?p)]) ! unat m) bs'" if "unat m < Suc (length es)" for m :: u64
    proof (cases "m = ?n")
      case False
      then have "unat m < length es" using that un by (simp add: less_Suc_eq word_unat_eq_iff)
      with False lf show ?thesis by (simp add: log_files_def nth_append)
    qed (simp add: un)
    moreover have "Suc (length es) \<le> unat m \<Longrightarrow>
        files (write_file fs (log_file ?d ?n) bs) (log_file ?d m) = None" for m :: u64
      using lf un by (auto simp: log_files_def)
    ultimately show ?thesis using lf room \<open>length ?p \<le> MAX_LOGENTRY\<close> by (simp add: log_files_def)
  qed
  ultimately show ?thesis using n by (auto simp: log_rep_def add.commute)
qed

subsection \<open>Reading\<close>

lemma tpclog_load_image:
  assumes "fopen_r fs p = Some bs" and "log_image r bs" and "length (snd r) \<le> MAX_LOGENTRY"
  shows "tpclog_load_entry fs p = Some (0, Some (log_view r))"
proof -
  obtain pad where pad: "bs = le_bytes 4 (msgtype_code (fst r)) @ le_bytes 4 (length (snd r)) @ snd r @ pad"
      "2 \<le> length pad"
    using assms(2) by (auto simp: log_image_def)
  have "length (snd r) < 256 ^ 4" using assms(3) by (simp add: MAX_LOGENTRY_def size_defs)
  then have le: "le_val (le_bytes 4 (length (snd r))) = length (snd r)"
    "le_val (le_bytes 4 (msgtype_code (fst r))) = msgtype_code (fst r)"
    using le_val_le_bytes msgtype_code_less by blast+
  show ?thesis
    using assms(1,3) pad le
    by (simp add: tpclog_load_entry_def log_view_def MAX_LOGENTRY_def size_defs sizeof_logentry_def INT_MAX_def Let_def)
qed

lemma tpclog_iterate_next_rep:
  assumes "log_files fs (log_dirname log) es" and "unat (iterpos log) < length es"
  shows "tpclog_iterate_next fs log =
      Some (Some (log_view (es ! unat (iterpos log))), log\<lparr>iterpos := iterpos log + 1\<rparr>)"
proof -
  let ?p = "log_file (log_dirname log) (iterpos log)"
  obtain bs where "fopen_r fs ?p = Some bs" "log_image (es ! unat (iterpos log)) bs"
    using assms by (auto simp: log_files_def fopen_r_def)
  moreover have "length (snd (es ! unat (iterpos log))) \<le> MAX_LOGENTRY"
    using assms nth_mem by (auto simp: log_files_def)
  ultimately have "tpclog_load_entry fs ?p = Some (0, Some (log_view (es ! unat (iterpos log))))"
    by (rule tpclog_load_image)
  then show ?thesis
    using assms(2) log_files_stat [OF assms(1)] by (simp add: tpclog_iterate_next_def tpclog_iterate_has_next_def)
qed

lemma read_loop_rep:
  assumes "log_files fs (log_dirname log) es"
  shows "n \<le> length es \<Longrightarrow> read_loop fs (log\<lparr>iterpos := of_nat n\<rparr>) acc =
      Some (rev acc @ map log_view (drop n es))"
proof (induction "length es - n" arbitrary: n acc)
  case 0
  moreover have "length es < 2 ^ 64" using assms by (simp add: log_files_def)
  ultimately show ?case
    by (subst read_loop.simps) (simp add: tpclog_iterate_has_next_def log_files_stat [OF assms] unat_of_nat64)
next
  case (Suc k)
  then have n: "n < length es" "length es < 2 ^ 64" using assms by (auto simp: log_files_def)
  let ?log = "log\<lparr>iterpos := of_nat n\<rparr>"
  have IH: "read_loop fs (log\<lparr>iterpos := of_nat n + 1\<rparr>) (log_view (es ! n) # acc) =
      Some (rev (log_view (es ! n) # acc) @ map log_view (drop (Suc n) es))"
    using Suc(1) [of "Suc n" "log_view (es ! n) # acc"] Suc(2) n by (simp add: add.commute)
  have "tpclog_iterate_next fs ?log = Some (Some (log_view (es ! n)), log\<lparr>iterpos := of_nat n + 1\<rparr>)"
    using tpclog_iterate_next_rep [of fs ?log es] assms n by (simp add: unat_of_nat64)
  with IH n show ?case
    by (subst read_loop.simps)
      (simp add: tpclog_iterate_has_next_def log_files_stat [OF assms] unat_of_nat64 Cons_nth_drop_Suc [symmetric])
qed

lemma read_log_rep: "log_rep fs log es \<Longrightarrow> read_log fs log = Some (map log_view es)"
  using read_loop_rep [of fs log es 0 "[]"] by (simp add: log_rep_def read_log_def tpclog_iterate_begin_def)

subsection \<open>Clearing\<close>

text \<open>The loop of \<^verbatim>\<open>tpclog_clear_log\<close> has removed the first \<open>n\<close> files.\<close>

definition cleared :: "fs \<Rightarrow> string \<Rightarrow> nat \<Rightarrow> fs" where
  "cleared fs d n = fs\<lparr>files := (\<lambda>p. if \<exists>i. unat i < n \<and> p = log_file d i then None else files fs p)\<rparr>"

lemma clear_loop_rep:
  assumes "log_files fs d es"
  shows "n \<le> length es \<Longrightarrow> clear_loop (cleared fs d n) d (of_nat n) = Some (0, cleared fs d (length es))"
proof (induction "length es - n" arbitrary: n)
  case 0
  moreover have "length es < 2 ^ 64" using assms by (simp add: log_files_def)
  ultimately have "\<not> stat (cleared fs d n) (log_file d (of_nat n))"
    using assms by (auto simp: log_files_def stat_def cleared_def unat_of_nat64)
  with 0 show ?case by (subst clear_loop.simps) simp
next
  case (Suc k)
  then have n: "n < length es" "n < 2 ^ 64" using assms by (auto simp: log_files_def)
  let ?p = "log_file d (of_nat n)"
  have files: "files (cleared fs d n) ?p = files fs ?p" using n by (auto simp: cleared_def unat_of_nat64)
  have some: "files fs ?p \<noteq> None" "\<not> dirs fs ?p" "\<not> denied fs ?p"
    using assms log_files_nth [OF assms n(1)] by (auto simp: log_files_def)
  have "remove (cleared fs d n) ?p = Inr (cleared fs d (Suc n))"
  proof -
    have eq: "(\<exists>i. unat i < Suc n \<and> p = log_file d i) \<longleftrightarrow> p = ?p \<or> (\<exists>i. unat i < n \<and> p = log_file d i)" for p
    proof -
      have "unat i < Suc n \<longleftrightarrow> i = of_nat n \<or> unat i < n" for i :: u64
        using n(2) by (auto simp: less_Suc_eq word_unat_eq_iff unat_of_nat64)
      then show ?thesis by auto
    qed
    have "(files (cleared fs d n))(?p := None) = files (cleared fs d (Suc n))"
      by (auto simp: cleared_def eq fun_eq_iff)
    then show ?thesis using some files by (auto simp: remove_def remove_path_def cleared_def)
  qed
  moreover have "clear_loop (cleared fs d (Suc n)) d (of_nat (Suc n)) = Some (0, cleared fs d (length es))"
    using Suc by (intro Suc(1)) simp_all
  moreover have "stat (cleared fs d n) ?p" using some files by (auto simp: stat_def)
  ultimately show ?case by (subst clear_loop.simps) (simp add: add.commute)
qed

lemma tpclog_clear_rep:
  assumes "log_rep fs log es"
  shows "\<exists>fs'. tpclog_clear_log fs log = Some (0, log\<lparr>nextid := 0\<rparr>, fs') \<and> log_rep fs' (log\<lparr>nextid := 0\<rparr>) [] \<and>
    dirs fs' = dirs fs \<and> denied fs' = denied fs \<and>
    (\<forall>p. (\<forall>n. p \<noteq> log_file (log_dirname log) n) \<longrightarrow> files fs' p = files fs p)"
proof -
  let ?d = "log_dirname log" and ?fs = "cleared fs (log_dirname log) (length es)"
  have lf: "log_files fs ?d es" using assms by (simp add: log_rep_def)
  have "cleared fs ?d 0 = fs" by (simp add: cleared_def)
  with clear_loop_rep [OF lf, of 0] have "tpclog_clear_log fs log = Some (0, log\<lparr>nextid := 0\<rparr>, ?fs)"
    by (simp add: tpclog_clear_log_def)
  moreover have "log_files ?fs ?d []" using lf by (auto simp: log_files_def cleared_def)
  ultimately show ?thesis by (auto simp: log_rep_def cleared_def)
qed

subsection \<open>The interface of a log and its clients\<close>

datatype 'i levent = Append 'i | Restart | Clear

fun log_run :: "('s \<Rightarrow> 'l \<Rightarrow> 'i \<Rightarrow> (int \<times> 'l \<times> 's) option) \<Rightarrow> ('s \<Rightarrow> 'l \<Rightarrow> (int \<times> 'l \<times> 's) option) \<Rightarrow>
    ('s \<Rightarrow> 'l \<Rightarrow> (int \<times> 'l \<times> 's) option) \<Rightarrow> 's \<Rightarrow> 'l \<Rightarrow> 'i levent list \<Rightarrow> ('l \<times> 's) option" where
  "log_run app reopen clear s l [] = Some (l, s)"
| "log_run app reopen clear s l (ev # evs) = do {
     (_, l, s) \<leftarrow> (case ev of Append i \<Rightarrow> app s l i | Restart \<Rightarrow> reopen s l | Clear \<Rightarrow> clear s l);
     log_run app reopen clear s l evs }"

text \<open>What a log should hold after a run: the entries appended since it was last cleared.\<close>

fun log_spec :: "('i \<Rightarrow> 'e) \<Rightarrow> 'e list \<Rightarrow> 'i levent list \<Rightarrow> 'e list" where
  "log_spec view es [] = es"
| "log_spec view es (Append i # evs) = log_spec view (es @ [view i]) evs"
| "log_spec view es (Restart # evs) = log_spec view es evs"
| "log_spec view es (Clear # evs) = log_spec view [] evs"

fun event_ok :: "('i \<Rightarrow> bool) \<Rightarrow> 'i levent \<Rightarrow> bool" where
  "event_ok ok (Append i) = ok i" | "event_ok ok Restart = True" | "event_ok ok Clear = True"

locale persistent_log =
  fixes app :: "'s \<Rightarrow> 'l \<Rightarrow> 'i \<Rightarrow> (int \<times> 'l \<times> 's) option"
    and reopen :: "'s \<Rightarrow> 'l \<Rightarrow> (int \<times> 'l \<times> 's) option"
    and clear :: "'s \<Rightarrow> 'l \<Rightarrow> (int \<times> 'l \<times> 's) option"
    and contents :: "'s \<Rightarrow> 'l \<Rightarrow> 'e list option"
    and rep :: "'s \<Rightarrow> 'l \<Rightarrow> 'e list \<Rightarrow> bool"
    and ok :: "'i \<Rightarrow> bool" and view :: "'i \<Rightarrow> 'e" and cap :: nat
  assumes append_rep: "rep s l es \<Longrightarrow> ok i \<Longrightarrow> length es < cap \<Longrightarrow>
      \<exists>l' s'. app s l i = Some (0, l', s') \<and> rep s' l' (es @ [view i])"
    and reopen_rep: "rep s l es \<Longrightarrow> \<exists>l'. reopen s l = Some (0, l', s) \<and> rep s l' es"
    and clear_rep: "rep s l es \<Longrightarrow> \<exists>l' s'. clear s l = Some (0, l', s') \<and> rep s' l' []"
    and contents_rep: "rep s l es \<Longrightarrow> contents s l = Some es"
begin

text \<open>Through any sequence of appends, restarts and clears, a reader gets the entries appended since the
  last clear, in order.\<close>

lemma run_contents:
  assumes "rep s l es" and "length es + length evs \<le> cap" and "list_all (event_ok ok) evs"
  shows "\<exists>l' s'. log_run app reopen clear s l evs = Some (l', s') \<and>
           rep s' l' (log_spec view es evs) \<and> contents s' l' = Some (log_spec view es evs)"
  using assms
proof (induction evs arbitrary: s l es)
  case (Cons ev evs)
  have "\<exists>l' s' es' c. (case ev of Append i \<Rightarrow> app s l i | Restart \<Rightarrow> reopen s l | Clear \<Rightarrow> clear s l) =
      Some (c, l', s') \<and> rep s' l' es' \<and> log_spec view es (ev # evs) = log_spec view es' evs \<and>
      length es' \<le> Suc (length es)"
  proof (cases ev)
    case (Append i)
    then show ?thesis using append_rep [of s l es i] Cons.prems by fastforce
  next
    case Restart
    then show ?thesis using reopen_rep [of s l es] Cons.prems by fastforce
  next
    case Clear
    then show ?thesis using clear_rep [of s l es] Cons.prems by fastforce
  qed
  then obtain l' s' es' c where step: "(case ev of Append i \<Rightarrow> app s l i | Restart \<Rightarrow> reopen s l
        | Clear \<Rightarrow> clear s l) = Some (c, l', s')" "rep s' l' es'"
      "log_spec view es (ev # evs) = log_spec view es' evs" "length es' \<le> Suc (length es)"
    by blast
  have "length es' + length evs \<le> cap" using step(4) Cons.prems(2) by simp
  from Cons.IH [OF step(2) this] Cons.prems(3) step(1,3) show ?case by simp
qed (simp add: contents_rep)

end

type_synonym log_input = "msgtype_t \<times> string option \<times> string option \<times> char list"

text \<open>What the callers pass: a key and a value where the message type has them, within the limits, and a
  freshly allocated entry.\<close>

definition log_input_ok :: "log_input \<Rightarrow> bool" where
  "log_input_ok = (\<lambda>(t, key, val, junk). loggable t \<and> length junk = sizeof_logentry - 8 \<and>
     (t = PUTREQ \<or> t = DELREQ \<longrightarrow> (case key of None \<Rightarrow> False | Some k \<Rightarrow> length k \<le> MAX_KEYLEN)) \<and>
     (t = PUTREQ \<longrightarrow> (case val of None \<Rightarrow> False | Some v \<Rightarrow> length v \<le> MAX_VALLEN)))"

definition log_input_view :: "log_input \<Rightarrow> logentry_t" where
  "log_input_view = (\<lambda>(t, key, val, junk). log_view (t, log_payload t
     (case key of None \<Rightarrow> [] | Some k \<Rightarrow> k) (case val of None \<Rightarrow> [] | Some v \<Rightarrow> v)))"

definition tpclog_reopen :: "fs \<Rightarrow> tpclog_t \<Rightarrow> (int \<times> tpclog_t \<times> fs) option" where
  "tpclog_reopen fs log = do {
     (c, log, fs) \<leftarrow> tpclog_init fs (log_dirname log);
     log \<leftarrow> log;
     Some (c, log, fs) }"

definition tpclog_append :: "fs \<Rightarrow> tpclog_t \<Rightarrow> log_input \<Rightarrow> (int \<times> tpclog_t \<times> fs) option" where
  "tpclog_append fs log = (\<lambda>(t, key, val, junk). tpclog_log fs log t key val junk)"

definition log_view_rep :: "fs \<Rightarrow> tpclog_t \<Rightarrow> logentry_t list \<Rightarrow> bool" where
  "log_view_rep fs log es \<longleftrightarrow> (\<exists>rs. log_rep fs log rs \<and> es = map log_view rs)"

lemma tpclog_append_rep:
  assumes "log_view_rep fs log es" and "log_input_ok i" and "length es < 2 ^ 64 - 1"
  shows "\<exists>log' fs'. tpclog_append fs log i = Some (0, log', fs') \<and> log_view_rep fs' log' (es @ [log_input_view i])"
proof -
  obtain t key val junk where i: "i = (t, key, val, junk)" by (metis prod_cases4)
  obtain rs where rs: "log_rep fs log rs" "es = map log_view rs" using assms(1) by (auto simp: log_view_rep_def)
  let ?k = "case key of None \<Rightarrow> [] | Some k \<Rightarrow> k" and ?v = "case val of None \<Rightarrow> [] | Some v \<Rightarrow> v"
  have "\<exists>bs. tpclog_log fs log t key val junk =
      Some (0, log\<lparr>nextid := nextid log + 1\<rparr>, write_file fs (log_file (log_dirname log) (nextid log)) bs) \<and>
    log_rep (write_file fs (log_file (log_dirname log) (nextid log)) bs) (log\<lparr>nextid := nextid log + 1\<rparr>)
      (rs @ [(t, log_payload t ?k ?v)])"
    by (rule tpclog_log_rep [OF rs(1)])
      (use assms(2,3) rs(2) in \<open>auto simp: log_input_ok_def i split: option.splits\<close>)
  then show ?thesis
    by (auto simp: tpclog_append_def i log_view_rep_def log_input_view_def rs(2) intro!: exI [of _ "rs @ _"])
qed

interpretation tpcl: persistent_log tpclog_append tpclog_reopen tpclog_clear_log read_log log_view_rep
  log_input_ok log_input_view "2 ^ 64 - 1"
proof unfold_locales
  fix s :: fs and l es i
  assume "log_view_rep s l es" "log_input_ok i" "length es < 2 ^ 64 - 1"
  then show "\<exists>l' s'. tpclog_append s l i = Some (0, l', s') \<and> log_view_rep s' l' (es @ [log_input_view i])"
    by (rule tpclog_append_rep)
next
  fix s :: fs and l es
  assume "log_view_rep s l es"
  then obtain rs where rs: "log_rep s l rs" "es = map log_view rs" by (auto simp: log_view_rep_def)
  then show "\<exists>l'. tpclog_reopen s l = Some (0, l', s) \<and> log_view_rep s l' es"
    using tpclog_init_rep [of s "log_dirname l" rs]
    by (auto simp: tpclog_reopen_def log_view_rep_def log_rep_def)
  show "\<exists>l' s'. tpclog_clear_log s l = Some (0, l', s') \<and> log_view_rep s' l' []"
    using tpclog_clear_rep [OF rs(1)] by (auto simp: log_view_rep_def)
  show "read_log s l = Some es" using read_log_rep [OF rs(1)] rs(2) by simp
qed

subsection \<open>A log and a store in one directory\<close>

lemma kv_rep_frame:
  assumes "kv_rep fs store m" and "dirs fs' = dirs fs" and "denied fs' = denied fs"
    and "\<And>h c. files fs' (entry_file (kv_dirname store) h c) = files fs (entry_file (kv_dirname store) h c)"
  shows "kv_rep fs' store m"
  using assms by (auto simp: kv_rep_def kv_chains_def kv_layout_def)

lemma log_rep_frame:
  assumes "log_rep fs log es" and "dirs fs' = dirs fs" and "denied fs' = denied fs"
    and "\<And>n. files fs' (log_file (log_dirname log) n) = files fs (log_file (log_dirname log) n)"
  shows "log_rep fs' log es"
  using assms by (auto simp: log_rep_def log_files_def)

text \<open>A store operation changes entry files only.\<close>

definition entry_frame :: "fs \<Rightarrow> fs \<Rightarrow> string \<Rightarrow> bool" where
  "entry_frame fs fs' d \<longleftrightarrow> dirs fs' = dirs fs \<and> denied fs' = denied fs \<and>
     (\<forall>p. (\<forall>h c. p \<noteq> entry_file d h c) \<longrightarrow> files fs' p = files fs p)"

lemma kvstore_put_frame: "kvstore_put fs store k v = Some (c, fs') \<Longrightarrow> entry_frame fs fs' (kv_dirname store)"
  by (auto simp: kvstore_put_def put_locked_def entry_frame_def Let_def split: if_splits option.splits bind_splits)

lemma kvstore_del_frame:
  assumes "kv_rep fs store m" and "kvstore_del fs store k = Some (c, fs')"
  shows "entry_frame fs fs' (kv_dirname store)"
proof -
  have "\<not> dirs fs (entry_file (kv_dirname store) h c)" for h c using assms(1) by (auto simp: kv_rep_def kv_chains_def kv_layout_def)
  then show ?thesis using assms(2)
    by (auto simp: kvstore_del_def del_locked_def entry_frame_def Let_def remove_def remove_path_def rename_path_def
        split: if_splits option.splits bind_splits)
qed

lemma log_rep_entry_frame: "log_rep fs log es \<Longrightarrow> entry_frame fs fs' d \<Longrightarrow> log_rep fs' log es"
  by (rule log_rep_frame) (auto simp: entry_frame_def)

lemma kv_rep_log_write: "kv_rep fs store m \<Longrightarrow> kv_rep (write_file fs (log_file d n) bs) store m"
  by (erule kv_rep_frame) auto

subsection \<open>Properties\<close>

text \<open>C14: starting from an empty log directory, through any sequence of appends of well-formed messages,
  restarts (\<^verbatim>\<open>tpclog_init\<close> on the directory left by a crash) and clears, every call succeeds, and the
  iteration functions return the entries appended since the last clear, oldest first, with their type
  and data; no read overflows the entry buffer.\<close>

theorem tpclog_survives_restarts:
  assumes "log_rep fs log []" and "length evs < 2 ^ 64" and "list_all (event_ok log_input_ok) evs"
  shows "\<exists>log' fs'. log_run tpclog_append tpclog_reopen tpclog_clear_log fs log evs = Some (log', fs') \<and>
           read_log fs' log' = Some (log_spec log_input_view [] evs)"
  using tpcl.run_contents [of fs log "[]" evs] assms by (auto simp: log_view_rep_def)

definition sample_log :: tpclog_t where
  "sample_log = \<lparr>log_dirname = ''d'', nextid = 0, iterpos = 0\<rparr>"

lemma sample_log_rep: "log_rep sample_fs sample_log []"
  by (auto simp: log_rep_def log_files_def sample_fs_def sample_log_def log_file_def)

theorem tpclog_survives_restarts_witness:
  "\<exists>log' fs'. log_run tpclog_append tpclog_reopen tpclog_clear_log sample_fs sample_log
       [Append (ABORT, None, None, replicate 2052 NUL), Clear,
        Append (PUTREQ, Some ''k'', Some ''v'', replicate 2052 NUL), Restart,
        Append (COMMIT, None, None, replicate 2052 NUL)] = Some (log', fs') \<and>
     read_log fs' log' = Some [log_view (PUTREQ, [CHR ''k'', NUL, CHR ''v'', NUL]), log_view (COMMIT, [])]"
  using tpclog_survives_restarts [OF sample_log_rep, of "[Append (ABORT, None, None, replicate 2052 NUL), Clear,
        Append (PUTREQ, Some ''k'', Some ''v'', replicate 2052 NUL), Restart,
        Append (COMMIT, None, None, replicate 2052 NUL)]"]
  by (simp add: log_input_ok_def loggable_def sizeof_logentry_def size_defs log_input_view_def log_payload_def
      del: log_run.simps)

end
