(* ===== verification/C_String.thy ===== *)
theory C_String
  imports Prelude
begin

text \<open>
  The string functions of the C library that the parsers use.  A pointer into a NUL-terminated string is
  the suffix it points to: the empty list is the pointer to the terminator, the difference of two
  pointers is a difference of lengths, and \<open>p + n\<close> is \<^const>\<open>drop\<close>, undefined beyond the terminator.
\<close>

definition cstr :: "char list \<Rightarrow> string" where
  "cstr bs = takeWhile (\<lambda>c. c \<noteq> NUL) bs"

definition deref :: "string \<Rightarrow> char" where
  "deref p = (case p of [] \<Rightarrow> NUL | c # _ \<Rightarrow> c)"

definition advance :: "string \<Rightarrow> nat \<Rightarrow> string option" where
  "advance p n = (if n \<le> length p then Some (drop n p) else None)"

definition ptr_diff :: "string \<Rightarrow> string \<Rightarrow> int" where
  "ptr_diff p q = int (length q) - int (length p)"

definition strchr :: "string \<Rightarrow> char \<Rightarrow> string option" where
  "strchr s c = (case dropWhile (\<lambda>x. x \<noteq> c) s of [] \<Rightarrow> None | r \<Rightarrow> Some r)"

fun prefix_of :: "string \<Rightarrow> string \<Rightarrow> bool" where
  "prefix_of [] s = True"
| "prefix_of (c # p) [] = False"
| "prefix_of (c # p) (x # s) = (c = x \<and> prefix_of p s)"

fun strstr :: "string \<Rightarrow> string \<Rightarrow> string option" where
  "strstr [] pat = (if pat = [] then Some [] else None)"
| "strstr (c # s) pat = (if prefix_of pat (c # s) then Some (c # s) else strstr s pat)"

text \<open>\<open>strncmp(s, t, n) == 0\<close>, for strings that hold no NUL.\<close>

definition strncmp_eq :: "string \<Rightarrow> string \<Rightarrow> nat \<Rightarrow> bool" where
  "strncmp_eq s t n \<longleftrightarrow> take n s = take n t"

definition is_space :: "char \<Rightarrow> bool" where
  "is_space c \<longleftrightarrow> c = CHR '' '' \<or> (9 \<le> (of_char c :: nat) \<and> (of_char c :: nat) \<le> 13)"

definition LONG_MAX :: int where "LONG_MAX = 9223372036854775807"

text \<open>\<open>strtol(s, &end, 10)\<close>: leading space, a sign, digits; the value is clamped to the range of \<^verbatim>\<open>long\<close>, and
  without a digit the end is the start.\<close>

definition strtol :: "string \<Rightarrow> int \<times> string" where
  "strtol s =
     (let t = dropWhile is_space s;
          neg = (deref t = CHR ''-'');
          u = (if neg \<or> deref t = CHR ''+'' then tl t else t);
          ds = takeWhile is_digit u;
          n = int (undec ds)
      in if ds = [] then (0, s)
         else (if neg then max (- n) (- LONG_MAX - 1) else min n LONG_MAX, drop (length ds) u))"

text \<open>Conversion of a \<^verbatim>\<open>long\<close> to \<^verbatim>\<open>int\<close>, and to \<^verbatim>\<open>size_t\<close>.\<close>

definition to_int :: "int \<Rightarrow> int" where
  "to_int n = sint (word_of_int n :: 32 word)"

definition to_size :: "int \<Rightarrow> nat" where
  "to_size n = unat (word_of_int n :: 64 word)"

text \<open>Printing of an \<^verbatim>\<open>int\<close> with \<open>%d\<close>.\<close>

definition sprint_int :: "int \<Rightarrow> string" where
  "sprint_int i = (if i < 0 then CHR ''-'' # dec (nat (- i)) else dec (nat i))"

lemma cstr_cstring [simp]: "cstring s \<Longrightarrow> cstr s = s"
  unfolding cstr_def cstring_def by (auto intro!: takeWhile_eq_all_conv [THEN iffD2])

lemma cstring_cstr [simp]: "cstring (cstr bs)"
  unfolding cstr_def cstring_def by (auto dest: set_takeWhileD)

lemma strchr_append [str_simps]: "c \<notin> set s \<Longrightarrow> strchr (s @ c # r) c = Some (c # r)"
  by (induction s) (auto simp: strchr_def)

lemma strchr_skip: "c \<notin> set p \<Longrightarrow> strchr (p @ s) c = strchr s c"
  by (induction p) (auto simp: strchr_def)

lemma strchr_Cons: "strchr (x # s) c = (if x = c then Some (x # s) else strchr s c)"
  by (simp add: strchr_def)

lemma strchr_None [str_simps]: "c \<notin> set s \<Longrightarrow> strchr s c = None"
  by (induction s) (auto simp: strchr_def)

lemma strchr_Some_iff:
  "strchr s c = Some r \<longleftrightarrow> (\<exists>p q. s = p @ c # q \<and> c \<notin> set p \<and> r = c # q)"
proof
  assume "strchr s c = Some r"
  then have r: "dropWhile (\<lambda>x. x \<noteq> c) s = r" "r \<noteq> []" by (auto simp: strchr_def split: list.splits)
  then have "hd r = c" using hd_dropWhile [of "\<lambda>x. x \<noteq> c" s] by simp
  then have "s = takeWhile (\<lambda>x. x \<noteq> c) s @ c # tl r \<and> r = c # tl r"
    using r by (metis list.collapse takeWhile_dropWhile_id)
  then show "\<exists>p q. s = p @ c # q \<and> c \<notin> set p \<and> r = c # q"
    using set_takeWhileD [of c "\<lambda>x. x \<noteq> c" s] by blast
next
  assume "\<exists>p q. s = p @ c # q \<and> c \<notin> set p \<and> r = c # q"
  then show "strchr s c = Some r" by (auto simp: strchr_append)
qed

lemma strchr_length: "strchr s c = Some r \<Longrightarrow> 0 < length r \<and> length r \<le> length s"
  by (auto simp: strchr_Some_iff)

lemma strchr_cstring: "cstring s \<Longrightarrow> strchr s c = Some r \<Longrightarrow> cstring r"
  by (auto simp: strchr_Some_iff)

lemma strchr_None_iff: "strchr s c = None \<longleftrightarrow> c \<notin> set s"
  by (metis not_None_eq split_list_first strchr_None strchr_append)

lemma prefix_of_append [simp]: "prefix_of p s \<longleftrightarrow> (\<exists>r. s = p @ r)"
  by (induction p s rule: prefix_of.induct) auto

lemma strstr_Some: "strstr s pat = Some r \<Longrightarrow> \<exists>p q. s = p @ r \<and> r = pat @ q"
proof (induction s)
  case (Cons c s)
  then show ?case
    by (auto split: if_splits) (metis append_Cons)
qed (simp split: if_splits)

lemma strstr_length: "strstr s pat = Some r \<Longrightarrow> length r \<le> length s"
  by (auto dest!: strstr_Some)

text \<open>The first occurrence of a pattern is found when none of its characters occurs before it.\<close>

lemma strstr_first [str_simps]:
  assumes "pat = c # ps" and "c \<notin> set s"
  shows "strstr (s @ pat @ r) pat = Some (pat @ r)"
  using assms by (induction s) auto

lemma strtol_dec:
  assumes "deref r = CHR '' '' \<or> deref r = CHR 0x0D" and "int n \<le> LONG_MAX"
  shows "strtol (dec n @ r) = (int n, r)"
proof -
  obtain c cs where dc: "dec n = c # cs" by (cases "dec n") auto
  then have c: "is_digit c" using dec_is_digit [of c n] by simp
  then have "\<not> is_space c" "c \<noteq> CHR ''-''" "c \<noteq> CHR ''+''" by (auto simp: is_digit_def is_space_def)
  moreover have "takeWhile is_digit (dec n @ r) = dec n"
  proof -
    have "r \<noteq> []" "\<not> is_digit (hd r)" using assms(1)
      by (cases r; auto simp: deref_def is_digit_def)+
    then show ?thesis by (subst takeWhile_append2) (auto dest: dec_is_digit simp: takeWhile_eq_Nil_iff)
  qed
  moreover have "undec (c # cs) = n" using undec_dec [of n] dc by simp
  ultimately show ?thesis using assms(2) dc by (simp add: strtol_def Let_def deref_def)
qed

lemma advance_append [str_simps]: "length p = n \<Longrightarrow> advance (p @ r) n = Some r"
  by (simp add: advance_def)

lemma strncmp_eq_full [str_simps]: "strncmp_eq (s @ r) s (length s)"
  by (simp add: strncmp_eq_def)

end
