(* ===== verification/Lib_URL.thy ===== *)
theory Lib_URL
  imports C_String KV_Constants
begin

text \<open>
  URL parameters, \<^verbatim>\<open>2PCKVStore/liburl.c\<close>: a path and the parameters \<open>key\<close> and \<open>val\<close>.  The theory shows
  that decoding never copies a negative or over-long piece, and that it inverts encoding for every path
  without \<open>?\<close> and every key and value without \<open>&\<close>.
\<close>

record url_params_t =
  path :: string
  key :: string
  val :: string

definition zero_params :: url_params_t where
  "zero_params = \<lparr>path = [], key = [], val = []\<rparr>"

datatype param = PKey | PVal

fun get_param_ptr :: "string \<Rightarrow> nat \<Rightarrow> param option" where
  "get_param_ptr k keylen =
     (if strncmp_eq k ''key'' keylen then Some PKey
      else if strncmp_eq k ''val'' keylen then Some PVal else None)"

fun max_size :: "param \<Rightarrow> nat" where
  "max_size PKey = MAX_KEYLEN" | "max_size PVal = MAX_VALLEN"

fun set_param :: "param \<Rightarrow> string \<Rightarrow> url_params_t \<Rightarrow> url_params_t" where
  "set_param PKey s params = params\<lparr>key := s\<rparr>"
| "set_param PVal s params = params\<lparr>val := s\<rparr>"

text \<open>The end of the current parameter: the next \<open>&\<close>, or the terminator.\<close>

definition param_end :: "string \<Rightarrow> string" where
  "param_end url = (case strchr url (CHR ''&'') of None \<Rightarrow> [] | Some r \<Rightarrow> r)"

lemma param_end_less: "url \<noteq> [] \<Longrightarrow> length (param_end url) - Suc 0 < length url"
proof -
  assume "url \<noteq> []"
  moreover have "length r \<le> length url" if "strchr url (CHR ''&'') = Some r" for r
    using strchr_length [OF that] by simp
  ultimately show ?thesis
    by (cases "strchr url (CHR ''&'')"; cases url) (fastforce simp: param_end_def)+
qed

lemma param_end_skip: "CHR ''&'' \<notin> set p \<Longrightarrow> param_end (p @ s) = param_end s"
  by (simp add: param_end_def strchr_skip)

text \<open>The loop over the parameters.  The result is \<^const>\<open>None\<close> when the size of a copy is negative.\<close>

function url_loop :: "url_params_t \<Rightarrow> string \<Rightarrow> string \<Rightarrow> url_params_t option" where
  "url_loop params read_end url =
     (if deref read_end = NUL then Some params
      else case strchr url (CHR ''='') of
        None \<Rightarrow> Some params
      | Some key_end \<Rightarrow>
          let read_end = param_end url;
              keylen = length url - length key_end
          in (case get_param_ptr url keylen of
                None \<Rightarrow> if deref url = NUL then Some params else url_loop params read_end (drop 1 read_end)
              | Some p \<Rightarrow>
                  if ptr_diff read_end key_end - 1 < 0 then None
                  else let read_size = min (nat (ptr_diff read_end key_end - 1)) (max_size p)
                       in url_loop (set_param p (take read_size (drop 1 key_end)) params)
                            read_end (drop 1 read_end)))"
  by pat_completeness auto


termination
  by (relation "measure (\<lambda>(_, _, url). length url)")
    (auto intro!: param_end_less dest: strchr_length)

declare url_loop.simps [simp del]

text \<open>\<open>strlen(url) - 1\<close> and \<open>read_end - url - 1\<close> are computed in \<^verbatim>\<open>size_t\<close>.  A copy beyond the terminator of the
  URL reads bytes that were never written.\<close>

definition url_decode :: "url_params_t \<Rightarrow> string \<Rightarrow> url_params_t option" where
  "url_decode params url =
     (let read_end = strchr url (CHR ''?'');
          read_size = to_size (case read_end of None \<Rightarrow> int (length url) - 1 | Some r \<Rightarrow> ptr_diff r url - 1);
          read_size = min read_size PATH_MAX_SIZE
      in if 0 < read_size \<and> length url < 1 + read_size then None
         else let params = (if read_size > 0 then params\<lparr>path := take read_size (drop 1 url)\<rparr> else params)
              in (case read_end of None \<Rightarrow> Some params | Some r \<Rightarrow> url_loop params r (drop 1 r)))"

definition url_encode :: "url_params_t \<Rightarrow> string option" where
  "url_encode params =
     (let buf = ''/'' @ path params @ ''?'' @ ''key='' @ key params @ ''&'' @ ''val='' @ val params @ ''&''
      in if length buf < HTTP_MSG_MAX_SIZE then Some (butlast buf) else None)"

subsection \<open>Safety of decoding\<close>

definition params_ok :: "url_params_t \<Rightarrow> bool" where
  "params_ok p \<longleftrightarrow> length (path p) \<le> PATH_MAX_SIZE \<and> length (key p) \<le> MAX_KEYLEN \<and> length (val p) \<le> MAX_VALLEN \<and>
     cstring (path p) \<and> cstring (key p) \<and> cstring (val p)"

text \<open>A parameter name that is accepted holds no \<open>&\<close>, so the value ends after its \<open>=\<close>.\<close>

lemma get_param_ptr_Some:
  assumes "get_param_ptr (p @ CHR ''='' # q) (length p) = Some a"
  shows "CHR ''&'' \<notin> set p"
proof -
  have "p = take (length p) ''key'' \<or> p = take (length p) ''val''"
    using assms by (auto simp: strncmp_eq_def split: if_splits)
  then have "set p \<subseteq> set ''key'' \<or> set p \<subseteq> set ''val''" by (metis set_take_subset)
  then show ?thesis by auto
qed

lemma cstring_take [simp]: "cstring s \<Longrightarrow> cstring (take n s)" "cstring s \<Longrightarrow> cstring (drop n s)"
  by (auto simp: cstring_def dest: in_set_takeD in_set_dropD)

lemma url_loop_ok:
  "params_ok params \<Longrightarrow> cstring url \<Longrightarrow> \<exists>params'. url_loop params read_end url = Some params' \<and> params_ok params'"
proof (induction params read_end url rule: url_loop.induct)
  case (1 params read_end url)
  show ?case
  proof (cases "deref read_end = NUL \<or> strchr url (CHR ''='') = None")
    case True
    then show ?thesis using "1.prems" by (subst url_loop.simps) auto
  next
    case False
    then obtain key_end where ke: "strchr url (CHR ''='') = Some key_end" by auto
    then obtain p q where pq: "url = p @ CHR ''='' # q" "key_end = CHR ''='' # q"
      by (auto simp: strchr_Some_iff)
    let ?re = "param_end url"
    have cre: "cstring (drop 1 ?re)" using "1.prems"(2)
      by (auto simp: param_end_def strchr_cstring split: option.splits)
    note IH = "1.IH" [OF _ ke refl refl]
    show ?thesis
    proof (cases "get_param_ptr url (length url - length key_end)")
      case None
      with False ke IH(1) "1.prems" cre pq show ?thesis
        by (subst url_loop.simps) (simp add: Let_def)
    next
      case (Some a)
      then have "CHR ''&'' \<notin> set p" using get_param_ptr_Some [of p q a] pq by simp
      then have "length ?re \<le> length q"
        using pq strchr_length [of q "CHR ''&''"]
        by (auto simp: param_end_def strchr_skip strchr_Cons split: option.splits)
      then have nn: "\<not> ptr_diff ?re key_end - 1 < 0" by (simp add: ptr_diff_def pq)
      let ?n = "min (nat (ptr_diff ?re key_end - 1)) (max_size a)"
      have "params_ok (set_param a (take ?n (drop 1 key_end)) params)"
        using "1.prems" pq by (cases a) (auto simp: params_ok_def)
      with IH(2) [OF _ Some nn refl] False ke nn cre Some show ?thesis
        by (subst url_loop.simps) (simp add: Let_def)
    qed
  qed
qed

text \<open>The paths a request can have start with a slash.\<close>

lemma to_size_nat: "n < 2 ^ 64 \<Longrightarrow> to_size (int n) = n"
  by (simp add: to_size_def unat_of_nat)

lemma url_decode_ok:
  assumes "cstring url" and "deref url = CHR ''/''" and "length url < 2 ^ 64" and "params_ok params"
  shows "\<exists>params'. url_decode params url = Some params' \<and> params_ok params'"
proof -
  obtain s where url: "url = CHR ''/'' # s" using assms(2) by (cases url) (auto simp: deref_def)
  have cs: "cstring s" and len: "length s < 2 ^ 64" using assms(1,3) url by auto
  show ?thesis
  proof (cases "strchr s (CHR ''?'')")
    case None
    then show ?thesis
      using len cs assms(4) url
      by (auto simp: url_decode_def Let_def strchr_Cons to_size_nat params_ok_def)
  next
    case (Some r)
    then obtain p q where pq: "s = p @ r" "r = CHR ''?'' # q" by (auto simp: strchr_Some_iff)
    let ?params = "if min (length p) PATH_MAX_SIZE > 0 then params\<lparr>path := take (min (length p) PATH_MAX_SIZE) p\<rparr> else params"
    have "params_ok ?params" using assms(4) cs pq by (auto simp: params_ok_def)
    then obtain params' where "url_loop ?params r q = Some params'" "params_ok params'"
      using url_loop_ok [of ?params q r] cs pq by auto
    moreover have "to_size (ptr_diff r url - 1) = length p"
      using to_size_nat [of "length p"] len pq url by (simp add: ptr_diff_def)
    ultimately show ?thesis using Some pq url
      by (cases "0 < min (length p) PATH_MAX_SIZE") (auto simp: url_decode_def Let_def strchr_Cons)
  qed
qed

subsection \<open>Round trip\<close>

lemma url_loop_param:
  assumes "a = PKey \<and> name = ''key'' \<or> a = PVal \<and> name = ''val''" and "CHR ''&'' \<notin> set s" and "length s \<le> max_size a"
    and "deref re \<noteq> NUL"
  shows "url_loop params re (name @ CHR ''='' # s @ CHR ''&'' # r) = url_loop (set_param a s params) (CHR ''&'' # r) r"
    and "url_loop params re (name @ CHR ''='' # s) = Some (set_param a s params)"
proof -
  have n: "strchr (name @ CHR ''='' # t) (CHR ''='') = Some (CHR ''='' # t)"
      "get_param_ptr (name @ CHR ''='' # t) 3 = Some a" "length name = 3" for t
    using assms(1) by (auto simp: strchr_def strncmp_eq_def)
  have e: "param_end (name @ CHR ''='' # s @ t) = param_end t" for t
    using assms(1,2) param_end_skip [of "name @ CHR ''='' # s" t] by auto
  show "url_loop params re (name @ CHR ''='' # s @ CHR ''&'' # r) = url_loop (set_param a s params) (CHR ''&'' # r) r"
    using n e [of "CHR ''&'' # r"] assms(3,4)
    by (subst url_loop.simps) (simp add: Let_def ptr_diff_def param_end_def strchr_Cons del: get_param_ptr.simps)
  show "url_loop params re (name @ CHR ''='' # s) = Some (set_param a s params)"
    using n e [of "[]"] assms(3,4)
    by (subst url_loop.simps, subst url_loop.simps)
      (simp add: Let_def ptr_diff_def param_end_def strchr_def deref_def del: get_param_ptr.simps)
qed

lemma url_roundtrip:
  assumes "params_ok p" and "CHR ''?'' \<notin> set (path p)" and "CHR ''&'' \<notin> set (key p)" "CHR ''&'' \<notin> set (val p)"
  shows "\<exists>url. url_encode p = Some url \<and> url_decode zero_params url = Some p"
proof -
  let ?q = "''key='' @ key p @ ''&'' @ ''val='' @ val p"
  have len: "length (path p) \<le> PATH_MAX_SIZE" "length (key p) \<le> MAX_KEYLEN" "length (val p) \<le> MAX_VALLEN"
    using assms(1) by (auto simp: params_ok_def)
  then have enc: "url_encode p = Some (''/'' @ path p @ ''?'' @ ?q)"
    by (simp add: url_encode_def Let_def size_defs butlast_append)
  have "url_loop params (CHR ''?'' # ?q) ?q = Some (params\<lparr>key := key p, val := val p\<rparr>)" for params
    using url_loop_param(1) [of PKey "''key''" "key p" "CHR ''?'' # ?q" params "''val='' @ val p"]
      url_loop_param(2) [of PVal "''val''" "val p" "CHR ''&'' # ''val='' @ val p"] assms(3,4) len
    by (simp add: deref_def)
  moreover have "strchr (CHR ''/'' # path p @ CHR ''?'' # ?q) (CHR ''?'') = Some (CHR ''?'' # ?q)"
    using assms(2) by (simp add: strchr_Cons strchr_append)
  moreover have "to_size (int (length (path p))) = length (path p)"
    using len by (intro to_size_nat) (simp add: size_defs)
  ultimately have "url_decode zero_params (''/'' @ path p @ ''?'' @ ?q) = Some p"
    using len by (simp add: url_decode_def Let_def ptr_diff_def zero_params_def)
  with enc show ?thesis by simp
qed

end
