(* ===== verification/Lib_HTTP.thy ===== *)
theory Lib_HTTP
  imports Lib_URL
begin

text \<open>
  HTTP messages, \<^verbatim>\<open>2PCKVStore/libhttp.c\<close>: parsing of requests and responses out of the bytes one
  \<^verbatim>\<open>read\<close> returned, and construction of outbound messages in their fixed-size buffer.  A parser
  returns \<open>Some (Some m)\<close> for a message, \<open>Some None\<close> for the error return, and \<^const>\<open>None\<close> where the C code
  reads or writes outside its buffers.
\<close>

datatype http_method_t = INVALID | GET | POST | PUT | DELETE

record http_request_t =
  req_method :: http_method_t
  req_path :: string

record http_response_t =
  res_status :: int
  res_body :: string

record http_outbound_t =
  out_body :: string

definition FULLMSG_MAX_SIZE :: nat where "FULLMSG_MAX_SIZE = HTTP_MSG_MAX_SIZE + 32"
definition METHOD_MAX_SIZE :: nat where "METHOD_MAX_SIZE = 6"

abbreviation CR :: char where "CR \<equiv> CHR 0x0D"
abbreviation LF :: char where "LF \<equiv> CHR 0x0A"

definition http_method_from_string :: "string \<Rightarrow> http_method_t" where
  "http_method_from_string method_buf =
     (if method_buf = ''GET'' then GET
      else if method_buf = ''POST'' then POST
      else if method_buf = ''PUT'' then PUT
      else if method_buf = ''DELETE'' then DELETE
      else INVALID)"

fun http_method_to_string :: "http_method_t \<Rightarrow> string option" where
  "http_method_to_string GET = Some ''GET''"
| "http_method_to_string POST = Some ''POST''"
| "http_method_to_string PUT = Some ''PUT''"
| "http_method_to_string DELETE = Some ''DELETE''"
| "http_method_to_string INVALID = None"

definition http_get_response_message :: "int \<Rightarrow> string option" where
  "http_get_response_message status_code = map_of [
     (100, ''Continue''), (200, ''OK''), (201, ''Created''), (202, ''Accepted''), (204, ''No Content''),
     (301, ''Moved Permanently''), (302, ''Found''), (304, ''Not Modified''), (400, ''Bad Request''),
     (401, ''Unauthorized''), (403, ''Forbidden''), (404, ''Not Found''), (405, ''Method Not Allowed''),
     (500, ''Internal Server Error'')] status_code"

subsection \<open>Receiving\<close>

text \<open>The bytes \<open>data\<close> are what \<^verbatim>\<open>read\<close> put into the buffer; an empty list stands for end of file and
  for an error.  The parsers work on the C string in the buffer.\<close>

fun read_path :: "string \<Rightarrow> string option" where
  "read_path [] = None"
| "read_path (c # s) = (if c = CHR '' '' \<or> c = LF then Some [] else map_option ((#) c) (read_path s))"

definition http_request_parse :: "string \<Rightarrow> http_request_t option" where
  "http_request_parse read_buffer = do {
     read_end \<leftarrow> strchr read_buffer (CHR '' '');
     let read_size = min (length read_buffer - length read_end) METHOD_MAX_SIZE;
     let method = http_method_from_string (take read_size read_buffer);
     if method = INVALID then None
     else do {
       let read_init = drop 1 read_end;
       if deref read_init \<noteq> CHR ''/'' then None
       else do {
         p \<leftarrow> read_path read_init;
         let read_size = min (length p) HTTP_MSG_MAX_SIZE;
         if read_size = 0 then None
         else Some \<lparr>req_method = method, req_path = take read_size p\<rparr>
       }
     }
   }"

definition http_request_receive :: "char list \<Rightarrow> http_request_t option" where
  "http_request_receive data =
     (if data = [] then None else http_request_parse (cstr (take (FULLMSG_MAX_SIZE - 1) data)))"

definition line_end :: "string \<Rightarrow> string option" where
  "line_end s = (case strstr s [CR, LF] of Some r \<Rightarrow> Some r | None \<Rightarrow> strstr s [LF])"

lemma line_end_length: "line_end s = Some r \<Longrightarrow> length r \<le> length s"
  by (auto simp: line_end_def split: option.splits dest: strstr_length)

text \<open>The loop over the header lines: the end of the header and the content length.\<close>

function header_loop :: "string \<Rightarrow> int \<Rightarrow> (string \<times> int) option option" where
  "header_loop read_end content_length =
     (if strncmp_eq read_end [LF, LF] 2 \<or> strncmp_eq read_end [CR, LF, CR, LF] 4
      then Some (Some (read_end, content_length))
      else case advance read_end 2 of
        None \<Rightarrow> None
      | Some read_init \<Rightarrow>
          (case line_end read_init of
             None \<Rightarrow> Some None
           | Some read_limit \<Rightarrow>
               (case strstr read_init '': '' of
                  None \<Rightarrow> Some None
                | Some colon \<Rightarrow>
                    if length colon < length read_limit then Some None
                    else if strncmp_eq read_init ''Content-Length'' (length read_init - length colon) then
                      (let (n, e) = strtol (drop 2 colon); e = dropWhile (\<lambda>c. c = CHR '' '') e
                       in if e \<noteq> read_limit then Some None else header_loop read_limit n)
                    else header_loop read_limit content_length)))"
  by pat_completeness auto

termination
  by (relation "measure (\<lambda>(s, _). length s)")
    (auto simp: advance_def split: if_splits dest!: line_end_length)

declare header_loop.simps [simp del]

text \<open>The body copy must stay inside the read buffer; what lies after the terminator in it does not
  reach the body, which is read as a C string.\<close>

definition http_response_parse :: "string \<Rightarrow> http_response_t option option" where
  "http_response_parse read_buffer =
     (case strchr read_buffer (CHR '' '') of
        None \<Rightarrow> Some None
      | Some sp \<Rightarrow>
          if length read_buffer - length sp \<noteq> 8 then Some None
          else if \<not> strncmp_eq read_buffer ''HTTP/1.1'' 8 \<and> \<not> strncmp_eq read_buffer ''HTTP/1.0'' 8 then Some None
          else
            (let read_init = drop 1 sp; (n, read_end) = strtol read_init; status = to_int n
             in if status = 0 \<or> length read_init - length read_end \<noteq> 3 \<or> deref read_end \<noteq> CHR '' '' then Some None
                else
                  (let read_init = drop 1 read_end
                   in case line_end read_init of
                        None \<Rightarrow> Some None
                      | Some eol \<Rightarrow> do {
                          msg \<leftarrow> http_get_response_message status;
                          if \<not> strncmp_eq read_init msg (length read_init - length eol) then Some None
                          else do {
                            h \<leftarrow> header_loop eol (- 1);
                            (case h of
                               None \<Rightarrow> Some None
                             | Some (read_end, content_length) \<Rightarrow> do {
                                 rest \<leftarrow> advance read_end 4;
                                 let read_size = min (to_size content_length) HTTP_MSG_MAX_SIZE;
                                 if length read_buffer - length rest + read_size > FULLMSG_MAX_SIZE + 1 then None
                                 else Some (Some \<lparr>res_status = status, res_body = take read_size rest\<rparr>)
                               })
                          }
                        })))"

definition http_response_receive :: "char list \<Rightarrow> http_response_t option option" where
  "http_response_receive data =
     (if data = [] then Some None else http_response_parse (cstr (take (FULLMSG_MAX_SIZE - 1) data)))"

subsection \<open>Sending\<close>

text \<open>Text that does not fit the body of an outbound message with its terminator is a buffer overflow.\<close>

definition out_append :: "http_outbound_t \<Rightarrow> string \<Rightarrow> http_outbound_t option" where
  "out_append msg s =
     (if length (out_body msg) + length s \<le> HTTP_MSG_MAX_SIZE
      then Some (msg\<lparr>out_body := out_body msg @ s\<rparr>) else None)"

definition http_outbound_init_request :: "http_method_t \<Rightarrow> string \<Rightarrow> http_outbound_t option option" where
  "http_outbound_init_request method url =
     (case http_method_to_string method of
        None \<Rightarrow> Some None
      | Some method_str \<Rightarrow>
          map_option Some (out_append \<lparr>out_body = []\<rparr> (method_str @ '' '' @ url @ '' HTTP/1.1'' @ [CR, LF])))"

definition http_outbound_init_response :: "int \<Rightarrow> http_outbound_t option option" where
  "http_outbound_init_response status_code =
     (case http_get_response_message status_code of
        None \<Rightarrow> Some None
      | Some status \<Rightarrow>
          map_option Some (out_append \<lparr>out_body = []\<rparr>
            (''HTTP/1.1 '' @ dec (nat status_code) @ '' '' @ status @ [CR, LF])))"

definition http_outbound_add_header :: "http_outbound_t \<Rightarrow> string \<Rightarrow> string \<Rightarrow> http_outbound_t option" where
  "http_outbound_add_header msg k v = out_append msg (k @ '': '' @ v @ [CR, LF])"

definition http_outbound_end_headers :: "http_outbound_t \<Rightarrow> http_outbound_t option" where
  "http_outbound_end_headers msg = out_append msg [CR, LF]"

definition http_outbound_add_data :: "http_outbound_t \<Rightarrow> char list \<Rightarrow> nat \<Rightarrow> http_outbound_t option" where
  "http_outbound_add_data msg data sz = out_append msg (take sz data)"

definition http_outbound_add_string :: "http_outbound_t \<Rightarrow> string option \<Rightarrow> http_outbound_t option" where
  "http_outbound_add_string msg data =
     (case data of None \<Rightarrow> Some msg | Some s \<Rightarrow> http_outbound_add_data msg s (length s))"

text \<open>The results of the successive calls of \<^verbatim>\<open>write\<close> are an argument: each accepts some of the bytes left, or
  fails with a negative number.  The result is the return value and the bytes that went out; it is
  \<^const>\<open>None\<close> while \<^verbatim>\<open>write\<close> has not taken everything.\<close>

fun send_loop :: "int list \<Rightarrow> char list \<Rightarrow> char list \<Rightarrow> int \<Rightarrow> (int \<times> char list) option" where
  "send_loop ws sent [] ret = Some (ret, sent)"
| "send_loop [] sent left ret = None"
| "send_loop (w # ws) sent left ret =
     (if w < 0 then Some (w, sent)
      else send_loop ws (sent @ take (nat w) left) (drop (nat w) left) ret)"

definition http_outbound_send :: "int list \<Rightarrow> http_outbound_t \<Rightarrow> (int \<times> char list) option" where
  "http_outbound_send ws msg = send_loop ws [] (out_body msg) (int (length (out_body msg)))"

end
