(* ===== verification/KV_Message.thy ===== *)
theory KV_Message
  imports Lib_HTTP
begin

text \<open>
  The messages of the key-value servers, \<^verbatim>\<open>2PCKVStore/kvmessage.c\<close>: requests and responses, marshalled as
  HTTP messages.  The theory shows that what one server sends the other one decodes: requests whose key
  and value hold none of the characters that delimit a URL parameter, and all responses.
\<close>

record kvrequest_t =
  req_type :: msgtype_t
  req_key :: string
  req_val :: string

record kvresponse_t =
  resp_type :: msgtype_t
  resp_body :: string

subsection \<open>Requests\<close>

text \<open>\<open>Some (Some r)\<close> is a request that was received, \<open>Some None\<close> the error return.\<close>

definition kvrequest_receive :: "char list \<Rightarrow> kvrequest_t option option" where
  "kvrequest_receive data =
     (case http_request_receive data of
        None \<Rightarrow> Some None
      | Some req \<Rightarrow> do {
          params \<leftarrow> url_decode zero_params (req_path req);
          let k = key params;
          let v = val params;
          let kind =
            (case req_method req of
               GET \<Rightarrow> Some (if is_empty_str k then INDEX else GETREQ)
             | PUT \<Rightarrow> if is_empty_str k \<or> is_empty_str v then None else Some PUTREQ
             | DELETE \<Rightarrow> if is_empty_str k then None else Some DELREQ
             | POST \<Rightarrow>
                 if is_empty_str (path params) then None
                 else if path params = REGISTER_PATH then
                   (if is_empty_str k \<or> is_empty_str v then None else Some REGISTER)
                 else if path params = COMMIT_PATH then Some COMMIT
                 else if path params = ABORT_PATH then Some ABORT
                 else Some EMPTY
             | INVALID \<Rightarrow> None);
          Some (map_option (\<lambda>t. \<lparr>req_type = t, req_key = k, req_val = v\<rparr>) kind)
        })"

fun http_method_for_request_type :: "msgtype_t \<Rightarrow> http_method_t" where
  "http_method_for_request_type GETREQ = GET"
| "http_method_for_request_type PUTREQ = PUT"
| "http_method_for_request_type DELREQ = DELETE"
| "http_method_for_request_type REGISTER = POST"
| "http_method_for_request_type COMMIT = POST"
| "http_method_for_request_type ABORT = POST"
| "http_method_for_request_type t = INVALID"

fun path_for_request_type :: "msgtype_t \<Rightarrow> string" where
  "path_for_request_type REGISTER = ''register''"
| "path_for_request_type COMMIT = ''commit''"
| "path_for_request_type ABORT = ''abort''"
| "path_for_request_type t = []"

text \<open>The message of a request: \<open>Some None\<close> when its type is not that of a request.\<close>

definition kvrequest_message :: "kvrequest_t \<Rightarrow> http_outbound_t option option" where
  "kvrequest_message kvreq =
     (let method = http_method_for_request_type (req_type kvreq)
      in if method = INVALID then Some None
         else do {
           url \<leftarrow> url_encode \<lparr>path = path_for_request_type (req_type kvreq), key = req_key kvreq, val = req_val kvreq\<rparr>;
           msg \<leftarrow> http_outbound_init_request method url;
           (case msg of None \<Rightarrow> Some None | Some msg \<Rightarrow> map_option Some (http_outbound_end_headers msg))
         })"

definition kvrequest_send :: "int list \<Rightarrow> kvrequest_t \<Rightarrow> (int \<times> char list) option" where
  "kvrequest_send ws kvreq = do {
     msg \<leftarrow> kvrequest_message kvreq;
     (case msg of None \<Rightarrow> Some (- 1, []) | Some msg \<Rightarrow> http_outbound_send ws msg)
   }"

definition kvrequest_clear :: "kvrequest_t \<Rightarrow> kvrequest_t" where
  "kvrequest_clear req = \<lparr>req_type = EMPTY, req_key = [], req_val = []\<rparr>"

subsection \<open>Responses\<close>

definition kvresponse_get_status_code :: "int \<Rightarrow> msgtype_t" where
  "kvresponse_get_status_code status =
     (if status = 200 then GETRESP else if status = 201 then SUCCESS else if status = 500 then ERROR
      else if status = 202 then VOTE else if status = 204 then ACK else EMPTY)"

text \<open>A body longer than the body of a response overflows it.\<close>

definition kvresponse_receive :: "char list \<Rightarrow> kvresponse_t option option" where
  "kvresponse_receive data = do {
     res \<leftarrow> http_response_receive data;
     (case res of
        None \<Rightarrow> Some None
      | Some res \<Rightarrow>
          let t = kvresponse_get_status_code (res_status res)
          in if t = EMPTY then Some None
             else if length (res_body res) > KVRES_BODY_MAX_SIZE then None
             else Some (Some \<lparr>resp_type = t, resp_body = res_body res\<rparr>))
   }"

fun http_code_for_response_type :: "msgtype_t \<Rightarrow> int" where
  "http_code_for_response_type GETRESP = 200"
| "http_code_for_response_type SUCCESS = 201"
| "http_code_for_response_type ERROR = 500"
| "http_code_for_response_type VOTE = 202"
| "http_code_for_response_type ACK = 204"
| "http_code_for_response_type t = - 1"

definition kvresponse_message :: "kvresponse_t \<Rightarrow> http_outbound_t option option" where
  "kvresponse_message kvres =
     (let code = http_code_for_response_type (resp_type kvres)
      in if code < 0 then Some None
         else do {
           msg \<leftarrow> http_outbound_init_response code;
           (case msg of
              None \<Rightarrow> Some None
            | Some msg \<Rightarrow> do {
                let lenbuf = (if length (resp_body kvres) > 0 then dec (length (resp_body kvres)) else ''0'');
                msg \<leftarrow> http_outbound_add_header msg ''Content-Length'' lenbuf;
                msg \<leftarrow> http_outbound_end_headers msg;
                map_option Some (http_outbound_add_string msg (Some (resp_body kvres)))
              })
         })"

definition kvresponse_send :: "int list \<Rightarrow> kvresponse_t \<Rightarrow> (int \<times> char list) option" where
  "kvresponse_send ws kvres = do {
     msg \<leftarrow> kvresponse_message kvres;
     (case msg of None \<Rightarrow> Some (- 1, []) | Some msg \<Rightarrow> http_outbound_send ws msg)
   }"

definition kvresponse_clear :: "kvresponse_t \<Rightarrow> kvresponse_t" where
  "kvresponse_clear res = \<lparr>resp_type = EMPTY, resp_body = []\<rparr>"

subsection \<open>Sending\<close>

text \<open>A send that does not fail delivers the whole message, in order, however \<^verbatim>\<open>write\<close> splits it; one that
  fails has delivered a prefix.\<close>

lemma send_loop_sent:
  "send_loop ws sent left ret = Some (r, out) \<Longrightarrow> 0 \<le> ret \<Longrightarrow>
   (r < 0 \<longrightarrow> (\<exists>p q. out = sent @ p \<and> left = p @ q)) \<and> (0 \<le> r \<longrightarrow> r = ret \<and> out = sent @ left)"
proof (induction ws sent left ret rule: send_loop.induct)
  case (3 w ws sent c cs ret)
  show ?case
  proof (cases "w < 0")
    case False
    then show ?thesis using 3 by (auto simp: take_Cons' drop_Cons' split: if_splits) (metis append_take_drop_id)+
  qed (use 3 in auto)
qed auto

lemma send_loop_complete:
  "\<forall>w \<in> set ws. 0 < w \<Longrightarrow> length left \<le> length ws \<Longrightarrow> send_loop ws sent left ret = Some (ret, sent @ left)"
proof (induction ws sent left ret rule: send_loop.induct)
  case (3 w ws sent c cs ret)
  have "length (drop (nat w) (c # cs)) \<le> length ws" using "3.prems" by (auto simp: drop_Cons')
  with 3 show ?case by (simp del: take_Cons drop_Cons)
qed auto

subsection \<open>Requests arrive as they were sent\<close>

text \<open>Text that passes through a URL parameter of a request line unchanged.\<close>

definition param_text :: "string \<Rightarrow> bool" where
  "param_text s \<longleftrightarrow> cstring s \<and> CHR ''&'' \<notin> set s \<and> CHR '' '' \<notin> set s \<and> LF \<notin> set s"

definition kvreq_wf :: "kvrequest_t \<Rightarrow> bool" where
  "kvreq_wf r \<longleftrightarrow> param_text (req_key r) \<and> param_text (req_val r) \<and>
     length (req_key r) \<le> MAX_KEYLEN \<and> length (req_val r) \<le> MAX_VALLEN \<and>
     (case req_type r of
        GETREQ \<Rightarrow> req_key r \<noteq> [] | DELREQ \<Rightarrow> req_key r \<noteq> []
      | PUTREQ \<Rightarrow> req_key r \<noteq> [] \<and> req_val r \<noteq> [] | REGISTER \<Rightarrow> req_key r \<noteq> [] \<and> req_val r \<noteq> []
      | COMMIT \<Rightarrow> True | ABORT \<Rightarrow> True | _ \<Rightarrow> False)"

lemma read_path_append:
  "CHR '' '' \<notin> set s \<Longrightarrow> LF \<notin> set s \<Longrightarrow> read_path (s @ CHR '' '' # r) = Some s"
  by (induction s) auto

lemma http_request_receive_line:
  assumes "http_method_to_string m = Some ms" and "cstring url" "CHR '' '' \<notin> set url" "LF \<notin> set url"
    and "deref url = CHR ''/''" and "length url + length rest + 8 \<le> HTTP_MSG_MAX_SIZE" and "cstring rest"
  shows "http_request_receive (ms @ '' '' @ url @ '' '' @ rest) = Some \<lparr>req_method = m, req_path = url\<rparr>"
proof -
  have ms: "CHR '' '' \<notin> set ms" "length ms \<le> METHOD_MAX_SIZE" "http_method_from_string ms = m" "m \<noteq> INVALID" "cstring ms"
    using assms(1) by (cases m; auto simp: http_method_from_string_def METHOD_MAX_SIZE_def)+
  let ?data = "ms @ CHR '' '' # url @ CHR '' '' # rest"
  have "length ?data \<le> FULLMSG_MAX_SIZE - 1" "cstring ?data"
    using assms(2,6,7) ms(2,5) by (simp_all add: FULLMSG_MAX_SIZE_def METHOD_MAX_SIZE_def)
  then have rcv: "http_request_receive ?data = http_request_parse ?data"
    by (simp only: http_request_receive_def take_all cstr_cstring) simp
  have "url \<noteq> []" using assms(5) by (auto simp: deref_def)
  then have "deref (url @ CHR '' '' # rest) = CHR ''/''" "0 < length url"
    using assms(5) by (auto simp: deref_def split: list.splits)
  then show ?thesis
    using ms assms(3,4,6) read_path_append [of url rest] rcv
    by (simp add: http_request_parse_def strchr_append Let_def)
qed

text \<open>The whole path of a request: encoding, the HTTP message, its reception and decoding.\<close>

lemma kvrequest_roundtrip:
  assumes "kvreq_wf r"
  shows "\<exists>msg. kvrequest_message r = Some (Some msg) \<and> kvrequest_receive (out_body msg) = Some (Some r)"
proof -
  let ?p = "\<lparr>path = path_for_request_type (req_type r), key = req_key r, val = req_val r\<rparr>"
  have wf: "param_text (req_key r)" "param_text (req_val r)" "length (req_key r) \<le> MAX_KEYLEN" "length (req_val r) \<le> MAX_VALLEN"
    using assms by (simp_all add: kvreq_wf_def)
  have pth: "cstring (path ?p)" "set (path ?p) \<inter> {CHR ''?'', CHR '' '', LF} = {}" "length (path ?p) \<le> PATH_MAX_SIZE"
    by (cases "req_type r"; simp add: size_defs)+
  have "params_ok ?p" using wf pth by (simp add: params_ok_def param_text_def)
  then obtain url where url: "url_encode ?p = Some url" "url_decode zero_params url = Some ?p"
    using url_roundtrip [of ?p] wf pth by (auto simp: param_text_def)
  have url_eq: "url = ''/'' @ path ?p @ ''?key='' @ req_key r @ ''&val='' @ req_val r"
    using url(1) by (auto simp: url_encode_def Let_def butlast_append split: if_splits)
  have u: "cstring url" "CHR '' '' \<notin> set url" "LF \<notin> set url" "deref url = CHR ''/''" "length url \<le> 2067"
    using wf pth unfolding url_eq by (auto simp: param_text_def deref_def size_defs)
  obtain ms where ms: "http_method_to_string (http_method_for_request_type (req_type r)) = Some ms"
    "http_method_for_request_type (req_type r) \<noteq> INVALID" "length ms \<le> 6"
    using assms by (cases "req_type r") (auto simp: kvreq_wf_def)
  let ?m = "ms @ '' '' @ url @ '' '' @ ''HTTP/1.1'' @ [CR, LF, CR, LF]"
  have msg: "kvrequest_message r = Some (Some \<lparr>out_body = ?m\<rparr>)"
    using ms u(5) url(1)
    by (simp add: kvrequest_message_def http_outbound_init_request_def http_outbound_end_headers_def
        out_append_def size_defs Let_def)
  have "http_request_receive ?m = Some \<lparr>req_method = http_method_for_request_type (req_type r), req_path = url\<rparr>"
    using http_request_receive_line [OF ms(1) u(1-4), of "''HTTP/1.1'' @ [CR, LF, CR, LF]"] u(5)
    by (simp add: size_defs)
  then have "kvrequest_receive ?m = Some (Some r)"
    using url(2) assms
    by (cases r; cases "req_type r")
      (simp_all add: kvrequest_receive_def kvreq_wf_def is_empty_str_def REGISTER_PATH_def COMMIT_PATH_def
        ABORT_PATH_def MSG_COMMIT_def Let_def)
  with msg show ?thesis by auto
qed

subsection \<open>Responses arrive as they were sent\<close>

definition kvres_wf :: "kvresponse_t \<Rightarrow> bool" where
  "kvres_wf r \<longleftrightarrow> resp_type r \<in> {GETRESP, SUCCESS, ERROR, VOTE, ACK} \<and> cstring (resp_body r) \<and>
     length (resp_body r) \<le> KVRES_BODY_MAX_SIZE"

lemma line_end_CRLF:
  "CR \<notin> set s \<Longrightarrow> line_end (s @ CR # LF # r) = Some (CR # LF # r)"
  using strstr_first [of "[CR, LF]" CR "[LF]" s r] by (simp add: line_end_def)

lemma header_loop_content_length:
  assumes "n \<le> KVRES_BODY_MAX_SIZE"
  shows "header_loop (CR # LF # ''Content-Length: '' @ dec n @ CR # LF # CR # LF # body) i =
    Some (Some (CR # LF # CR # LF # body, int n))"
proof -
  let ?l = "CR # LF # CR # LF # body"
  let ?h = "''Content-Length: '' @ dec n @ ?l"
  have d: "CR \<notin> set (dec n)" "CHR '':'' \<notin> set (dec n)" using dec_is_digit [of CR n] dec_is_digit [of "CHR '':''" n] by (auto simp: is_digit_def)
  have le: "line_end ?h = Some ?l"
    using line_end_CRLF [of "''Content-Length: '' @ dec n" "CR # LF # body"] d by simp
  have col: "strstr ?h '': '' = Some ('': '' @ dec n @ ?l)"
    using strstr_first [of "'': ''" "CHR '':''" "'' ''" "''Content-Length''" "dec n @ ?l"] by simp
  have st: "strtol (dec n @ ?l) = (int n, ?l)"
    using assms by (intro strtol_dec) (auto simp: deref_def LONG_MAX_def size_defs)
  have fin: "header_loop ?l (int n) = Some (Some (?l, int n))"
    by (subst header_loop.simps) (simp add: strncmp_eq_def)
  show ?thesis
    using le col st fin by (subst header_loop.simps) (simp add: advance_def strncmp_eq_def)
qed


lemma http_get_response_message_type:
  assumes "t \<in> {GETRESP, SUCCESS, ERROR, VOTE, ACK}"
  obtains c s where "http_code_for_response_type t = int c" "http_get_response_message (int c) = Some s"
    "kvresponse_get_status_code (int c) = t" "100 \<le> c" "c < 1000" "CR \<notin> set s" "cstring s" "length s \<le> 30" "t \<noteq> EMPTY"
proof -
  have "\<exists>c s. http_code_for_response_type t = int c \<and> http_get_response_message (int c) = Some s \<and>
    kvresponse_get_status_code (int c) = t \<and> 100 \<le> c \<and> c < 1000 \<and> CR \<notin> set s \<and> cstring s \<and> length s \<le> 30 \<and> t \<noteq> EMPTY"
    using assms
    by (elim insertE emptyE)
      (simp_all add: http_get_response_message_def kvresponse_get_status_code_def exI [of _ "200 :: nat"])
  then show ?thesis using that by blast
qed


lemma length_dec3: "100 \<le> c \<Longrightarrow> c < 1000 \<Longrightarrow> length (dec c) = 3"
proof -
  assume "100 \<le> c" "c < 1000"
  then have "\<not> c < 10" "\<not> c div 10 < 10" "c div 10 div 10 < 10" by (simp_all add: div_less_iff_less_mult)
  then show ?thesis by (simp add: dec.simps [of c] dec.simps [of "c div 10"] dec.simps [of "c div 10 div 10"])
qed

lemma dec_0: "dec 0 = ''0''"
  by code_simp

lemma to_int_small: "c < 1000 \<Longrightarrow> to_int (int c) = int c"
  by (simp add: to_int_def signed_of_nat signed_take_bit_int_eq_self)

lemma http_response_parse_message:
  assumes "http_get_response_message (int c) = Some s" "100 \<le> c" "c < 1000" "CR \<notin> set s" "length s \<le> 30"
    and "n = length body" "n \<le> KVRES_BODY_MAX_SIZE"
  shows "http_response_parse (''HTTP/1.1 '' @ dec c @ '' '' @ s @ CR # LF # ''Content-Length: '' @ dec n @
      CR # LF # CR # LF # body) = Some (Some \<lparr>res_status = int c, res_body = body\<rparr>)"
proof -
  let ?h = "CR # LF # ''Content-Length: '' @ dec n @ CR # LF # CR # LF # body"
  let ?r = "dec c @ CHR '' '' # s @ ?h"
  let ?b = "''HTTP/1.1'' @ CHR '' '' # ?r"
  have sp: "strchr ?b (CHR '' '') = Some (CHR '' '' # ?r)" by (intro strchr_append) simp
  have st: "strtol ?r = (int c, CHR '' '' # s @ ?h)"
    using assms(3) by (intro strtol_dec) (auto simp: deref_def LONG_MAX_def)
  have le: "line_end (s @ ?h) = Some ?h" using assms(4) by (rule line_end_CRLF)
  have hl: "header_loop ?h (- 1) = Some (Some (CR # LF # CR # LF # body, int n))"
    using assms(7) by (rule header_loop_content_length)
  have sz: "to_size (int n) = n" using assms(7) by (intro to_size_nat) (simp add: size_defs)
  have dn: "length (dec n) \<le> 2" using assms(7) by (intro length_dec) (simp_all add: size_defs)
  show ?thesis
    using sp st le hl sz dn assms length_dec3 [of c] to_int_small [of c]
    by (simp add: http_response_parse_def Let_def deref_def strncmp_eq_def advance_def FULLMSG_MAX_SIZE_def size_defs)
qed

lemma kvresponse_roundtrip:
  assumes "kvres_wf r"
  shows "\<exists>msg. kvresponse_message r = Some (Some msg) \<and> kvresponse_receive (out_body msg) = Some (Some r)"
proof -
  let ?n = "length (resp_body r)" and ?b = "resp_body r"
  have wf: "resp_type r \<in> {GETRESP, SUCCESS, ERROR, VOTE, ACK}" "cstring ?b" "?n \<le> KVRES_BODY_MAX_SIZE"
    using assms by (simp_all add: kvres_wf_def)
  from wf(1) obtain c s where c: "http_code_for_response_type (resp_type r) = int c"
      "http_get_response_message (int c) = Some s" "kvresponse_get_status_code (int c) = resp_type r"
      "100 \<le> c" "c < 1000" "CR \<notin> set s" "cstring s" "length s \<le> 30" "resp_type r \<noteq> EMPTY"
    by (rule http_get_response_message_type)
  let ?m = "''HTTP/1.1 '' @ dec c @ '' '' @ s @ CR # LF # ''Content-Length: '' @ dec ?n @ CR # LF # CR # LF # ?b"
  have l: "length (dec c) = 3" "length (dec ?n) \<le> 2"
    using c(4,5) length_dec3 wf(3) by (auto simp: size_defs intro!: length_dec)
  have lb: "(if 0 < ?n then dec ?n else ''0'') = dec ?n" by (simp add: dec_0)
  have msg: "kvresponse_message r = Some (Some \<lparr>out_body = ?m\<rparr>)"
    using c(1,2,8) l wf(3)
    by (simp add: kvresponse_message_def lb http_outbound_init_response_def http_outbound_add_header_def
        http_outbound_end_headers_def http_outbound_add_string_def http_outbound_add_data_def out_append_def
        size_defs Let_def del: length_greater_0_conv)
  have "length ?m \<le> FULLMSG_MAX_SIZE - 1" "cstring ?m"
    using l c(7,8) wf(2,3) by (simp_all add: FULLMSG_MAX_SIZE_def size_defs)
  then have "http_response_receive ?m = http_response_parse ?m"
    by (simp only: http_response_receive_def take_all cstr_cstring) simp
  then have "http_response_receive ?m = Some (Some \<lparr>res_status = int c, res_body = ?b\<rparr>)"
    using http_response_parse_message [OF c(2,4-6,8) refl wf(3)] by simp
  then have "kvresponse_receive ?m = Some (Some r)"
    using c(3,9) wf(3) by (simp add: kvresponse_receive_def)
  with msg show ?thesis by auto
qed

subsection \<open>What a server decodes is well formed\<close>

text \<open>Whatever bytes arrive, receiving a request is safe, and its key and value respect the limits.\<close>

lemma read_path_props: "read_path s = Some p \<Longrightarrow> \<exists>c r. s = p @ c # r \<and> (c = CHR '' '' \<or> c = LF)"
  by (induction s arbitrary: p) (auto split: if_splits)

lemma http_request_path:
  assumes "http_request_receive data = Some req"
  shows "cstring (req_path req) \<and> deref (req_path req) = CHR ''/'' \<and> length (req_path req) \<le> HTTP_MSG_MAX_SIZE"
proof -
  let ?b = "cstr (take (FULLMSG_MAX_SIZE - 1) data)"
  obtain sp p where sp: "strchr ?b (CHR '' '') = Some sp" "deref (drop 1 sp) = CHR ''/''"
      "read_path (drop 1 sp) = Some p" "p \<noteq> []" "req_path req = take (min (length p) HTTP_MSG_MAX_SIZE) p"
    using assms by (auto simp: http_request_receive_def http_request_parse_def Let_def
        split: if_splits bind_splits)
  obtain c r where cr: "drop 1 sp = p @ c # r" using read_path_props [OF sp(3)] by blast
  have "cstring (p @ c # r)" using strchr_cstring [OF cstring_cstr sp(1)] cr by (metis cstring_take(2))
  moreover have "deref p = CHR ''/''" using sp(2,4) cr by (cases p) (auto simp: deref_def)
  ultimately show ?thesis using sp(4,5) by (cases p) (auto simp: deref_def size_defs take_Cons')
qed

lemma kvrequest_receive_safe:
  "\<exists>r. kvrequest_receive data = Some r \<and>
     (\<forall>q. r = Some q \<longrightarrow> cstring (req_key q) \<and> length (req_key q) \<le> MAX_KEYLEN \<and>
        cstring (req_val q) \<and> length (req_val q) \<le> MAX_VALLEN)"
proof (cases "http_request_receive data")
  case None
  then show ?thesis by (simp add: kvrequest_receive_def)
next
  case (Some req)
  have "params_ok zero_params" by (simp add: params_ok_def zero_params_def)
  then obtain params where "url_decode zero_params (req_path req) = Some params" "params_ok params"
    using url_decode_ok [of "req_path req" zero_params] http_request_path [OF Some] by (auto simp: size_defs)
  then show ?thesis using Some by (auto simp: kvrequest_receive_def params_ok_def Let_def)
qed


text \<open>A message fits in the number of single-byte writes its buffer has room for.\<close>

lemma out_append_length: "out_append msg s = Some msg' \<Longrightarrow> length (out_body msg') \<le> HTTP_MSG_MAX_SIZE"
  by (auto simp: out_append_def split: if_splits)

lemma http_outbound_send_complete:
  assumes "\<forall>w \<in> set ws. 0 < w" and "HTTP_MSG_MAX_SIZE \<le> length ws" and "length (out_body msg) \<le> HTTP_MSG_MAX_SIZE"
  shows "http_outbound_send ws msg = Some (int (length (out_body msg)), out_body msg)"
  using send_loop_complete [of ws "out_body msg" "[]"] assms by (simp add: http_outbound_send_def)

lemma kvrequest_message_length: "kvrequest_message r = Some (Some msg) \<Longrightarrow> length (out_body msg) \<le> HTTP_MSG_MAX_SIZE"
  by (auto simp: kvrequest_message_def http_outbound_end_headers_def Let_def out_append_length
      split: if_splits bind_splits option.splits)

lemma kvresponse_message_length: "kvresponse_message r = Some (Some msg) \<Longrightarrow> length (out_body msg) \<le> HTTP_MSG_MAX_SIZE"
  by (auto simp: kvresponse_message_def http_outbound_add_string_def http_outbound_add_data_def Let_def out_append_length
      split: if_splits bind_splits option.splits)

subsection \<open>Properties\<close>

text \<open>C15: a well-formed request (its type is one that is sent, its key and value respect the limits and hold no
  NUL, space, newline or ampersand) is sent without overflowing a buffer, however \<^verbatim>\<open>write\<close> splits it, and the
  receiver decodes the same type, key and value.\<close>

theorem kvrequest_delivered:
  assumes "kvreq_wf r" and "\<forall>w \<in> set ws. 0 < w" and "HTTP_MSG_MAX_SIZE \<le> length ws"
  shows "\<exists>bytes. kvrequest_send ws r = Some (int (length bytes), bytes) \<and> kvrequest_receive bytes = Some (Some r)"
  using kvrequest_roundtrip [OF assms(1)] http_outbound_send_complete [OF assms(2,3)] kvrequest_message_length [of r]
  by (auto simp: kvrequest_send_def)

theorem kvrequest_delivered_witness:
  "\<exists>bytes. kvrequest_send (replicate 2116 1) \<lparr>req_type = PUTREQ, req_key = ''a=b?'', req_val = ''7''\<rparr> =
       Some (int (length bytes), bytes) \<and>
     kvrequest_receive bytes = Some (Some \<lparr>req_type = PUTREQ, req_key = ''a=b?'', req_val = ''7''\<rparr>)"
  using kvrequest_delivered [of "\<lparr>req_type = PUTREQ, req_key = ''a=b?'', req_val = ''7''\<rparr>" "replicate 2116 1"]
  by (simp add: kvreq_wf_def param_text_def size_defs)

text \<open>C24: every response with a body of at most 40 bytes is sent without overflowing a buffer, however \<^verbatim>\<open>write\<close>
  splits it, and the receiver decodes the same type and body.\<close>

theorem kvresponse_delivered:
  assumes "kvres_wf r" and "\<forall>w \<in> set ws. 0 < w" and "HTTP_MSG_MAX_SIZE \<le> length ws"
  shows "\<exists>bytes. kvresponse_send ws r = Some (int (length bytes), bytes) \<and> kvresponse_receive bytes = Some (Some r)"
  using kvresponse_roundtrip [OF assms(1)] http_outbound_send_complete [OF assms(2,3)] kvresponse_message_length [of r]
  by (auto simp: kvresponse_send_def)

theorem kvresponse_delivered_witness:
  "\<exists>bytes. kvresponse_send (replicate 2116 5) \<lparr>resp_type = VOTE, resp_body = MSG_COMMIT\<rparr> =
       Some (int (length bytes), bytes) \<and>
     kvresponse_receive bytes = Some (Some \<lparr>resp_type = VOTE, resp_body = MSG_COMMIT\<rparr>)"
  using kvresponse_delivered [of "\<lparr>resp_type = VOTE, resp_body = MSG_COMMIT\<rparr>" "replicate 2116 5"]
  by (simp add: kvres_wf_def MSG_COMMIT_def size_defs)



text \<open>C34: a send either delivers the whole message and returns its length, or returns a negative number after
  delivering a prefix of it.\<close>

theorem http_outbound_send_all_or_error:
  assumes "http_outbound_send ws msg = Some (ret, sent)"
  shows "(0 \<le> ret \<longrightarrow> ret = int (length (out_body msg)) \<and> sent = out_body msg) \<and>
    (ret < 0 \<longrightarrow> (\<exists>rest. out_body msg = sent @ rest))"
  using send_loop_sent [of ws "[]" "out_body msg" "int (length (out_body msg))" ret sent] assms
  by (auto simp: http_outbound_send_def)

theorem http_outbound_send_all_or_error_witness:
  "http_outbound_send [3, 0, -1] \<lparr>out_body = ''hello''\<rparr> = Some (-1, ''hel'') \<and>
   (\<exists>rest. ''hello'' = ''hel'' @ rest)"
proof -
  have "http_outbound_send [3, 0, -1] \<lparr>out_body = ''hello''\<rparr> = Some (-1, ''hel'')"
    by (simp add: http_outbound_send_def)
  then show ?thesis using http_outbound_send_all_or_error [of "[3, 0, -1]" "\<lparr>out_body = ''hello''\<rparr>" "-1" "''hel''"] by simp
qed

text \<open>C33: decoding the URL that was encoded gives back the path, the key and the value, for every path without a
  question mark and every key and value without an ampersand, all within their limits.\<close>

theorem url_encode_decode:
  assumes "params_ok p" and "CHR ''?'' \<notin> set (path p)" and "CHR ''&'' \<notin> set (key p)" and "CHR ''&'' \<notin> set (val p)"
  shows "\<exists>url. url_encode p = Some url \<and> url_decode zero_params url = Some p"
  using assms by (rule url_roundtrip)

theorem url_encode_decode_witness:
  "\<exists>url. url_encode \<lparr>path = ''commit'', key = ''a=b'', val = []\<rparr> = Some url \<and>
     url_decode zero_params url = Some \<lparr>path = ''commit'', key = ''a=b'', val = []\<rparr>"
  using url_encode_decode [of "\<lparr>path = ''commit'', key = ''a=b'', val = []\<rparr>"] by (simp add: params_ok_def size_defs)

end
