(* ===== verification/TPC_Follower.thy ===== *)
theory TPC_Follower
  imports TPC_Log KV_Message
begin

text \<open>
  The follower of the two-phase commit protocol, \<^verbatim>\<open>2PCKVStore/tpcfollower.c\<close>: a store and a log in one
  directory, and the handler of incoming requests.  The fields of \<^verbatim>\<open>tpcfollower_t\<close> that no operation of
  the file reads (the pending message, the socket) are left out.

  Memory the code leaves uninitialised is an argument: \<open>res\<close> is what the response on the handler's stack
  holds before it is filled, \<open>junk\<close> the rest of a new log entry.  The page sent for the index is built
  outside the sources and is the parameter \<open>index_payload\<close>.
\<close>

record tpcfollower_t =
  fl_store :: kvstore_t
  fl_log :: tpclog_t
  fl_state :: tpc_state_t
  fl_max_threads :: nat
  fl_port :: int
  fl_hostname :: string

definition HOSTNAME_SIZE :: nat where "HOSTNAME_SIZE = 64"

subsection \<open>Initialisation and registration\<close>

definition tpcfollower_rebuild_state :: "tpcfollower_t \<Rightarrow> int" where
  "tpcfollower_rebuild_state server = - 1"

text \<open>\<^verbatim>\<open>kvstore_init\<close> and \<^verbatim>\<open>tpclog_init\<close> report a failure with a positive error number, which the tests
  \<open>ret < 0\<close> let pass: the follower then goes on with an uninitialised store or log, which is undefined.\<close>

definition tpcfollower_init :: "fs \<Rightarrow> string \<Rightarrow> nat \<Rightarrow> string \<Rightarrow> int \<Rightarrow>
    (int \<times> tpcfollower_t option \<times> fs) option" where
  "tpcfollower_init fs dirname max_threads hostname port =
     (let (ret, store, fs) = kvstore_init fs dirname
      in if ret < 0 then Some (ret, None, fs)
         else do {
           (ret, log, fs) \<leftarrow> tpclog_init fs dirname;
           if ret < 0 then Some (ret, None, fs)
           else if length hostname \<ge> HOSTNAME_SIZE then None
           else do {
             store \<leftarrow> store;
             log \<leftarrow> log;
             Some (0, Some \<lparr>fl_store = store, fl_log = log, fl_state = TPC_INIT, fl_max_threads = max_threads,
                            fl_port = port, fl_hostname = hostname\<rparr>, fs)
           }
         })"

text \<open>The registration request of a follower and its test of the answer.\<close>

definition register_request :: "tpcfollower_t \<Rightarrow> kvrequest_t" where
  "register_request server = \<lparr>req_type = REGISTER, req_key = fl_hostname server,
     req_val = (if fl_port server < 0 then ''-'' @ dec (nat (- fl_port server)) else dec (nat (fl_port server)))\<rparr>"

definition tpcfollower_register_leader :: "int list \<Rightarrow> char list \<Rightarrow> kvresponse_t \<Rightarrow> tpcfollower_t \<Rightarrow> (bool \<times> char list) option" where
  "tpcfollower_register_leader ws answer res server = do {
     (_, sent) \<leftarrow> kvrequest_send ws (register_request server);
     r \<leftarrow> kvresponse_receive answer;
     Some (resp_type (case r of Some r \<Rightarrow> r | None \<Rightarrow> res) = SUCCESS, sent)
   }"

subsection \<open>Store operations\<close>

definition tpcfollower_get :: "fs \<Rightarrow> tpcfollower_t \<Rightarrow> string \<Rightarrow> (int \<times> string option) option" where
  "tpcfollower_get fs server k =
     (if length k > MAX_KEYLEN then Some (ERR_KEYLEN, None) else kvstore_get fs (fl_store server) k)"

definition tpcfollower_put_check :: "fs \<Rightarrow> tpcfollower_t \<Rightarrow> string \<Rightarrow> string \<Rightarrow> int" where
  "tpcfollower_put_check fs server k v =
     (if length k > MAX_KEYLEN \<or> length k = 0 then ERR_KEYLEN
      else if length v > MAX_VALLEN then ERR_VALLEN
      else let check = kvstore_put_check fs (fl_store server) k v
           in if check < 0 then check else 0)"

definition tpcfollower_put :: "fs \<Rightarrow> tpcfollower_t \<Rightarrow> string \<Rightarrow> string \<Rightarrow> (int \<times> fs) option" where
  "tpcfollower_put fs server k v =
     (let ret = tpcfollower_put_check fs server k v
      in if ret < 0 then Some (ret, fs) else kvstore_put fs (fl_store server) k v)"

definition tpcfollower_del_check :: "fs \<Rightarrow> tpcfollower_t \<Rightarrow> string \<Rightarrow> int option" where
  "tpcfollower_del_check fs server k =
     (if length k > MAX_KEYLEN \<or> length k = 0 then Some ERR_KEYLEN
      else do {
        check \<leftarrow> kvstore_del_check fs (fl_store server) k;
        Some (if check < 0 then check else 0)
      })"

definition tpcfollower_del :: "fs \<Rightarrow> tpcfollower_t \<Rightarrow> string \<Rightarrow> (int \<times> fs) option" where
  "tpcfollower_del fs server k = do {
     ret \<leftarrow> tpcfollower_del_check fs server k;
     if ret < 0 then Some (ret, fs) else kvstore_del fs (fl_store server) k
   }"

definition tpcfollower_clean :: "fs \<Rightarrow> tpcfollower_t \<Rightarrow> string list \<Rightarrow> int \<times> fs" where
  "tpcfollower_clean fs server names = kvstore_clean fs (fl_store server) names"

subsection \<open>The handlers\<close>

text \<open>\<open>strcpy\<close> into a response body: more than 40 characters overflow it.\<close>

definition set_body :: "kvresponse_t \<Rightarrow> msgtype_t \<Rightarrow> string \<Rightarrow> kvresponse_t option" where
  "set_body res t s =
     (if length s \<le> KVRES_BODY_MAX_SIZE then Some (res\<lparr>resp_type := t, resp_body := s\<rparr>) else None)"

definition tpcfollower_handle_tpc :: "fs \<Rightarrow> tpcfollower_t \<Rightarrow> kvrequest_t \<Rightarrow> kvresponse_t \<Rightarrow> char list \<Rightarrow>
    (kvresponse_t \<times> tpcfollower_t \<times> fs) option" where
  "tpcfollower_handle_tpc fs server req res junk =
     (let t = req_type req; k = req_key req; v = req_val req
      in if t = GETREQ then do {
           (ret_code, found) \<leftarrow> tpcfollower_get fs server k;
           res \<leftarrow> (if ret_code < 0 then set_body res ERROR (GETMSG ret_code)
                   else do {
                     found \<leftarrow> found;
                     if length found > MAX_VALLEN then None else set_body res GETRESP found
                   });
           Some (res, server, fs)
         }
         else if t = PUTREQ \<or> t = DELREQ then do {
           (ret_code, log, fs) \<leftarrow> tpclog_log fs (fl_log server) t (Some k) (Some v) junk;
           let server = server\<lparr>fl_log := log\<rparr>;
           if ret_code < 0 then do {
             res \<leftarrow> set_body res VOTE (GETMSG ret_code);
             Some (res, server, fs)
           }
           else do {
             (ret_code, fs) \<leftarrow> (if t = PUTREQ then tpcfollower_put fs server k v else tpcfollower_del fs server k);
             res \<leftarrow> (if ret_code < 0 then set_body res VOTE (GETMSG ret_code) else set_body res VOTE MSG_COMMIT);
             Some (res, server, fs)
           }
         }
         else if t = COMMIT \<or> t = ABORT then do {
           (ret_code, log, fs) \<leftarrow> tpclog_log fs (fl_log server) t (Some k) (Some v) junk;
           Some (if ret_code = 0 then res\<lparr>resp_type := ACK\<rparr> else res, server\<lparr>fl_log := log\<rparr>, fs)
         }
         else do {
           res \<leftarrow> set_body res ERROR ERRMSG_NOT_IMPLEMENTED;
           Some (res, server, fs)
         })"

text \<open>\<^verbatim>\<open>index_send\<close> of \<^verbatim>\<open>index.h\<close>: the page, as far as \<^verbatim>\<open>write\<close> takes it, and the script line.\<close>

definition index_script :: "bool \<Rightarrow> string" where
  "index_script leader = ''<script>setServerType('' @ [CHR 0x27] @ (if leader then ''leader'' else ''follower'') @
     [CHR 0x27] @ '');</script>''"

definition index_send :: "int list \<Rightarrow> char list \<Rightarrow> bool \<Rightarrow> char list option" where
  "index_send ws index_payload leader = do {
     (_, sent) \<leftarrow> send_loop ws [] index_payload 0;
     Some (sent @ index_script leader)
   }"

text \<open>The entry point: the bytes of a request in, the bytes of the response out.\<close>

definition tpcfollower_handle :: "char list \<Rightarrow> int list \<Rightarrow> fs \<Rightarrow> tpcfollower_t \<Rightarrow> char list \<Rightarrow> kvresponse_t \<Rightarrow> char list \<Rightarrow>
    (char list \<times> tpcfollower_t \<times> fs) option" where
  "tpcfollower_handle index_payload ws fs server data res junk = do {
     req \<leftarrow> kvrequest_receive data;
     (case req of
        None \<Rightarrow> do {
          res \<leftarrow> set_body res ERROR ERRMSG_INVALID_REQUEST;
          (_, sent) \<leftarrow> kvresponse_send ws res;
          Some (sent, server, fs)
        }
      | Some req \<Rightarrow>
          if req_type req = INDEX then do {
            sent \<leftarrow> index_send ws index_payload False;
            Some (sent, server, fs)
          }
          else do {
            (res, server, fs) \<leftarrow> tpcfollower_handle_tpc fs server req res junk;
            (_, sent) \<leftarrow> kvresponse_send ws res;
            Some (sent, server, fs)
          })
   }"

subsection \<open>The follower's promise\<close>

text \<open>What a follower holds: a map and the log of the requests of the two phases.\<close>

type_synonym fstate = "(string \<rightharpoonup> string) \<times> logrec list"

definition follower_rep :: "fs \<Rightarrow> tpcfollower_t \<Rightarrow> fstate \<Rightarrow> bool" where
  "follower_rep fs server st \<longleftrightarrow>
     kv_rep fs (fl_store server) (fst st) \<and> log_rep fs (fl_log server) (snd st) \<and>
     kv_dirname (fl_store server) = log_dirname (fl_log server)"

text \<open>What a request should do to it: the response, as type and body, and the new state.  A \<^const>\<open>COMMIT\<close> or an
  \<^const>\<open>ABORT\<close> is answered with whatever text the response held.\<close>

definition follower_spec :: "fstate \<Rightarrow> kvrequest_t \<Rightarrow> string \<Rightarrow> (msgtype_t \<times> string) \<times> fstate" where
  "follower_spec st req old = (let (m, es) = st; k = req_key req; v = req_val req;
       logged = es @ [(req_type req, log_payload (req_type req) k v)]
     in case req_type req of
       GETREQ \<Rightarrow> (case m k of None \<Rightarrow> (ERROR, ERRMSG_NO_KEY) | Some w \<Rightarrow> (GETRESP, w), st)
     | PUTREQ \<Rightarrow> ((VOTE, MSG_COMMIT), (m(k \<mapsto> v), logged))
     | DELREQ \<Rightarrow> ((VOTE, if m k = None then ERRMSG_NO_KEY else MSG_COMMIT), (m(k := None), logged))
     | COMMIT \<Rightarrow> ((ACK, old), (m, logged))
     | ABORT \<Rightarrow> ((ACK, old), (m, logged))
     | _ \<Rightarrow> ((ERROR, ERRMSG_NOT_IMPLEMENTED), st))"

text \<open>The requests the promise covers: a stored value that is looked up fits the body of a response, and store
  and log have room.\<close>

definition request_ok :: "fstate \<Rightarrow> kvrequest_t \<Rightarrow> bool" where
  "request_ok st req \<longleftrightarrow> key_ok (req_key req) \<and> val_ok (req_val req) \<and>
     (req_type req = PUTREQ \<or> req_type req = DELREQ \<longrightarrow> req_key req \<noteq> []) \<and>
     (req_type req = GETREQ \<longrightarrow> (case fst st (req_key req) of None \<Rightarrow> True | Some v \<Rightarrow> length v \<le> KVRES_BODY_MAX_SIZE)) \<and>
     card (dom (fst st)) < nat INT_MAX \<and> Suc (length (snd st)) < 2 ^ 64"

subsection \<open>Store operations through the follower\<close>

lemma tpcfollower_get_rep:
  assumes "kv_rep fs (fl_store server) m" and "key_ok k"
  shows "tpcfollower_get fs server k = Some (case m k of None \<Rightarrow> (ERR_NOKEY, None) | Some v \<Rightarrow> (0, Some v))"
  using kvstore_get_rep [OF assms] assms(2) by (simp add: tpcfollower_get_def)

lemma kv_rep_dir: "kv_rep fs store m \<Longrightarrow> stat fs (kv_dirname store)"
  by (auto simp: kv_rep_def kv_chains_def kv_layout_def stat_def)

lemma tpcfollower_put_rep:
  assumes "kv_rep fs (fl_store server) m" and "key_ok k \<and> k \<noteq> []" and "val_ok v" and "card (dom m) < nat INT_MAX"
  shows "\<exists>fs'. tpcfollower_put fs server k v = Some (0, fs') \<and> kv_rep fs' (fl_store server) (m(k \<mapsto> v)) \<and>
           entry_frame fs fs' (kv_dirname (fl_store server))"
  using kvstore_put_rep [OF assms(1) _ assms(3,4), of k] kvstore_put_frame [of fs "fl_store server" k v] kv_rep_dir [OF assms(1)] assms(2,3)
  by (auto simp: tpcfollower_put_def tpcfollower_put_check_def kvstore_put_check_def Let_def)

lemma tpcfollower_del_rep:
  assumes rep: "kv_rep fs (fl_store server) m" and k: "key_ok k \<and> k \<noteq> []"
  shows "\<exists>fs'. tpcfollower_del fs server k = Some (if m k = None then ERR_NOKEY else 0, fs') \<and>
           kv_rep fs' (fl_store server) (m(k := None)) \<and> entry_frame fs fs' (kv_dirname (fl_store server))"
proof -
  have check: "tpcfollower_del_check fs server k = Some (if m k = None then ERR_NOKEY else 0)"
    using kvstore_haskey_rep [OF rep, of k] kv_rep_dir [OF rep] k
    by (auto simp: tpcfollower_del_check_def kvstore_del_check_def err_defs)
  show ?thesis
  proof (cases "m k")
    case None
    then have "m(k := None) = m" by auto
    with None check rep show ?thesis by (simp add: tpcfollower_del_def err_defs entry_frame_def)
  next
    case (Some v)
    then show ?thesis
      using kvstore_del_rep [OF rep, of k] kvstore_del_frame [OF rep, of k] k check by (auto simp: tpcfollower_del_def)
  qed
qed

text \<open>The follower offers the interface of a store, for keys that are not empty.\<close>

interpretation fol: map_store "\<lambda>fs. tpcfollower_get fs server" "\<lambda>fs. tpcfollower_put fs server"
  "\<lambda>fs. tpcfollower_del fs server" "\<lambda>fs. kv_rep fs (fl_store server)" "\<lambda>k. key_ok k \<and> k \<noteq> []" val_ok "nat INT_MAX" ERR_NOKEY
  for server
  using kv_rep_finite tpcfollower_get_rep tpcfollower_put_rep tpcfollower_del_rep by unfold_locales blast+

subsection \<open>The handler implements the promise\<close>

lemma follower_rep_log:
  assumes "follower_rep fs server (m, es)" and "log_rep (write_file fs (log_file d n) bs) log es'"
    and "log_dirname log = log_dirname (fl_log server)"
  shows "follower_rep (write_file fs (log_file d n) bs) (server\<lparr>fl_log := log\<rparr>) (m, es')"
  using assms kv_rep_log_write by (auto simp: follower_rep_def)

text \<open>Logging a request of either phase.\<close>

lemma follower_log:
  assumes rep: "follower_rep fs server (m, es)" and t: "loggable t" and kv: "key_ok k" "val_ok v"
    and room: "Suc (length es) < 2 ^ 64" and junk: "length junk = sizeof_logentry - 8"
  shows "\<exists>log fs'. tpclog_log fs (fl_log server) t (Some k) (Some v) junk = Some (0, log, fs') \<and>
           follower_rep fs' (server\<lparr>fl_log := log\<rparr>) (m, es @ [(t, log_payload t k v)])"
proof -
  have lr: "log_rep fs (fl_log server) es" using rep by (simp add: follower_rep_def)
  from tpclog_log_rep [OF lr t room _ _ junk, of "Some k" k "Some v" v] kv
  obtain bs where "tpclog_log fs (fl_log server) t (Some k) (Some v) junk =
      Some (0, fl_log server\<lparr>nextid := nextid (fl_log server) + 1\<rparr>,
        write_file fs (log_file (log_dirname (fl_log server)) (nextid (fl_log server))) bs)"
    "log_rep (write_file fs (log_file (log_dirname (fl_log server)) (nextid (fl_log server))) bs)
      (fl_log server\<lparr>nextid := nextid (fl_log server) + 1\<rparr>) (es @ [(t, log_payload t k v)])"
    by auto
  then show ?thesis using follower_rep_log [OF rep] by auto
qed

lemma follower_rep_store:
  assumes "follower_rep fs server (m, es)" and "kv_rep fs' (fl_store server) m'"
    and "entry_frame fs fs' (kv_dirname (fl_store server))"
  shows "follower_rep fs' server (m', es)"
  using assms log_rep_entry_frame by (auto simp: follower_rep_def)

lemma set_body_msg: "length s \<le> KVRES_BODY_MAX_SIZE \<Longrightarrow> set_body res t s = Some (res\<lparr>resp_type := t, resp_body := s\<rparr>)"
  by (simp add: set_body_def)

lemmas body_msgs [simp] = set_body_msg [of "GETMSG e", OF GETMSG_length] for e

lemma short_msgs [simp]:
  "length MSG_COMMIT \<le> KVRES_BODY_MAX_SIZE" "length ERRMSG_NOT_IMPLEMENTED \<le> KVRES_BODY_MAX_SIZE"
  "length ERRMSG_INVALID_REQUEST \<le> KVRES_BODY_MAX_SIZE" "length ERRMSG_NO_KEY \<le> KVRES_BODY_MAX_SIZE"
  by (simp_all add: msg_defs size_defs)

lemma GETMSG_nokey [simp]: "GETMSG ERR_NOKEY = ERRMSG_NO_KEY"
  by (simp add: GETMSG_def err_defs)

lemma follower_handle_get:
  assumes "follower_rep fs server st" and "request_ok st req" and "req_type req = GETREQ"
  shows "\<exists>r st'. follower_spec st req (resp_body res) = (r, st') \<and>
    tpcfollower_handle_tpc fs server req res junk = Some (\<lparr>resp_type = fst r, resp_body = snd r\<rparr>, server, fs) \<and>
    follower_rep fs server st'"
  using assms tpcfollower_get_rep [of fs server "fst st" "req_key req"]
  by (cases st; cases "fst st (req_key req)"; cases res)
    (auto simp: tpcfollower_handle_tpc_def follower_spec_def request_ok_def follower_rep_def set_body_def err_defs size_defs
      GETMSG_def msg_defs)

lemma follower_handle_put:
  assumes rep: "follower_rep fs server (m, es)" and ok: "request_ok (m, es) req" and t: "req_type req = PUTREQ"
    and junk: "length junk = sizeof_logentry - 8"
  shows "\<exists>server' fs'. tpcfollower_handle_tpc fs server req res junk =
      Some (res\<lparr>resp_type := VOTE, resp_body := MSG_COMMIT\<rparr>, server', fs') \<and>
    follower_rep fs' server' (m(req_key req \<mapsto> req_val req), es @ [(PUTREQ, log_payload PUTREQ (req_key req) (req_val req))])"
proof -
  let ?k = "req_key req" and ?v = "req_val req"
  have kv: "key_ok ?k" "val_ok ?v" "?k \<noteq> []" "Suc (length es) < 2 ^ 64" "card (dom m) < nat INT_MAX"
    using ok t by (auto simp: request_ok_def)
  obtain log fs1 where l: "tpclog_log fs (fl_log server) PUTREQ (Some ?k) (Some ?v) junk = Some (0, log, fs1)"
      "follower_rep fs1 (server\<lparr>fl_log := log\<rparr>) (m, es @ [(PUTREQ, log_payload PUTREQ ?k ?v)])"
    using follower_log [OF rep, of PUTREQ ?k ?v junk] kv junk by (auto simp: loggable_def)
  obtain fs2 where "tpcfollower_put fs1 (server\<lparr>fl_log := log\<rparr>) ?k ?v = Some (0, fs2)"
      "kv_rep fs2 (fl_store server) (m(?k \<mapsto> ?v))" "entry_frame fs1 fs2 (kv_dirname (fl_store server))"
    using tpcfollower_put_rep [of fs1 "server\<lparr>fl_log := log\<rparr>" m ?k ?v] l(2) kv by (auto simp: follower_rep_def)
  with l t show ?thesis
    using follower_rep_store [OF l(2), of fs2 "m(?k \<mapsto> ?v)"]
    by (auto simp: tpcfollower_handle_tpc_def set_body_def)
qed

lemma follower_handle_del:
  assumes rep: "follower_rep fs server (m, es)" and ok: "request_ok (m, es) req" and t: "req_type req = DELREQ"
    and junk: "length junk = sizeof_logentry - 8"
  shows "\<exists>server' fs'. tpcfollower_handle_tpc fs server req res junk =
      Some (res\<lparr>resp_type := VOTE, resp_body := if m (req_key req) = None then ERRMSG_NO_KEY else MSG_COMMIT\<rparr>, server', fs') \<and>
    follower_rep fs' server' (m(req_key req := None), es @ [(DELREQ, log_payload DELREQ (req_key req) (req_val req))])"
proof -
  let ?k = "req_key req" and ?v = "req_val req"
  have kv: "key_ok ?k" "val_ok ?v" "?k \<noteq> []" "Suc (length es) < 2 ^ 64"
    using ok t by (auto simp: request_ok_def)
  obtain log fs1 where l: "tpclog_log fs (fl_log server) DELREQ (Some ?k) (Some ?v) junk = Some (0, log, fs1)"
      "follower_rep fs1 (server\<lparr>fl_log := log\<rparr>) (m, es @ [(DELREQ, log_payload DELREQ ?k ?v)])"
    using follower_log [OF rep, of DELREQ ?k ?v junk] kv junk by (auto simp: loggable_def)
  obtain fs2 where "tpcfollower_del fs1 (server\<lparr>fl_log := log\<rparr>) ?k = Some (if m ?k = None then ERR_NOKEY else 0, fs2)"
      "kv_rep fs2 (fl_store server) (m(?k := None))" "entry_frame fs1 fs2 (kv_dirname (fl_store server))"
    using tpcfollower_del_rep [of fs1 "server\<lparr>fl_log := log\<rparr>" m ?k] l(2) kv by (auto simp: follower_rep_def)
  with l t show ?thesis
    using follower_rep_store [OF l(2), of fs2 "m(?k := None)"]
    by (auto simp: tpcfollower_handle_tpc_def set_body_def err_defs GETMSG_def msg_defs size_defs)
qed

lemma follower_handle_phase2:
  assumes rep: "follower_rep fs server (m, es)" and ok: "request_ok (m, es) req" and t: "req_type req = COMMIT \<or> req_type req = ABORT"
    and junk: "length junk = sizeof_logentry - 8"
  shows "\<exists>server' fs'. tpcfollower_handle_tpc fs server req res junk = Some (res\<lparr>resp_type := ACK\<rparr>, server', fs') \<and>
    follower_rep fs' server' (m, es @ [(req_type req, log_payload (req_type req) (req_key req) (req_val req))])"
  using follower_log [OF rep, of "req_type req" "req_key req" "req_val req" junk] ok junk t
  by (auto simp: tpcfollower_handle_tpc_def loggable_def request_ok_def)

lemma follower_handle_spec:
  assumes rep: "follower_rep fs server st" and ok: "request_ok st req" and junk: "length junk = sizeof_logentry - 8"
  shows "\<exists>r st' server' fs'. follower_spec st req (resp_body res) = (r, st') \<and>
    tpcfollower_handle_tpc fs server req res junk = Some (\<lparr>resp_type = fst r, resp_body = snd r\<rparr>, server', fs') \<and>
    follower_rep fs' server' st'"
proof (cases "req_type req")
  case GETREQ
  then show ?thesis using follower_handle_get [OF rep ok] by blast
next
  case PUTREQ
  then show ?thesis using follower_handle_put [of fs server "fst st" "snd st" req junk res] rep ok junk
    by (cases st; cases res) (auto simp: follower_spec_def Let_def)
next
  case DELREQ
  then show ?thesis using follower_handle_del [of fs server "fst st" "snd st" req junk res] rep ok junk
    by (cases st; cases res) (auto simp: follower_spec_def Let_def)
next
  case COMMIT
  then show ?thesis using follower_handle_phase2 [of fs server "fst st" "snd st" req junk res] rep ok junk
    by (cases st; cases res) (auto simp: follower_spec_def Let_def)
next
  case ABORT
  then show ?thesis using follower_handle_phase2 [of fs server "fst st" "snd st" req junk res] rep ok junk
    by (cases st; cases res) (auto simp: follower_spec_def Let_def)
qed (use rep in \<open>(cases st; cases res; auto simp: follower_spec_def tpcfollower_handle_tpc_def set_body_def Let_def)+\<close>)


subsection \<open>From bytes to bytes\<close>

lemma kv_rep_value: "kv_rep fs store m \<Longrightarrow> m k = Some v \<Longrightarrow> val_ok v"
proof -
  assume "kv_rep fs store m" and v: "m k = Some v"
  then obtain ch where ch: "kv_chains fs (kv_dirname store) ch" "m = kv_map ch" by (auto simp: kv_rep_def)
  then have "(k, v) \<in> set (ch (strhash64 k))" using v by (auto simp: kv_map_def dest: map_of_SomeD)
  then have "kv_ok (k, v)" using ch(1) unfolding kv_chains_def kv_layout_def by blast
  then show ?thesis by (simp add: kv_ok_def)
qed

lemma follower_spec_wf:
  assumes "follower_rep fs server st" and "request_ok st req" and "cstring old" and "length old \<le> KVRES_BODY_MAX_SIZE"
    and "follower_spec st req old = (r, st')"
  shows "kvres_wf \<lparr>resp_type = fst r, resp_body = snd r\<rparr>"
proof -
  have "cstring v" if "fst st (req_key req) = Some v" for v
    using kv_rep_value [of fs "fl_store server" "fst st" "req_key req" v] that assms(1) by (simp add: follower_rep_def)
  then show ?thesis using assms(2-5)
    by (cases st; cases "req_type req")
      (auto simp: follower_spec_def kvres_wf_def request_ok_def Let_def msg_defs size_defs split: option.splits if_splits)
qed

lemma follower_handle_bytes:
  assumes rep: "follower_rep fs server st" and data: "kvrequest_receive data = Some (Some req)" "req_type req \<noteq> INDEX"
    and ok: "request_ok st req" and junk: "length junk = sizeof_logentry - 8"
    and old: "cstring (resp_body res)" "length (resp_body res) \<le> KVRES_BODY_MAX_SIZE"
    and ws: "\<forall>w \<in> set ws. 0 < w" "HTTP_MSG_MAX_SIZE \<le> length ws"
  shows "\<exists>r st' sent server' fs'. follower_spec st req (resp_body res) = (r, st') \<and>
    tpcfollower_handle index_payload ws fs server data res junk = Some (sent, server', fs') \<and>
    kvresponse_receive sent = Some (Some \<lparr>resp_type = fst r, resp_body = snd r\<rparr>) \<and>
    follower_rep fs' server' st'"
proof -
  obtain r st' server' fs' where h: "follower_spec st req (resp_body res) = (r, st')"
      "tpcfollower_handle_tpc fs server req res junk = Some (\<lparr>resp_type = fst r, resp_body = snd r\<rparr>, server', fs')"
      "follower_rep fs' server' st'"
    using follower_handle_spec [OF rep ok junk, of res] by blast
  have "kvres_wf \<lparr>resp_type = fst r, resp_body = snd r\<rparr>" using follower_spec_wf [OF rep ok old h(1)] .
  then obtain msg where "kvresponse_message \<lparr>resp_type = fst r, resp_body = snd r\<rparr> = Some (Some msg)"
      "kvresponse_receive (out_body msg) = Some (Some \<lparr>resp_type = fst r, resp_body = snd r\<rparr>)"
    using kvresponse_roundtrip by blast
  then show ?thesis
    using h data http_outbound_send_complete [OF ws, of msg] kvresponse_message_length [of _ msg]
    by (auto simp: tpcfollower_handle_def kvresponse_send_def)
qed

subsection \<open>Restart\<close>

lemma tpcfollower_init_restart:
  assumes rep: "follower_rep fs server st" and host: "length hostname < HOSTNAME_SIZE"
  shows "\<exists>server'. tpcfollower_init fs (kv_dirname (fl_store server)) n hostname port = Some (0, Some server', fs) \<and>
           follower_rep fs server' st \<and> fl_hostname server' = hostname \<and> fl_port server' = port"
proof -
  let ?d = "kv_dirname (fl_store server)"
  have d: "stat fs ?d" using kv_rep_dir [of fs "fl_store server"] rep unfolding follower_rep_def by blast
  have st: "fl_store server = \<lparr>kv_dirname = ?d\<rparr>" by simp
  obtain log where "tpclog_init fs ?d = Some (0, Some log, fs)" "log_rep fs log (snd st)" "log_dirname log = ?d"
    using tpclog_init_rep [of fs ?d "snd st"] rep by (auto simp: follower_rep_def log_rep_def)
  with d host rep show ?thesis
    by (auto simp: tpcfollower_init_def kvstore_init_def follower_rep_def) (simp add: kv_rep_def)
qed

text \<open>A fresh directory.\<close>

definition fresh_dir :: "fs \<Rightarrow> string \<Rightarrow> bool" where
  "fresh_dir fs d \<longleftrightarrow> \<not> stat fs d \<and> \<not> denied fs d \<and>
     (\<forall>p. parent p = d \<longrightarrow> \<not> dirs fs p \<and> files fs p = None \<and> \<not> denied fs p)"

lemma dir_not_file [simp]: "entry_file d h c \<noteq> d" "log_file d n \<noteq> d" "d \<noteq> entry_file d h c" "d \<noteq> log_file d n"
  by (simp_all add: entry_file_def log_file_def)

lemma tpcfollower_init_fresh:
  assumes fresh: "fresh_dir fs d" and host: "length hostname < HOSTNAME_SIZE"
  shows "\<exists>server fs'. tpcfollower_init fs d n hostname port = Some (0, Some server, fs') \<and>
           follower_rep fs' server (Map.empty, []) \<and> fl_hostname server = hostname \<and> fl_port server = port"
proof -
  let ?fs = "fs\<lparr>dirs := (dirs fs)(d := True)\<rparr>"
  have e: "\<not> stat fs (entry_file d h c) \<and> \<not> denied fs (entry_file d h c)" for h c
    using fresh by (auto simp: fresh_dir_def stat_def)
  have "kv_rep ?fs \<lparr>kv_dirname = d\<rparr> Map.empty"
    using kvstore_init_fresh [OF _ _ e] fresh by (auto simp: fresh_dir_def kvstore_init_def mkdir_def)
  moreover have lf: "log_files ?fs d []"
    using fresh by (auto simp: log_files_def fresh_dir_def)
  ultimately show ?thesis
    using tpclog_init_rep [OF lf] fresh host
    by (auto simp: tpcfollower_init_def kvstore_init_def mkdir_def fresh_dir_def follower_rep_def)
qed


subsection \<open>Properties\<close>

definition sample_follower :: tpcfollower_t where
  "sample_follower = \<lparr>fl_store = sample_store, fl_log = sample_log, fl_state = TPC_INIT, fl_max_threads = 2,
     fl_port = 16201, fl_hostname = ''127.0.0.1''\<rparr>"

definition sample_request :: "msgtype_t \<Rightarrow> string \<Rightarrow> kvrequest_t" where
  "sample_request t v = \<lparr>req_type = t, req_key = ''k'', req_val = v\<rparr>"

abbreviation sample_junk :: "char list" where
  "sample_junk \<equiv> replicate 2052 NUL"

lemma sample_follower_rep: "follower_rep sample_fs sample_follower (Map.empty, [])"
  using sample_rep sample_log_rep by (simp add: follower_rep_def sample_follower_def sample_store_def sample_log_def)

text \<open>C5: the request handler of a follower implements the follower's promise: on every request with a legal key
  and value, and a stored value of at most 40 bytes when it is a lookup, it answers what the promise says
  of the map and the log, logs the requests of the two phases, and keeps store and log intact on disk.\<close>

theorem tpcfollower_implements_promise:
  assumes "follower_rep fs server st" and "request_ok st req" and "length junk = sizeof_logentry - 8"
  shows "\<exists>r st' server' fs'. follower_spec st req (resp_body res) = (r, st') \<and>
    tpcfollower_handle_tpc fs server req res junk = Some (\<lparr>resp_type = fst r, resp_body = snd r\<rparr>, server', fs') \<and>
    follower_rep fs' server' st'"
  using assms by (rule follower_handle_spec)

theorem tpcfollower_implements_promise_witness:
  "\<exists>server' fs'. tpcfollower_handle_tpc sample_fs sample_follower (sample_request PUTREQ ''v'')
      \<lparr>resp_type = EMPTY, resp_body = []\<rparr> sample_junk = Some (\<lparr>resp_type = VOTE, resp_body = MSG_COMMIT\<rparr>, server', fs') \<and>
    follower_rep fs' server' ([''k'' \<mapsto> ''v''], [(PUTREQ, [CHR ''k'', NUL, CHR ''v'', NUL])])"
  using tpcfollower_implements_promise [OF sample_follower_rep, of "sample_request PUTREQ ''v''" sample_junk
      "\<lparr>resp_type = EMPTY, resp_body = []\<rparr>"]
  by (auto simp: request_ok_def sample_request_def size_defs INT_MAX_def sizeof_logentry_def follower_spec_def log_payload_def)

text \<open>C30: a follower that restarts on its directory finds the same map and the same log as before the restart, and
  one that starts on a new directory finds both empty.\<close>

theorem tpcfollower_restart:
  assumes "length hostname < HOSTNAME_SIZE"
  shows "(follower_rep fs server st \<longrightarrow> (\<exists>server'. tpcfollower_init fs (kv_dirname (fl_store server)) n hostname port =
            Some (0, Some server', fs) \<and> follower_rep fs server' st)) \<and>
    (fresh_dir fs d \<longrightarrow> (\<exists>server' fs'. tpcfollower_init fs d n hostname port = Some (0, Some server', fs') \<and>
            follower_rep fs' server' (Map.empty, [])))"
  using tpcfollower_init_restart [OF _ assms] tpcfollower_init_fresh [OF _ assms] by blast

theorem tpcfollower_restart_witness:
  "\<exists>server'. tpcfollower_init sample_fs ''d'' 2 ''127.0.0.1'' 16201 = Some (0, Some server', sample_fs) \<and>
     follower_rep sample_fs server' (Map.empty, [])"
  using tpcfollower_restart [of "''127.0.0.1''" sample_fs sample_follower "(Map.empty, [])" 2 16201 "''e''"] sample_follower_rep
  by (simp add: HOSTNAME_SIZE_def sample_follower_def sample_store_def)

text \<open>A lookup of a stored value of more than 40 bytes, which the store accepts up to 1024 bytes, overflows the
  body of the response.\<close>

theorem tpcfollower_get_overflow:
  assumes "follower_rep fs server (m, es)" and "key_ok k" and "m k = Some v" and "length v > KVRES_BODY_MAX_SIZE"
  shows "tpcfollower_handle_tpc fs server \<lparr>req_type = GETREQ, req_key = k, req_val = w\<rparr> res junk = None"
  using tpcfollower_get_rep [of fs server m k] assms
  by (auto simp: tpcfollower_handle_tpc_def follower_rep_def set_body_def split: bind_splits)

lemma sample_long_value:
  "\<exists>server' fs' es. follower_rep fs' server' ([''k'' \<mapsto> replicate 41 CHR ''x''], es)"
  using follower_handle_spec [OF sample_follower_rep, of "sample_request PUTREQ (replicate 41 CHR ''x'')" sample_junk
      "\<lparr>resp_type = EMPTY, resp_body = []\<rparr>"]
  by (auto simp: request_ok_def sample_request_def size_defs INT_MAX_def sizeof_logentry_def follower_spec_def
      cstring_def Let_def)

theorem tpcfollower_get_overflow_witness:
  "\<exists>server' fs'. tpcfollower_handle_tpc fs' server' \<lparr>req_type = GETREQ, req_key = ''k'', req_val = []\<rparr>
      \<lparr>resp_type = EMPTY, resp_body = []\<rparr> [] = None"
proof -
  obtain server' fs' es where "follower_rep fs' server' ([''k'' \<mapsto> replicate 41 CHR ''x''], es)"
    using sample_long_value by blast
  from tpcfollower_get_overflow [OF this, of "''k''" "replicate 41 CHR ''x''" "[]"] show ?thesis by (auto simp: size_defs)
qed

text \<open>C39: a follower applies an insertion when it votes, in the first phase; the \<^const>\<open>ABORT\<close> of the second phase
  is logged and acknowledged, and the value stays.\<close>

theorem tpcfollower_abort_keeps_put:
  assumes "follower_rep fs server (m, es)" and "key_ok k" "k \<noteq> []" and "val_ok v"
    and "Suc (card (dom m)) < nat INT_MAX" and "length es + 3 < 2 ^ 64" and "length junk = sizeof_logentry - 8"
  shows "\<exists>res1 server1 fs1 res2 server2 fs2.
    tpcfollower_handle_tpc fs server \<lparr>req_type = PUTREQ, req_key = k, req_val = v\<rparr> res junk = Some (res1, server1, fs1) \<and>
    tpcfollower_handle_tpc fs1 server1 \<lparr>req_type = ABORT, req_key = k, req_val = v\<rparr> res junk = Some (res2, server2, fs2) \<and>
    resp_type res2 = ACK \<and> tpcfollower_get fs2 server2 k = Some (0, Some v)"
proof -
  let ?p = "\<lparr>req_type = PUTREQ, req_key = k, req_val = v\<rparr>" and ?a = "\<lparr>req_type = ABORT, req_key = k, req_val = v\<rparr>"
  have "finite (dom m)" using kv_rep_finite assms(1) by (auto simp: follower_rep_def)
  then have c: "card (dom (m(k \<mapsto> v))) < nat INT_MAX" using assms(5) by (simp add: card_insert_if)
  have "request_ok (m, es) ?p" using assms by (auto simp: request_ok_def)
  then obtain server1 fs1 where 1: "tpcfollower_handle_tpc fs server ?p res junk =
      Some (res\<lparr>resp_type := VOTE, resp_body := MSG_COMMIT\<rparr>, server1, fs1)"
      "follower_rep fs1 server1 (m(k \<mapsto> v), es @ [(PUTREQ, log_payload PUTREQ k v)])"
    using follower_handle_put [OF assms(1), of ?p junk res] assms(7) by auto
  have "request_ok (m(k \<mapsto> v), es @ [(PUTREQ, log_payload PUTREQ k v)]) ?a" using assms c by (auto simp: request_ok_def)
  then obtain server2 fs2 es2 where 2: "tpcfollower_handle_tpc fs1 server1 ?a res junk = Some (res\<lparr>resp_type := ACK\<rparr>, server2, fs2)"
      "follower_rep fs2 server2 (m(k \<mapsto> v), es2)"
    using follower_handle_phase2 [OF 1(2), of ?a junk res] assms(7) by auto
  then have "tpcfollower_get fs2 server2 k = Some (0, Some v)"
    using tpcfollower_get_rep [of fs2 server2 "m(k \<mapsto> v)" k] assms(2) by (auto simp: follower_rep_def)
  with 1 2 show ?thesis by auto
qed

theorem tpcfollower_abort_keeps_put_witness:
  "\<exists>res1 server1 fs1 res2 server2 fs2.
    tpcfollower_handle_tpc sample_fs sample_follower (sample_request PUTREQ ''v'') \<lparr>resp_type = EMPTY, resp_body = []\<rparr> sample_junk =
      Some (res1, server1, fs1) \<and>
    tpcfollower_handle_tpc fs1 server1 (sample_request ABORT ''v'') \<lparr>resp_type = EMPTY, resp_body = []\<rparr> sample_junk =
      Some (res2, server2, fs2) \<and> resp_type res2 = ACK \<and> tpcfollower_get fs2 server2 ''k'' = Some (0, Some ''v'')"
  using tpcfollower_abort_keeps_put [OF sample_follower_rep, of "''k''" "''v''" sample_junk "\<lparr>resp_type = EMPTY, resp_body = []\<rparr>"]
  by (simp add: sample_request_def size_defs INT_MAX_def sizeof_logentry_def)

end
