(* ===== verification/TPC_Leader.thy ===== *)
theory TPC_Leader
  imports TPC_Follower
begin

text \<open>
  The leader of the two-phase commit protocol, \<^verbatim>\<open>2PCKVStore/tpcleader.c\<close>, down to the pointers: the
  followers are records of a heap in a doubly linked ring, sorted by their hashed address.

  The sockets are the parameter \<open>net\<close>: in a state \<open>w\<close> of the world, connecting to a host and a port is
  refused, or gives the results of the calls of \<^verbatim>\<open>write\<close> and, for the bytes that were sent, the bytes
  that \<^verbatim>\<open>read\<close> returns and the next state of the world.  The second phase asks a follower again until
  it answers; a run in which one never does is \<^const>\<open>None\<close>.

  The theory shows that the ring stays a sorted ring, that registration and the choice of the primary
  are insertion and search in the sorted list of followers, and that the protocol is a walk over the
  list that starts at the primary.
\<close>

subsection \<open>Data\<close>

record follower_t =
  fid :: u64
  fhost :: string
  fport :: "32 word"
  fnext :: ptr
  fprev :: ptr

type_synonym ring_heap = "follower_t heap"

record tpcleader_t =
  follower_capacity :: "32 word"
  follower_count :: "32 word"
  redundancy :: "32 word"
  followers_head :: "ptr option"
  ld_mem :: ring_heap

definition tpcleader_init :: "ring_heap \<Rightarrow> 32 word \<Rightarrow> 32 word \<Rightarrow> tpcleader_t" where
  "tpcleader_init h capacity red =
     \<lparr>follower_capacity = capacity, follower_count = 0,
      redundancy = (if red > capacity then capacity else red), followers_head = None, ld_mem = h\<rparr>"

subsection \<open>Registration\<close>

definition atoi :: "string \<Rightarrow> int" where
  "atoi s = to_int (fst (strtol s))"

text \<open>The array for the address is declared two bytes shorter than the text that is printed into it; the
  overflow is the subject of a property below, and the model of the registration goes on with the
  printed text.\<close>

definition address_size :: "string \<Rightarrow> string \<Rightarrow> nat" where
  "address_size host port = length host + length port"

definition follower_address :: "string \<Rightarrow> string \<Rightarrow> string" where
  "follower_address host port = port @ '':'' @ host"

datatype reg_pos = Before ptr | Same | AtEnd

partial_function (option) reg_loop :: "ring_heap \<Rightarrow> ptr \<Rightarrow> u64 \<Rightarrow> ptr \<Rightarrow> reg_pos option" where
  "reg_loop h first_follower new_id cur = do {
     c \<leftarrow> load h cur;
     if fid c > new_id then Some (Before cur)
     else if fid c = new_id then Some Same
     else if fnext c \<noteq> first_follower then reg_loop h first_follower new_id (fnext c)
     else Some AtEnd
   }"

definition link_before :: "ring_heap \<Rightarrow> ptr \<Rightarrow> ptr \<Rightarrow> ring_heap option" where
  "link_before h cur new_follower = do {
     h \<leftarrow> modify h new_follower (\<lambda>f. f\<lparr>fnext := cur\<rparr>);
     c \<leftarrow> load h cur;
     h \<leftarrow> modify h new_follower (\<lambda>f. f\<lparr>fprev := fprev c\<rparr>);
     h \<leftarrow> modify h cur (\<lambda>f. f\<lparr>fprev := new_follower\<rparr>);
     n \<leftarrow> load h new_follower;
     modify h (fprev n) (\<lambda>f. f\<lparr>fnext := new_follower\<rparr>)
   }"

definition tpcleader_register :: "tpcleader_t \<Rightarrow> kvrequest_t \<Rightarrow> kvresponse_t \<Rightarrow> (tpcleader_t \<times> kvresponse_t) option" where
  "tpcleader_register leader req res =
     (if follower_count leader = follower_capacity leader then do {
        res \<leftarrow> set_body res ERROR ERRMSG_FOLLOWER_CAPACITY;
        Some (leader, res)
      }
      else do {
        let new_id = strhash64 (follower_address (req_key req) (req_val req));
        (p, h) \<leftarrow> new (ld_mem leader) \<lparr>fid = new_id, fhost = req_key req, fport = of_int (atoi (req_val req)),
                                      fnext = 0, fprev = 0\<rparr>;
        h \<leftarrow> modify h p (\<lambda>f. f\<lparr>fnext := p, fprev := p\<rparr>);
        let res = res\<lparr>resp_type := SUCCESS\<rparr>;
        let leader = leader\<lparr>ld_mem := h\<rparr>;
        (case followers_head leader of
           None \<Rightarrow> Some (leader\<lparr>followers_head := Some p, follower_count := follower_count leader + 1\<rparr>, res)
         | Some first_follower \<Rightarrow> do {
             pos \<leftarrow> reg_loop h first_follower new_id first_follower;
             (case pos of
                Before cur \<Rightarrow> do {
                  h \<leftarrow> link_before h cur p;
                  let head = (if cur = first_follower then p else first_follower);
                  Some (leader\<lparr>ld_mem := h, followers_head := Some head, follower_count := follower_count leader + 1\<rparr>, res)
                }
              | Same \<Rightarrow> Some (leader, res)
              | AtEnd \<Rightarrow> do {
                  h \<leftarrow> link_before h first_follower p;
                  Some (leader\<lparr>ld_mem := h, follower_count := follower_count leader + 1\<rparr>, res)
                })
           })
      })"

subsection \<open>The ring\<close>

partial_function (option) primary_loop :: "ring_heap \<Rightarrow> ptr \<Rightarrow> u64 \<Rightarrow> ptr \<Rightarrow> ptr option" where
  "primary_loop h head hash cur = do {
     c \<leftarrow> load h cur;
     if fid c > hash then Some cur
     else if fnext c \<noteq> head then primary_loop h head hash (fnext c)
     else Some head
   }"

text \<open>\<open>Some None\<close> is the NULL that is returned below capacity.\<close>

definition tpcleader_get_primary :: "tpcleader_t \<Rightarrow> string \<Rightarrow> ptr option option" where
  "tpcleader_get_primary leader k =
     (if follower_count leader < follower_capacity leader then Some None
      else do {
        let hash = strhash64 k;
        head \<leftarrow> followers_head leader;
        p \<leftarrow> primary_loop (ld_mem leader) head hash head;
        Some (Some p)
      })"

definition tpcleader_get_successor :: "tpcleader_t \<Rightarrow> ptr \<Rightarrow> ptr option" where
  "tpcleader_get_successor leader predecessor = map_option fnext (load (ld_mem leader) predecessor)"

subsection \<open>Talking to a follower\<close>

datatype 'w conn = Refused 'w | Connected "int list" "char list \<Rightarrow> char list \<times> 'w"

type_synonym 'w net = "'w \<Rightarrow> string \<Rightarrow> 32 word \<Rightarrow> 'w conn"

text \<open>Connect, send the request, read the response; \<open>sent_ok\<close> is the caller's test of the result of the send.
  The result is the response, or none when one of the three failed.\<close>

definition exchange :: "'w net \<Rightarrow> (int \<Rightarrow> bool) \<Rightarrow> 'w \<Rightarrow> string \<Rightarrow> 32 word \<Rightarrow> kvrequest_t \<Rightarrow>
    (kvresponse_t option \<times> 'w) option" where
  "exchange net sent_ok w host port req =
     (case net w host port of
        Refused w \<Rightarrow> Some (None, w)
      | Connected ws serve \<Rightarrow> do {
          (ret_code, sent) \<leftarrow> kvrequest_send ws req;
          let (answer, w) = serve sent;
          if \<not> sent_ok ret_code then Some (None, w)
          else do { r \<leftarrow> kvresponse_receive answer; Some (r, w) }
        })"

subsection \<open>Lookups\<close>

partial_function (option) get_loop :: "'w net \<Rightarrow> tpcleader_t \<Rightarrow> kvrequest_t \<Rightarrow> ptr \<Rightarrow> ptr \<Rightarrow> 'w \<Rightarrow>
    (kvresponse_t option \<times> 'w) option" where
  "get_loop net leader req primary successor w = do {
     f \<leftarrow> load (ld_mem leader) successor;
     (r, w) \<leftarrow> exchange net (\<lambda>ret. ret > 0) w (fhost f) (fport f) req;
     (case r of
        Some res \<Rightarrow> Some (Some res, w)
      | None \<Rightarrow> do {
          successor \<leftarrow> tpcleader_get_successor leader successor;
          if successor \<noteq> primary then get_loop net leader req primary successor w else Some (None, w)
        })
   }"

definition tpcleader_handle_get :: "'w net \<Rightarrow> tpcleader_t \<Rightarrow> kvrequest_t \<Rightarrow> kvresponse_t \<Rightarrow> 'w \<Rightarrow>
    (kvresponse_t \<times> 'w) option" where
  "tpcleader_handle_get net leader req res w = do {
     primary \<leftarrow> tpcleader_get_primary leader (req_key req);
     (case primary of
        None \<Rightarrow> do { res \<leftarrow> set_body res ERROR ERRMSG_NOT_AT_CAPACITY; Some (res, w) }
      | Some primary \<Rightarrow> do {
          (r, w) \<leftarrow> get_loop net leader req primary primary w;
          (case r of
             Some res \<Rightarrow> Some (res, w)
           | None \<Rightarrow> do { res \<leftarrow> set_body res ERROR ERRMSG_GENERIC_ERROR; Some (res, w) })
        })
   }"

subsection \<open>Two-phase commit\<close>

partial_function (option) poll_loop :: "'w net \<Rightarrow> tpcleader_t \<Rightarrow> kvrequest_t \<Rightarrow> ptr \<Rightarrow> ptr \<Rightarrow> bool \<Rightarrow> kvresponse_t \<Rightarrow> 'w \<Rightarrow>
    (bool \<times> kvresponse_t \<times> 'w) option" where
  "poll_loop net leader req primary successor abort res w = do {
     f \<leftarrow> load (ld_mem leader) successor;
     (r, w) \<leftarrow> exchange net (\<lambda>ret. \<not> ret < 0) w (fhost f) (fport f) req;
     let abort = (case r of None \<Rightarrow> True | Some _ \<Rightarrow> abort);
     let res = (case r of None \<Rightarrow> res | Some res \<Rightarrow> res);
     successor \<leftarrow> tpcleader_get_successor leader successor;
     if successor \<noteq> primary then poll_loop net leader req primary successor abort res w
     else Some (abort, res, w)
   }"

text \<open>\<^verbatim>\<open>continue\<close> in the second loop goes to its test: a follower that did not answer is asked again.\<close>

partial_function (option) commit_loop :: "'w net \<Rightarrow> tpcleader_t \<Rightarrow> kvrequest_t \<Rightarrow> ptr \<Rightarrow> ptr \<Rightarrow> bool \<Rightarrow> kvresponse_t \<Rightarrow> 'w \<Rightarrow>
    (kvresponse_t \<times> 'w) option" where
  "commit_loop net leader req primary successor first_time res w = do {
     f \<leftarrow> load (ld_mem leader) successor;
     (r, w) \<leftarrow> exchange net (\<lambda>ret. \<not> ret < 0) w (fhost f) (fport f) req;
     (case r of
        None \<Rightarrow> if successor \<noteq> primary \<or> first_time
                then commit_loop net leader req primary successor first_time res w else Some (res, w)
      | Some res \<Rightarrow> do {
          successor \<leftarrow> tpcleader_get_successor leader successor;
          if successor \<noteq> primary then commit_loop net leader req primary successor False res w
          else Some (res, w)
        })
   }"

definition tpcleader_handle_tpc :: "'w net \<Rightarrow> tpcleader_t \<Rightarrow> kvrequest_t \<Rightarrow> kvresponse_t \<Rightarrow> 'w \<Rightarrow>
    (kvresponse_t \<times> 'w) option" where
  "tpcleader_handle_tpc net leader req res w =
     (if follower_count leader \<noteq> follower_capacity leader then do {
        res \<leftarrow> set_body res ERROR ERRMSG_NOT_AT_CAPACITY;
        Some (res, w)
      }
      else do {
        primary \<leftarrow> tpcleader_get_primary leader (req_key req);
        (case primary of
           None \<Rightarrow> do { res \<leftarrow> set_body res ERROR ERRMSG_NOT_AT_CAPACITY; Some (res, w) }
         | Some primary \<Rightarrow> do {
             (abort, res, w) \<leftarrow> poll_loop net leader req primary primary False res w;
             let req = req\<lparr>req_type := (if abort then ABORT else COMMIT)\<rparr>;
             (res, w) \<leftarrow> commit_loop net leader req primary primary True res w;
             if abort then do { res \<leftarrow> set_body res ERROR ERRMSG_GENERIC_ERROR; Some (res, w) }
             else Some (res\<lparr>resp_type := SUCCESS\<rparr>, w)
           })
      })"

definition tpcleader_handle :: "'w net \<Rightarrow> char list \<Rightarrow> int list \<Rightarrow> tpcleader_t \<Rightarrow> char list \<Rightarrow> kvresponse_t \<Rightarrow> 'w \<Rightarrow>
    (char list \<times> tpcleader_t \<times> 'w) option" where
  "tpcleader_handle net index_payload ws leader data res w = do {
     req \<leftarrow> kvrequest_receive data;
     (case req of
        None \<Rightarrow> do {
          res \<leftarrow> set_body res ERROR ERRMSG_INVALID_REQUEST;
          (_, sent) \<leftarrow> kvresponse_send ws res;
          Some (sent, leader, w)
        }
      | Some req \<Rightarrow>
          if req_type req = INDEX then do {
            sent \<leftarrow> index_send ws index_payload True;
            Some (sent, leader, w)
          }
          else do {
            (leader, res, w) \<leftarrow>
              (if req_type req = REGISTER then do { (leader, res) \<leftarrow> tpcleader_register leader req res; Some (leader, res, w) }
               else if req_type req = GETREQ then do { (res, w) \<leftarrow> tpcleader_handle_get net leader req res w; Some (leader, res, w) }
               else do { (res, w) \<leftarrow> tpcleader_handle_tpc net leader req res w; Some (leader, res, w) });
            (_, sent) \<leftarrow> kvresponse_send ws res;
            Some (sent, leader, w)
          })
   }"

subsection \<open>Rings\<close>

type_synonym finfo = "u64 \<times> string \<times> 32 word"

definition finfo_of :: "follower_t \<Rightarrow> finfo" where
  "finfo_of c = (fid c, fhost c, fport c)"

definition clink :: "ring_heap \<Rightarrow> ptr \<Rightarrow> ptr \<Rightarrow> bool" where
  "clink h x y \<longleftrightarrow> (\<exists>cx cy. cells h x = Some cx \<and> fnext cx = y \<and> cells h y = Some cy \<and> fprev cy = x)"

definition ring :: "ring_heap \<Rightarrow> ptr list \<Rightarrow> bool" where
  "ring h ps \<longleftrightarrow> ps \<noteq> [] \<and> distinct ps \<and> successively (clink h) (ps @ [hd ps])"

definition infos :: "ring_heap \<Rightarrow> ptr list \<Rightarrow> finfo option list" where
  "infos h ps = map (\<lambda>p. map_option finfo_of (cells h p)) ps"

lemma ring_rotate: "ring h (xs @ ys) \<Longrightarrow> ring h (ys @ xs)"
  by (cases "xs = [] \<or> ys = []") (auto simp: ring_def successively_append_iff)

lemma ring_next:
  assumes "ring h (xs @ x # ys)"
  shows "\<exists>c. cells h x = Some c \<and> fnext c = hd (ys @ xs @ [x])"
proof -
  have "ring h (x # ys @ xs)" using ring_rotate [OF assms] by simp
  then have "clink h x (hd ((ys @ xs) @ [x]))"
    by (cases "ys @ xs") (auto simp: ring_def)
  then show ?thesis by (auto simp: clink_def)
qed

lemma ring_prev:
  assumes "ring h (x # ys)"
  shows "\<exists>c. cells h x = Some c \<and> fprev c = last (x # ys)"
proof -
  have "clink h (last (x # ys)) x" using assms
    by (simp add: ring_def successively_append_iff del: append_Cons last.simps flip: append_Cons)
  then show ?thesis by (auto simp: clink_def)
qed

lemma ring_cell: "ring h ps \<Longrightarrow> p \<in> set ps \<Longrightarrow> \<exists>c. cells h p = Some c"
  using ring_next by (fastforce dest!: split_list)

lemma link_before_ring:
  assumes r: "ring h (cur # zs)" and p: "cells h p = Some n" "p \<notin> set (cur # zs)"
  shows "\<exists>h'. link_before h cur p = Some h' \<and> ring h' (cur # zs @ [p]) \<and>
    (\<forall>q. map_option finfo_of (cells h' q) = map_option finfo_of (cells h q)) \<and> brk h' = brk h \<and> limit h' = limit h"
proof -
  let ?ps = "cur # zs" and ?l = "last (cur # zs)"
  obtain c where c: "cells h cur = Some c" "fprev c = ?l" using ring_prev [OF r] by blast
  obtain cl where cl: "cells h ?l = Some cl"
    using ring_cell [OF r, of ?l] last_in_set [of ?ps] by blast
  have neq: "p \<noteq> cur" "p \<noteq> ?l" using p(2) last_in_set [of ?ps] by auto
  define m where "m = (cells h)(p \<mapsto> n\<lparr>fnext := cur, fprev := ?l\<rparr>, cur \<mapsto> c\<lparr>fprev := p\<rparr>,
      ?l \<mapsto> (if ?l = cur then c\<lparr>fprev := p, fnext := p\<rparr> else cl\<lparr>fnext := p\<rparr>))"
  have eq: "link_before h cur p = Some (h\<lparr>cells := m\<rparr>)"
    using c cl neq p(1) by (auto simp: link_before_def heap_simps m_def fun_eq_iff)
  have d: "distinct ?ps" and lk: "successively (clink h) ?ps"
    using r by (auto simp: ring_def successively_append_iff simp flip: append_Cons)
  have "successively (clink (h\<lparr>cells := m\<rparr>)) ?ps"
    using lk d
  proof (rule successively_frame_ends)
    fix x y assume *: "x \<in> set ?ps" "y \<in> set ?ps" "x \<noteq> ?l" "y \<noteq> hd ?ps" "x \<noteq> y" "clink h x y"
    then have "x \<noteq> p" "y \<noteq> p" using p(2) by auto
    with * c cl show "clink (h\<lparr>cells := m\<rparr>) x y" by (auto simp: clink_def m_def)
  qed
  moreover have "clink (h\<lparr>cells := m\<rparr>) ?l p" using neq c cl by (auto simp: clink_def m_def)
  moreover have "clink (h\<lparr>cells := m\<rparr>) p cur" using neq c by (auto simp: clink_def m_def)
  ultimately have "ring (h\<lparr>cells := m\<rparr>) (?ps @ [p])"
    using d p(2) by (simp add: ring_def successively_append_iff del: append_Cons flip: append_Cons)
  with eq c cl p(1) show ?thesis by (auto simp: m_def finfo_of_def)
qed

lemma infos_frame:
  "(\<And>p. p \<in> set ps \<Longrightarrow> map_option finfo_of (cells h' p) = map_option finfo_of (cells h p)) \<Longrightarrow> infos h' ps = infos h ps"
  by (simp add: infos_def)

lemma ring_frame:
  assumes "ring h ps" and "\<And>p. p \<in> set ps \<Longrightarrow> cells h' p = cells h p"
  shows "ring h' ps"
proof -
  have "successively (clink h') (ps @ [hd ps])"
  proof (rule successively_frame)
    show "successively (clink h) (ps @ [hd ps])" using assms(1) by (simp add: ring_def)
    fix x y assume "x \<in> set (ps @ [hd ps])" "y \<in> set (ps @ [hd ps])" "clink h x y"
    then show "clink h' x y" using assms by (auto simp: clink_def ring_def)
  qed
  with assms(1) show ?thesis by (simp add: ring_def)
qed

subsection \<open>The sorted list of followers\<close>

fun ins_follower :: "finfo \<Rightarrow> finfo list \<Rightarrow> finfo list" where
  "ins_follower x [] = [x]"
| "ins_follower x (y # ys) =
     (if fst y > fst x then x # y # ys else if fst y = fst x then y # ys else y # ins_follower x ys)"

definition leader_rep :: "tpcleader_t \<Rightarrow> finfo list \<Rightarrow> bool" where
  "leader_rep leader fs \<longleftrightarrow> heap_ok (ld_mem leader) \<and> sorted_wrt (<) (map fst fs) \<and>
     unat (follower_count leader) = length fs \<and> length fs \<le> unat (follower_capacity leader) \<and>
     (if fs = [] then followers_head leader = None
      else \<exists>ps. followers_head leader = Some (hd ps) \<and> ring (ld_mem leader) ps \<and> infos (ld_mem leader) ps = map Some fs)"

lemma ins_follower_less: "\<forall>y \<in> set ys. fst y < fst x \<Longrightarrow> ins_follower x (ys @ zs) = ys @ ins_follower x zs"
  by (induction ys) auto

lemma ins_follower_set: "fst ` set (ins_follower x ys) = insert (fst x) (fst ` set ys)"
  by (induction ys) auto

lemma ins_follower_sorted: "sorted_wrt (<) (map fst ys) \<Longrightarrow> sorted_wrt (<) (map fst (ins_follower x ys))"
proof (induction ys)
  case (Cons y ys)
  have "\<forall>z \<in> fst ` set (ins_follower x ys). fst y < z" if "fst y < fst x"
    using that Cons.prems by (auto simp: ins_follower_set)
  with Cons show ?case by auto
qed simp

lemma ins_follower_length:
  "sorted_wrt (<) (map fst ys) \<Longrightarrow> length (ins_follower x ys) = (if fst x \<in> fst ` set ys then length ys else Suc (length ys))"
  by (induction ys) auto

subsection \<open>Registration inserts into the sorted list\<close>

text \<open>What the search finds, for the nodes \<open>ps\<close> with the data \<open>fs\<close>.\<close>

lemma reg_loop_search:
  assumes "ring h (xs @ ps)" and "ps \<noteq> []" and "infos h ps = map Some fs" and "first = hd (xs @ ps)"
  shows "\<exists>us vs. fs = us @ vs \<and> (\<forall>u \<in> set us. fst u < i) \<and>
    reg_loop h first i (hd ps) = Some (case vs of [] \<Rightarrow> AtEnd
      | v # _ \<Rightarrow> if fst v > i then Before (ps ! length us) else Same) \<and>
    (case vs of [] \<Rightarrow> True | v # _ \<Rightarrow> fst v \<ge> i)"
  using assms
proof (induction ps arbitrary: xs fs)
  case (Cons p ps)
  obtain f fs' where fs: "fs = f # fs'" and f: "map_option finfo_of (cells h p) = Some f" and i': "infos h ps = map Some fs'"
    using Cons.prems(3) by (auto simp: infos_def)
  obtain c where c: "cells h p = Some c" "fnext c = hd (ps @ xs @ [p])"
    using ring_next [of h xs p ps] Cons.prems(1) by auto
  have fst: "fid c = fst f" using f c by (auto simp: finfo_of_def)
  have step: "reg_loop h first i p = (if fst f > i then Some (Before p) else if fst f = i then Some Same
      else if fnext c \<noteq> first then reg_loop h first i (fnext c) else Some AtEnd)"
    using c(1) fst by (subst reg_loop.simps) (simp add: heap_simps)
  consider "i < fst f" | "fst f = i" | "fst f < i" by force
  then show ?case
  proof cases
    case 1
    then show ?thesis by (rule_tac exI [of _ "[]"], rule_tac exI [of _ fs]) (simp add: fs step)
  next
    case 2
    then show ?thesis by (rule_tac exI [of _ "[]"], rule_tac exI [of _ fs]) (simp add: fs step)
  next
    case 3
    show ?thesis
    proof (cases "ps = []")
      case True
      then have "fnext c = first" using c(2) Cons.prems(4) by (cases xs) auto
      with True 3 fs i' step show ?thesis
        by (rule_tac exI [of _ fs], rule_tac exI [of _ "[]"]) (auto simp: infos_def)
    next
      case False
      have "distinct (xs @ p # ps)" using Cons.prems(1) by (simp add: ring_def)
      then have ne: "fnext c \<noteq> first" using c(2) Cons.prems(4) False by (cases xs; cases ps) auto
      have nx: "fnext c = hd ps" using c(2) False by (cases ps) auto
      obtain us vs where IH: "fs' = us @ vs" "\<forall>u \<in> set us. fst u < i"
          "reg_loop h first i (hd ps) = Some (case vs of [] \<Rightarrow> AtEnd
             | v # _ \<Rightarrow> if fst v > i then Before (ps ! length us) else Same)"
          "case vs of [] \<Rightarrow> True | v # _ \<Rightarrow> fst v \<ge> i"
        using Cons.IH [of "xs @ [p]" fs'] Cons.prems False i' by auto
      then show ?thesis using 3 fs step ne nx
        by (rule_tac exI [of _ "f # us"], rule_tac exI [of _ vs]) (auto split: list.splits)
    qed
  qed
qed simp


lemma infos_append: "infos h (xs @ ys) = infos h xs @ infos h ys"
  by (simp add: infos_def)

lemma infos_length: "infos h ps = map Some fs \<Longrightarrow> length ps = length fs"
  by (metis infos_def length_map)

text \<open>Linking a node in before position \<open>k\<close>, or at the end.\<close>

lemma link_in_ring:
  assumes r: "ring h (xs @ cur # ys)" and p: "cells h p = Some n" "p \<notin> set (xs @ cur # ys)"
  shows "\<exists>h'. link_before h cur p = Some h' \<and> ring h' (xs @ p # cur # ys) \<and>
    (\<forall>q. map_option finfo_of (cells h' q) = map_option finfo_of (cells h q)) \<and> brk h' = brk h \<and> limit h' = limit h \<and>
    (\<forall>q. cells h' q = None \<longleftrightarrow> cells h q = None)"
proof -
  have "ring h (cur # ys @ xs)" using ring_rotate [OF r] by simp
  then obtain h' where h': "link_before h cur p = Some h'" "ring h' ((cur # ys) @ xs @ [p])"
      "\<forall>q. map_option finfo_of (cells h' q) = map_option finfo_of (cells h q)" "brk h' = brk h" "limit h' = limit h"
    using link_before_ring [of h cur "ys @ xs" p n] p by auto
  then have "ring h' (xs @ p # cur # ys)" using ring_rotate [of h' "cur # ys" "xs @ [p]"] by simp
  moreover have "\<forall>q. cells h' q = None \<longleftrightarrow> cells h q = None" using h'(3) by (metis map_option_is_None)
  ultimately show ?thesis using h' by auto
qed

text \<open>A registration below capacity with enough memory: the new node, and the three ways to link it.\<close>

definition register_info :: "kvrequest_t \<Rightarrow> finfo" where
  "register_info req =
     (strhash64 (follower_address (req_key req) (req_val req)), req_key req, of_int (atoi (req_val req)))"

definition with_new :: "tpcleader_t \<Rightarrow> kvrequest_t \<Rightarrow> ring_heap" where
  "with_new leader req = (let p = brk (ld_mem leader) in (ld_mem leader)\<lparr>brk := Suc p, cells := (cells (ld_mem leader))(p \<mapsto>
     \<lparr>fid = fst (register_info req), fhost = req_key req, fport = of_int (atoi (req_val req)), fnext = p, fprev = p\<rparr>)\<rparr>)"

lemma with_new_facts:
  assumes "heap_ok (ld_mem leader)" and "ring (ld_mem leader) ps"
  shows "ring (with_new leader req) ps" "infos (with_new leader req) ps = infos (ld_mem leader) ps"
    "brk (ld_mem leader) \<notin> set ps"
proof -
  let ?p = "brk (ld_mem leader)"
  show nin: "?p \<notin> set ps" using ring_cell [OF assms(2), of ?p] heap_ok_fresh [OF assms(1)] by auto
  then have same: "q \<in> set ps \<Longrightarrow> cells (with_new leader req) q = cells (ld_mem leader) q" for q
    by (auto simp: with_new_def Let_def)
  show "ring (with_new leader req) ps" using assms(2) same by (rule ring_frame)
  show "infos (with_new leader req) ps = infos (ld_mem leader) ps" using same by (simp add: infos_def)
qed

lemma heap_ok_with_new: "heap_ok (ld_mem leader) \<Longrightarrow> heap_ok (with_new leader req)"
  by (auto simp: heap_ok_def with_new_def Let_def less_Suc_eq)

lemma heap_ok_same_dom: "heap_ok h \<Longrightarrow> brk h' = brk h \<Longrightarrow> (\<And>q. cells h' q = None \<longleftrightarrow> cells h q = None) \<Longrightarrow> heap_ok h'"
  by (auto simp: heap_ok_def)

lemma new_cell: "cells (with_new leader req) (brk (ld_mem leader)) \<noteq> None"
  "map_option finfo_of (cells (with_new leader req) (brk (ld_mem leader))) = Some (register_info req)"
  by (auto simp: with_new_def Let_def finfo_of_def register_info_def)

lemma register_start:
  assumes "follower_count leader \<noteq> follower_capacity leader" and "brk (ld_mem leader) < limit (ld_mem leader)"
  shows "tpcleader_register leader req res =
     (let h = with_new leader req; p = brk (ld_mem leader); res = res\<lparr>resp_type := SUCCESS\<rparr>
      in case followers_head leader of
           None \<Rightarrow> Some (leader\<lparr>ld_mem := h, followers_head := Some p, follower_count := follower_count leader + 1\<rparr>, res)
         | Some f \<Rightarrow> do {
             pos \<leftarrow> reg_loop h f (fst (register_info req)) f;
             (case pos of
                Before cur \<Rightarrow> do {
                  h \<leftarrow> link_before h cur p;
                  let head = (if cur = f then p else f);
                  Some (leader\<lparr>ld_mem := h, followers_head := Some head, follower_count := follower_count leader + 1\<rparr>, res)
                }
              | Same \<Rightarrow> Some (leader\<lparr>ld_mem := h\<rparr>, res)
              | AtEnd \<Rightarrow> do {
                  h \<leftarrow> link_before h f p;
                  Some (leader\<lparr>ld_mem := h, follower_count := follower_count leader + 1\<rparr>, res)
                })
           })"
  using assms by (auto simp: tpcleader_register_def heap_simps with_new_def register_info_def Let_def
      split: option.splits)

lemma follower_count_Suc:
  assumes "unat (c :: 32 word) = n" and "n \<le> unat (cap :: 32 word)" and "c \<noteq> cap"
  shows "unat (c + 1) = Suc n" "Suc n \<le> unat cap"
proof -
  show *: "Suc n \<le> unat cap" using assms by (auto simp: word_unat_eq_iff)
  have "unat cap < 2 ^ 32" using unsigned_less [of cap] by simp
  with * assms(1) show "unat (c + 1) = Suc n" by (simp add: unat_word_ariths)
qed


lemma link_new:
  assumes ok: "heap_ok (ld_mem leader)" and r: "ring (ld_mem leader) ps"
    and inf: "infos (ld_mem leader) ps = map Some (us @ vs)" and vs: "vs \<noteq> []"
  shows "\<exists>h'. link_before (with_new leader req) (ps ! length us) (brk (ld_mem leader)) = Some h' \<and> heap_ok h' \<and>
    ring h' (take (length us) ps @ brk (ld_mem leader) # drop (length us) ps) \<and>
    infos h' (take (length us) ps @ brk (ld_mem leader) # drop (length us) ps) = map Some (us @ register_info req # vs)"
proof -
  let ?h = "with_new leader req" and ?p = "brk (ld_mem leader)" and ?k = "length us"
  let ?xs = "take ?k ps" and ?c = "ps ! ?k" and ?ys = "drop (Suc ?k) ps"
  note new = with_new_facts [OF ok r]
  have k: "?k < length ps" using infos_length [OF inf] vs by simp
  then have split: "ps = ?xs @ ?c # ?ys" "drop ?k ps = ?c # ?ys" by (simp_all add: id_take_nth_drop Cons_nth_drop_Suc)
  obtain n where n: "cells ?h ?p = Some n" using new_cell(1) by blast
  obtain h' where h': "link_before ?h ?c ?p = Some h'" "ring h' (?xs @ ?p # ?c # ?ys)"
      "\<forall>q. map_option finfo_of (cells h' q) = map_option finfo_of (cells ?h q)" "brk h' = brk ?h"
      "\<forall>q. cells h' q = None \<longleftrightarrow> cells ?h q = None"
    using link_in_ring [of ?h ?xs ?c ?ys ?p n] new(1,3) n split(1) by auto
  have "infos ?h ?xs @ infos ?h (?c # ?ys) = map Some us @ map Some vs"
    using new(2) inf split(1) by (metis infos_append map_append)
  then have i2: "infos ?h ?xs = map Some us" "infos ?h (?c # ?ys) = map Some vs"
    using k by (auto simp: infos_def append_eq_append_conv)
  have "infos h' (?xs @ ?p # ?c # ?ys) = map Some (us @ register_info req # vs)"
    using infos_frame [of "?xs @ ?p # ?c # ?ys" h' ?h] h'(3) i2 new_cell(2)
    by (simp add: infos_append) (simp add: infos_def)
  moreover have "heap_ok h'" using heap_ok_same_dom [OF heap_ok_with_new [OF ok]] h'(4,5) by blast
  ultimately show ?thesis using h'(1,2) split(2) by simp
qed

text \<open>The leader after a registration that added a node.\<close>

lemma leader_rep_added:
  assumes "leader_rep leader fs" and "follower_count leader \<noteq> follower_capacity leader"
    and "heap_ok h" and "ring h qs" and "infos h qs = map Some (ins_follower x fs)"
    and "length (ins_follower x fs) = Suc (length fs)"
  shows "leader_rep (leader\<lparr>ld_mem := h, followers_head := Some (hd qs), follower_count := follower_count leader + 1\<rparr>)
    (ins_follower x fs)"
proof -
  have "unat (follower_count leader) = length fs" "length fs \<le> unat (follower_capacity leader)" "sorted_wrt (<) (map fst fs)"
    using assms(1) by (auto simp: leader_rep_def)
  with follower_count_Suc [of "follower_count leader" "length fs" "follower_capacity leader"] assms ins_follower_sorted [of fs x]
  show ?thesis by (auto simp: leader_rep_def)
qed

lemma hd_insert_at:
  assumes "distinct ps" and "k < length ps"
  shows "hd (take k ps @ p # drop k ps) = (if ps ! k = hd ps then p else hd ps)"
proof (cases k)
  case 0
  with assms(2) show ?thesis by (cases ps) auto
next
  case (Suc j)
  with assms show ?thesis by (cases ps) auto
qed

lemma tpcleader_register_first:
  assumes rep: "leader_rep leader []" and room: "brk (ld_mem leader) < limit (ld_mem leader)"
    and nf: "follower_count leader \<noteq> follower_capacity leader"
  shows "\<exists>leader'. tpcleader_register leader req res = Some (leader', res\<lparr>resp_type := SUCCESS\<rparr>) \<and>
    leader_rep leader' (ins_follower (register_info req) []) \<and> follower_capacity leader' = follower_capacity leader"
proof -
  let ?h = "with_new leader req" and ?p = "brk (ld_mem leader)"
  have "ring ?h [?p]" by (auto simp: ring_def clink_def with_new_def Let_def)
  moreover have "infos ?h [?p] = map Some (ins_follower (register_info req) [])"
    using new_cell(2) by (simp add: infos_def)
  ultimately show ?thesis
    using rep leader_rep_added [OF rep nf, of ?h "[?p]"] heap_ok_with_new
    by (auto simp: register_start [OF nf room] leader_rep_def Let_def)
qed

text \<open>A follower after the last one is linked before the head, which leaves it at the end of the ring.\<close>

lemma link_at_end:
  assumes rep: "leader_rep leader fs" and nf: "follower_count leader \<noteq> follower_capacity leader"
    and ps: "followers_head leader = Some (hd ps)" "ring (ld_mem leader) ps" "infos (ld_mem leader) ps = map Some fs"
    and fs: "fs \<noteq> []" and ins: "ins_follower (register_info req) fs = fs @ [register_info req]"
  shows "\<exists>h'. link_before (with_new leader req) (hd ps) (brk (ld_mem leader)) = Some h' \<and>
    leader_rep (leader\<lparr>ld_mem := h', follower_count := follower_count leader + 1\<rparr>) (ins_follower (register_info req) fs)"
proof -
  let ?h = "with_new leader req" and ?p = "brk (ld_mem leader)" and ?x = "register_info req"
  have ok: "heap_ok (ld_mem leader)" using rep by (simp add: leader_rep_def)
  have ne: "ps \<noteq> []" using ps(2) by (auto simp: ring_def)
  obtain h' where h': "link_before ?h (hd ps) ?p = Some h'" "heap_ok h'" "ring h' (?p # ps)" "infos h' (?p # ps) = map Some (?x # fs)"
    using link_new [OF ok ps(2), of "[]" fs req] ps(3) fs ne by (auto simp: hd_conv_nth)
  have "ring h' (ps @ [?p])" "infos h' (ps @ [?p]) = map Some (ins_follower ?x fs)"
    using ring_rotate [of h' "[?p]" ps] h'(3,4) ins by (auto simp: infos_def)
  then have "leader_rep (leader\<lparr>ld_mem := h', followers_head := Some (hd (ps @ [?p])), follower_count := follower_count leader + 1\<rparr>)
      (ins_follower ?x fs)"
    using ins by (intro leader_rep_added [OF rep nf h'(2)]) simp_all
  moreover have "leader\<lparr>ld_mem := h', followers_head := Some (hd (ps @ [?p])), follower_count := c\<rparr> =
      leader\<lparr>ld_mem := h', follower_count := c\<rparr>" for c using ps(1) ne by (cases leader) simp
  ultimately show ?thesis using h'(1) by metis
qed

lemma tpcleader_register_rep:
  assumes rep: "leader_rep leader fs" and room: "brk (ld_mem leader) < limit (ld_mem leader)"
    and nf: "follower_count leader \<noteq> follower_capacity leader"
  shows "\<exists>leader'. tpcleader_register leader req res = Some (leader', res\<lparr>resp_type := SUCCESS\<rparr>) \<and>
    leader_rep leader' (ins_follower (register_info req) fs) \<and> follower_capacity leader' = follower_capacity leader"
proof (cases "fs = []")
  case True
  then show ?thesis using tpcleader_register_first [OF _ room nf] rep by simp
next
  case False
  let ?h = "with_new leader req" and ?p = "brk (ld_mem leader)" and ?x = "register_info req"
  obtain ps where ps: "followers_head leader = Some (hd ps)" "ring (ld_mem leader) ps" "infos (ld_mem leader) ps = map Some fs"
    using rep False by (auto simp: leader_rep_def)
  have ok: "heap_ok (ld_mem leader)" using rep by (simp add: leader_rep_def)
  have ne: "ps \<noteq> []" "distinct ps" using ps(2) by (auto simp: ring_def)
  note new = with_new_facts [OF ok ps(2)]
  obtain us vs where s: "fs = us @ vs" "\<forall>u \<in> set us. fst u < fst ?x"
      "reg_loop ?h (hd ps) (fst ?x) (hd ps) = Some (case vs of [] \<Rightarrow> AtEnd
           | v # _ \<Rightarrow> if fst v > fst ?x then Before (ps ! length us) else Same)"
      "case vs of [] \<Rightarrow> True | v # _ \<Rightarrow> fst v \<ge> fst ?x"
    using reg_loop_search [of ?h "[]" ps fs "hd ps" "fst ?x"] new ps(3) ne by auto
  note ins = ins_follower_less [OF s(2), of vs]
  show ?thesis
  proof (cases vs)
    case Nil
    have "ins_follower ?x fs = fs @ [?x]" using ins s(1) Nil by simp
    from link_at_end [OF rep nf ps False this] obtain h' where h': "link_before ?h (hd ps) ?p = Some h'"
      "leader_rep (leader\<lparr>ld_mem := h', follower_count := follower_count leader + 1\<rparr>) (ins_follower ?x fs)" by blast
    then show ?thesis using s(3) Nil h' ps(1) by (auto simp: register_start [OF nf room] Let_def)
  next
    case (Cons v vs')
    have k: "length us < length ps" using infos_length [OF ps(3)] s(1) Cons by simp
    show ?thesis
    proof (cases "fst v > fst ?x")
      case False
      then show ?thesis
        using Cons s ins ps new rep heap_ok_with_new [OF ok]
        by (auto simp: register_start [OF nf room] leader_rep_def Let_def)
    next
      case True
      let ?qs = "take (length us) ps @ ?p # drop (length us) ps"
      obtain h' where h': "link_before ?h (ps ! length us) ?p = Some h'" "heap_ok h'" "ring h' ?qs"
          "infos h' ?qs = map Some (us @ ?x # vs)"
        using link_new [OF ok ps(2), of us vs req] ps(3) s(1) Cons by auto
      have "leader_rep (leader\<lparr>ld_mem := h', followers_head := Some (hd ?qs), follower_count := follower_count leader + 1\<rparr>)
          (ins_follower ?x fs)"
        using h'(4) ins s(1) Cons True by (intro leader_rep_added [OF rep nf h'(2,3)]) simp_all
      then show ?thesis
        using Cons True s(3) h'(1) ps(1) hd_insert_at [OF ne(2) k, of ?p]
        by (auto simp: register_start [OF nf room] Let_def)
    qed
  qed
qed

lemma tpcleader_register_full:
  "follower_count leader = follower_capacity leader \<Longrightarrow>
   tpcleader_register leader req res = Some (leader, res\<lparr>resp_type := ERROR, resp_body := ERRMSG_FOLLOWER_CAPACITY\<rparr>)"
  by (simp add: tpcleader_register_def set_body_def msg_defs size_defs)


subsection \<open>The primary and the walk from it\<close>

text \<open>The position of the first follower whose identifier is greater than the hash, or the first of all.\<close>

definition primary_pos :: "finfo list \<Rightarrow> u64 \<Rightarrow> nat" where
  "primary_pos fs hash = (let k = length (takeWhile (\<lambda>f. \<not> fst f > hash) fs) in if k < length fs then k else 0)"

lemma primary_loop_search:
  assumes "ring h (xs @ ps)" and "ps \<noteq> []" and "infos h ps = map Some fs" and "head = hd (xs @ ps)"
  shows "primary_loop h head hash (hd ps) =
    Some (let k = length (takeWhile (\<lambda>f. \<not> fst f > hash) fs) in if k < length fs then ps ! k else head)"
  using assms
proof (induction ps arbitrary: xs fs)
  case (Cons p ps)
  obtain f fs' where fs: "fs = f # fs'" and f: "map_option finfo_of (cells h p) = Some f" and i': "infos h ps = map Some fs'"
    using Cons.prems(3) by (auto simp: infos_def)
  obtain c where c: "cells h p = Some c" "fnext c = hd (ps @ xs @ [p])"
    using ring_next [of h xs p ps] Cons.prems(1) by auto
  have step: "primary_loop h head hash p = (if fst f > hash then Some p
      else if fnext c \<noteq> head then primary_loop h head hash (fnext c) else Some head)"
    using c(1) f by (subst primary_loop.simps) (auto simp: heap_simps finfo_of_def)
  show ?case
  proof (cases "ps = []")
    case True
    then have "fnext c = head" "fs' = []" using c(2) Cons.prems(4) i' by (cases xs; auto simp: infos_def)+
    with True step fs show ?thesis by simp
  next
    case False
    have "distinct (xs @ p # ps)" using Cons.prems(1) by (simp add: ring_def)
    then have "fnext c \<noteq> head" "fnext c = hd ps" using c(2) Cons.prems(4) False by (cases xs; cases ps; auto)+
    with step fs Cons.IH [of "xs @ [p]" fs'] Cons.prems False i' show ?thesis by (simp add: Let_def)
  qed
qed simp

text \<open>The followers in the order of a walk from the primary.\<close>

definition walk :: "finfo list \<Rightarrow> string \<Rightarrow> finfo list" where
  "walk fs k = rotate (primary_pos fs (strhash64 k)) fs"

definition at_capacity :: "tpcleader_t \<Rightarrow> bool" where
  "at_capacity leader \<longleftrightarrow> follower_count leader = follower_capacity leader"

lemma ring_rotate_n: "ring h ps \<Longrightarrow> ring h (rotate n ps)"
proof (induction n)
  case (Suc n)
  then have r: "ring h (rotate n ps)" by simp
  then obtain p qs where pq: "rotate n ps = p # qs" by (cases "rotate n ps") (auto simp: ring_def)
  show ?case using ring_rotate [of h "[p]" qs] r pq by simp
qed simp

lemma infos_rotate: "infos h ps = map Some fs \<Longrightarrow> infos h (rotate n ps) = map Some (rotate n fs)"
  unfolding infos_def by (metis rotate_map)

lemma tpcleader_get_primary_rep:
  assumes rep: "leader_rep leader fs" and cap: "at_capacity leader" and ne: "fs \<noteq> []"
  shows "\<exists>ps. tpcleader_get_primary leader k = Some (Some (hd ps)) \<and> ring (ld_mem leader) ps \<and>
    infos (ld_mem leader) ps = map Some (walk fs k)"
proof -
  obtain ps where ps: "followers_head leader = Some (hd ps)" "ring (ld_mem leader) ps" "infos (ld_mem leader) ps = map Some fs"
    using rep ne by (auto simp: leader_rep_def)
  let ?k = "primary_pos fs (strhash64 k)"
  have len: "length ps = length fs" using infos_length [OF ps(3)] .
  have pne: "ps \<noteq> []" using ps(2) by (simp add: ring_def)
  have kl: "?k < length ps" using ne len by (auto simp: primary_pos_def Let_def)
  have "primary_loop (ld_mem leader) (hd ps) (strhash64 k) (hd ps) = Some (ps ! ?k)"
    using primary_loop_search [of "ld_mem leader" "[]" ps fs "hd ps" "strhash64 k"] ps pne len
    by (auto simp: primary_pos_def Let_def hd_conv_nth)
  moreover have "ps ! ?k = hd (rotate ?k ps)" using kl pne by (simp add: hd_rotate_conv_nth)
  ultimately have "tpcleader_get_primary leader k = Some (Some (hd (rotate ?k ps)))"
    using cap ps(1) by (simp add: tpcleader_get_primary_def at_capacity_def)
  then show ?thesis using ring_rotate_n [OF ps(2)] infos_rotate [OF ps(3)] by (auto simp: walk_def)
qed

lemma walk_set [simp]: "set (walk fs k) = set fs" "length (walk fs k) = length fs"
  by (simp_all add: walk_def)

lemma mset_rotate: "mset (rotate n xs) = mset xs"
  proof (induction n)
  case (Suc n)
  then show ?case by (cases "rotate n xs") auto
qed simp

lemma mset_walk: "mset (walk fs k) = mset fs"
  by (simp add: walk_def mset_rotate)

text \<open>One step of a walk: the node, its data and its successor.\<close>

lemma walk_step:
  assumes "ring (ld_mem leader) (xs @ p # ps)" and "infos (ld_mem leader) (p # ps) = map Some (f # fs)"
  shows "\<exists>c. load (ld_mem leader) p = Some c \<and> fhost c = fst (snd f) \<and> fport c = snd (snd f) \<and>
    tpcleader_get_successor leader p = Some (hd (ps @ xs @ [p])) \<and>
    (ps \<noteq> [] \<longrightarrow> hd ps \<noteq> hd (xs @ p # ps)) \<and> infos (ld_mem leader) ps = map Some fs \<and> (ps = [] \<longleftrightarrow> fs = [])"
proof -
  obtain c where c: "cells (ld_mem leader) p = Some c" "fnext c = hd (ps @ xs @ [p])"
    using ring_next [OF assms(1)] by blast
  have "distinct (xs @ p # ps)" using assms(1) by (simp add: ring_def)
  then have "ps \<noteq> [] \<longrightarrow> hd ps \<noteq> hd (xs @ p # ps)" by (cases xs; cases ps) auto
  with c assms(2) show ?thesis
    by (auto simp: heap_simps tpcleader_get_successor_def infos_def finfo_of_def)
qed

subsection \<open>The protocol on the list of followers\<close>

fun poll_list :: "'w net \<Rightarrow> kvrequest_t \<Rightarrow> finfo list \<Rightarrow> bool \<Rightarrow> kvresponse_t \<Rightarrow> 'w \<Rightarrow> (bool \<times> kvresponse_t \<times> 'w) option" where
  "poll_list net req [] abort res w = Some (abort, res, w)"
| "poll_list net req (f # fs) abort res w = do {
     (r, w) \<leftarrow> exchange net (\<lambda>ret. \<not> ret < 0) w (fst (snd f)) (snd (snd f)) req;
     poll_list net req fs (case r of None \<Rightarrow> True | Some _ \<Rightarrow> abort) (case r of None \<Rightarrow> res | Some res \<Rightarrow> res) w
   }"

text \<open>Asking one follower until it answers.\<close>

partial_function (option) ask :: "'w net \<Rightarrow> kvrequest_t \<Rightarrow> finfo \<Rightarrow> 'w \<Rightarrow> (kvresponse_t \<times> 'w) option" where
  "ask net req f w = do {
     (r, w) \<leftarrow> exchange net (\<lambda>ret. \<not> ret < 0) w (fst (snd f)) (snd (snd f)) req;
     (case r of None \<Rightarrow> ask net req f w | Some res \<Rightarrow> Some (res, w))
   }"

fun ask_list :: "'w net \<Rightarrow> kvrequest_t \<Rightarrow> finfo list \<Rightarrow> kvresponse_t \<Rightarrow> 'w \<Rightarrow> (kvresponse_t \<times> 'w) option" where
  "ask_list net req [] res w = Some (res, w)"
| "ask_list net req (f # fs) res w = do { (res, w) \<leftarrow> ask net req f w; ask_list net req fs res w }"

fun get_list :: "'w net \<Rightarrow> kvrequest_t \<Rightarrow> finfo list \<Rightarrow> 'w \<Rightarrow> (kvresponse_t option \<times> 'w) option" where
  "get_list net req [] w = Some (None, w)"
| "get_list net req (f # fs) w = do {
     (r, w) \<leftarrow> exchange net (\<lambda>ret. ret > 0) w (fst (snd f)) (snd (snd f)) req;
     (case r of Some res \<Rightarrow> Some (Some res, w) | None \<Rightarrow> get_list net req fs w)
   }"

lemma poll_loop_list:
  assumes "ring (ld_mem leader) (xs @ ps)" and "ps \<noteq> []" and "infos (ld_mem leader) ps = map Some fs" and "primary = hd (xs @ ps)"
  shows "poll_loop net leader req primary (hd ps) abort res w = poll_list net req fs abort res w"
  using assms
proof (induction ps arbitrary: xs fs abort res w)
  case (Cons p ps)
  obtain f fs' where fs: "fs = f # fs'" using Cons.prems(3) by (auto simp: infos_def)
  obtain c where c: "load (ld_mem leader) p = Some c" "fhost c = fst (snd f)" "fport c = snd (snd f)"
      "tpcleader_get_successor leader p = Some (hd (ps @ xs @ [p]))" "ps \<noteq> [] \<longrightarrow> hd ps \<noteq> hd (xs @ p # ps)"
      "infos (ld_mem leader) ps = map Some fs'" "ps = [] \<longleftrightarrow> fs' = []"
    using walk_step [of leader xs p ps f fs'] Cons.prems fs by auto
  show ?case
  proof (cases "ps = []")
    case True
    then have "hd (ps @ xs @ [p]) = primary" using Cons.prems(4) by (cases xs) auto
    moreover have "fs' = []" using c(7) True by simp
    ultimately show ?thesis using c(1-4) fs by (subst poll_loop.simps) (simp add: Let_def split_def)
  next
    case False
    then have IH: "poll_loop net leader req primary (hd ps) a r w = poll_list net req fs' a r w" for a r w
      using Cons.IH [of "xs @ [p]" fs'] Cons.prems c(6) by simp
    have "hd (ps @ xs @ [p]) = hd ps" "hd ps \<noteq> primary" using False c(5) Cons.prems(4) by auto
    with c fs IH show ?thesis by (subst poll_loop.simps) (simp add: Let_def)
  qed
qed simp


lemma get_loop_list:
  assumes "ring (ld_mem leader) (xs @ ps)" and "ps \<noteq> []" and "infos (ld_mem leader) ps = map Some fs" and "primary = hd (xs @ ps)"
  shows "get_loop net leader req primary (hd ps) w = get_list net req fs w"
  using assms
proof (induction ps arbitrary: xs fs w)
  case (Cons p ps)
  obtain f fs' where fs: "fs = f # fs'" using Cons.prems(3) by (auto simp: infos_def)
  obtain c where c: "load (ld_mem leader) p = Some c" "fhost c = fst (snd f)" "fport c = snd (snd f)"
      "tpcleader_get_successor leader p = Some (hd (ps @ xs @ [p]))" "ps \<noteq> [] \<longrightarrow> hd ps \<noteq> hd (xs @ p # ps)"
      "infos (ld_mem leader) ps = map Some fs'" "ps = [] \<longleftrightarrow> fs' = []"
    using walk_step [of leader xs p ps f fs'] Cons.prems fs by auto
  show ?case
  proof (cases "ps = []")
    case True
    then have "hd (ps @ xs @ [p]) = primary" using Cons.prems(4) by (cases xs) auto
    with c True fs show ?thesis by (subst get_loop.simps) (simp add: Let_def cong: option.case_cong)
  next
    case False
    then have IH: "get_loop net leader req primary (hd ps) w = get_list net req fs' w" for w
      using Cons.IH [of "xs @ [p]" fs'] Cons.prems c(6) by simp
    have "hd (ps @ xs @ [p]) = hd ps" "hd ps \<noteq> primary" using False c(5) Cons.prems(4) by auto
    with c fs IH show ?thesis by (subst get_loop.simps) (simp add: Let_def cong: option.case_cong)
  qed
qed simp

text \<open>The second loop asks every follower until it answers.  One direction is an induction on the run of \<open>ask\<close>, and
  both loops run forever together.\<close>

lemmas ask_induct = ask.raw_induct [rotated, consumes 1, case_names step]
lemmas commit_loop_induct = commit_loop.raw_induct [rotated, consumes 1, case_names step]

lemma ask_commit_loop_aux:
  assumes "load (ld_mem leader) p = Some c" and "tpcleader_get_successor leader p = Some s" and "p \<noteq> primary \<or> first_time"
  shows "ask net req f w = Some y \<Longrightarrow> fhost c = fst (snd f) \<and> fport c = snd (snd f) \<longrightarrow>
    (\<forall>res. commit_loop net leader req primary p first_time res w =
      (if s \<noteq> primary then commit_loop net leader req primary s False (fst y) (snd y) else Some y))"
proof (induction rule: ask_induct)
  case (step ask' net req f w y)
  show ?case
  proof (intro impI allI)
    fix res
    assume c: "fhost c = fst (snd f) \<and> fport c = snd (snd f)"
    from step(2) obtain r w' where e: "exchange net (\<lambda>ret. \<not> ret < 0) w (fst (snd f)) (snd (snd f)) req = Some (r, w')"
        and r: "(case r of None \<Rightarrow> ask' net req f w' | Some res \<Rightarrow> Some (res, w')) = Some y"
      by (auto split: bind_splits)
    show "commit_loop net leader req primary p first_time res w =
      (if s \<noteq> primary then commit_loop net leader req primary s False (fst y) (snd y) else Some y)"
    proof (cases r)
      case None
      then have "commit_loop net leader req primary p first_time res w' =
          (if s \<noteq> primary then commit_loop net leader req primary s False (fst y) (snd y) else Some y)"
        using step(1) [of net req f w' y] r c by auto
      then show ?thesis using None e c assms by (subst commit_loop.simps) simp
    next
      case (Some res')
      then show ?thesis using r e c assms by (subst commit_loop.simps) auto
    qed
  qed
qed

lemma commit_loop_list:
  assumes "ring (ld_mem leader) (xs @ ps)" and "ps \<noteq> []" and "infos (ld_mem leader) ps = map Some fs" and "primary = hd (xs @ ps)"
    and "ask_list net req fs res w = Some r" and "first_time \<longleftrightarrow> xs = []"
  shows "commit_loop net leader req primary (hd ps) first_time res w = Some r"
  using assms
proof (induction ps arbitrary: xs fs res w first_time)
  case (Cons p ps)
  obtain f fs' where fs: "fs = f # fs'" using Cons.prems(3) by (auto simp: infos_def)
  obtain c where c: "load (ld_mem leader) p = Some c" "fhost c = fst (snd f)" "fport c = snd (snd f)"
      "tpcleader_get_successor leader p = Some (hd (ps @ xs @ [p]))" "ps \<noteq> [] \<longrightarrow> hd ps \<noteq> hd (xs @ p # ps)"
      "infos (ld_mem leader) ps = map Some fs'" "ps = [] \<longleftrightarrow> fs' = []"
    using walk_step [of leader xs p ps f fs'] Cons.prems fs by auto
  obtain y where y: "ask net req f w = Some y" "ask_list net req fs' (fst y) (snd y) = Some r"
    using Cons.prems(5) fs by (auto split: bind_splits)
  have "distinct (xs @ p # ps)" using Cons.prems(1) by (simp add: ring_def)
  then have go: "p \<noteq> primary \<or> first_time" using Cons.prems(4,6) by (cases xs) auto
  have stp: "commit_loop net leader req primary p first_time res w =
      (if hd (ps @ xs @ [p]) \<noteq> primary then commit_loop net leader req primary (hd (ps @ xs @ [p])) False (fst y) (snd y) else Some y)"
    using ask_commit_loop_aux [OF c(1,4) go y(1)] c(2,3) by simp
  show ?case
  proof (cases "ps = []")
    case True
    then have "hd (ps @ xs @ [p]) = primary" using Cons.prems(4) by (cases xs) auto
    with stp y(2) c(7) True show ?thesis by simp
  next
    case False
    then have "hd (ps @ xs @ [p]) = hd ps" "hd ps \<noteq> primary" using c(5) Cons.prems(4) by auto
    with stp Cons.IH [of "xs @ [p]" fs' "fst y" "snd y" False] Cons.prems False c(6) y(2) show ?thesis by simp
  qed
qed simp

lemma commit_loop_list_conv:
  "commit_loop net leader req primary p first_time res w = Some r \<Longrightarrow>
   \<forall>xs ps fs. ring (ld_mem leader) (xs @ p # ps) \<longrightarrow> infos (ld_mem leader) (p # ps) = map Some fs \<longrightarrow> primary = hd (xs @ p # ps) \<longrightarrow>
     (first_time \<longleftrightarrow> xs = []) \<longrightarrow> ask_list net req fs res w = Some r"
proof (induction rule: commit_loop_induct)
  case (step loop net leader req primary p first_time res w r)
  show ?case
  proof (intro allI impI)
    fix xs ps fs
    assume prems: "ring (ld_mem leader) (xs @ p # ps)" "infos (ld_mem leader) (p # ps) = map Some fs" "primary = hd (xs @ p # ps)"
      "first_time \<longleftrightarrow> xs = []"
    obtain f fs' where fs: "fs = f # fs'" using prems(2) by (auto simp: infos_def)
    obtain c where c: "load (ld_mem leader) p = Some c" "fhost c = fst (snd f)" "fport c = snd (snd f)"
        "tpcleader_get_successor leader p = Some (hd (ps @ xs @ [p]))" "ps \<noteq> [] \<longrightarrow> hd ps \<noteq> hd (xs @ p # ps)"
        "infos (ld_mem leader) ps = map Some fs'" "ps = [] \<longleftrightarrow> fs' = []"
      using walk_step [of leader xs p ps f fs'] prems fs by auto
    have "distinct (xs @ p # ps)" using prems(1) by (simp add: ring_def)
    then have go: "p \<noteq> primary \<or> first_time" using prems(3,4) by (cases xs) auto
    from step(2) c obtain a w' where e: "exchange net (\<lambda>ret. \<not> ret < 0) w (fst (snd f)) (snd (snd f)) req = Some (a, w')"
      by (auto split: bind_splits)
    show "ask_list net req fs res w = Some r"
    proof (cases a)
      case None
      then have "loop net leader req primary p first_time res w' = Some r" using step(2) c e go by simp
      then have "ask_list net req fs res w' = Some r" using step(1) prems by blast
      then show ?thesis using fs e None by (simp add: ask.simps [of net req f w])
    next
      case (Some res')
      show ?thesis
      proof (cases "ps = []")
        case True
        then have "hd (ps @ xs @ [p]) = primary" using prems(3) by (cases xs) auto
        then show ?thesis using step(2) c e Some fs True by (auto simp: ask.simps [of net req f w])
      next
        case False
        then obtain q qs where q: "ps = q # qs" by (cases ps) auto
        have "q \<noteq> primary" using q c(5) prems(3) by auto
        then have "loop net leader req primary q False res' w' = Some r" using step(2) c e Some q by simp
        then have "ask_list net req fs' res' w' = Some r"
          using step(1) [of net leader req primary q False res' w' r, THEN spec, THEN spec, THEN spec, of "xs @ [p]" qs fs']
            prems c(6) q by simp
        then show ?thesis using fs e Some by (simp add: ask.simps [of net req f w])
      qed
    qed
  qed
qed


lemma commit_loop_eq:
  assumes "ring (ld_mem leader) ps" and "infos (ld_mem leader) ps = map Some fs"
  shows "commit_loop net leader req (hd ps) (hd ps) True res w = ask_list net req fs res w"
proof -
  have ne: "ps \<noteq> []" using assms(1) by (simp add: ring_def)
  show ?thesis
  proof (cases "ask_list net req fs res w")
    case None
    have "commit_loop net leader req (hd ps) (hd ps) True res w \<noteq> Some r" for r
      using commit_loop_list_conv [of net leader req "hd ps" "hd ps" True res w r] None assms ne
      by (metis append_Nil list.collapse not_None_eq)
    with None show ?thesis by (metis not_None_eq)
  next
    case (Some r)
    then show ?thesis using commit_loop_list [of leader "[]" ps fs "hd ps" net req res w r True] assms ne by simp
  qed
qed

text \<open>Two-phase commit over a list of followers: poll each of them once; ask each of them to commit when all of them
  answered and to abort otherwise, until it answers.\<close>

definition tpc_list :: "'w net \<Rightarrow> finfo list \<Rightarrow> kvrequest_t \<Rightarrow> kvresponse_t \<Rightarrow> 'w \<Rightarrow> (kvresponse_t \<times> 'w) option" where
  "tpc_list net fs req res w = do {
     (abort, res, w) \<leftarrow> poll_list net req fs False res w;
     (res, w) \<leftarrow> ask_list net (req\<lparr>req_type := (if abort then ABORT else COMMIT)\<rparr>) fs res w;
     Some (if abort then \<lparr>resp_type = ERROR, resp_body = ERRMSG_GENERIC_ERROR\<rparr> else res\<lparr>resp_type := SUCCESS\<rparr>, w)
   }"

lemma set_body_generic [simp]:
  "set_body res ERROR ERRMSG_GENERIC_ERROR = Some \<lparr>resp_type = ERROR, resp_body = ERRMSG_GENERIC_ERROR\<rparr>"
  "set_body res ERROR ERRMSG_NOT_AT_CAPACITY = Some \<lparr>resp_type = ERROR, resp_body = ERRMSG_NOT_AT_CAPACITY\<rparr>"
  by (cases res; simp add: set_body_def msg_defs size_defs)+

lemma tpcleader_handle_tpc_walk:
  assumes rep: "leader_rep leader fs" and cap: "at_capacity leader" and ne: "fs \<noteq> []"
  shows "tpcleader_handle_tpc net leader req res w = tpc_list net (walk fs (req_key req)) req res w"
proof -
  obtain ps where ps: "tpcleader_get_primary leader (req_key req) = Some (Some (hd ps))" "ring (ld_mem leader) ps"
      "infos (ld_mem leader) ps = map Some (walk fs (req_key req))"
    using tpcleader_get_primary_rep [OF rep cap ne] by blast
  have pn: "ps \<noteq> []" using ps(2) by (simp add: ring_def)
  have "poll_loop net leader req (hd ps) (hd ps) False res w = poll_list net req (walk fs (req_key req)) False res w"
    using poll_loop_list [of leader "[]" ps "walk fs (req_key req)" "hd ps"] ps pn by simp
  with ps(1) cap show ?thesis
    by (auto simp: tpcleader_handle_tpc_def tpc_list_def at_capacity_def Let_def commit_loop_eq [OF ps(2,3)] split: bind_splits)
qed

lemma tpcleader_handle_get_walk:
  assumes rep: "leader_rep leader fs" and cap: "at_capacity leader" and ne: "fs \<noteq> []"
  shows "tpcleader_handle_get net leader req res w = do {
     (r, w) \<leftarrow> get_list net req (walk fs (req_key req)) w;
     Some (case r of Some res \<Rightarrow> res | None \<Rightarrow> \<lparr>resp_type = ERROR, resp_body = ERRMSG_GENERIC_ERROR\<rparr>, w) }"
proof -
  obtain ps where ps: "tpcleader_get_primary leader (req_key req) = Some (Some (hd ps))" "ring (ld_mem leader) ps"
      "infos (ld_mem leader) ps = map Some (walk fs (req_key req))"
    using tpcleader_get_primary_rep [OF rep cap ne] by blast
  have pn: "ps \<noteq> []" using ps(2) by (simp add: ring_def)
  have "get_loop net leader req (hd ps) (hd ps) w = get_list net req (walk fs (req_key req)) w"
    using get_loop_list [of leader "[]" ps "walk fs (req_key req)" "hd ps"] ps pn by simp
  with ps(1) show ?thesis by (auto simp: tpcleader_handle_get_def split: bind_splits option.splits)
qed

lemma leader_rep_init: "heap_ok h \<Longrightarrow> leader_rep (tpcleader_init h cap red) []"
  by (simp add: leader_rep_def tpcleader_init_def)

lemma primary_pos_spec:
  assumes "sorted_wrt (<) (map fst fs)" and "fs \<noteq> []"
  shows "hd (rotate (primary_pos fs hash) fs) =
    (case find (\<lambda>f. fst f > hash) fs of Some f \<Rightarrow> f | None \<Rightarrow> hd fs)"
proof -
  let ?k = "length (takeWhile (\<lambda>f. \<not> fst f > hash) fs)"
  have f: "find (\<lambda>f. fst f > hash) fs = (if ?k < length fs then Some (fs ! ?k) else None)"
    by (induction fs) auto
  have "hd (rotate (primary_pos fs hash) fs) = fs ! (primary_pos fs hash mod length fs)"
    using assms(2) by (simp add: hd_rotate_conv_nth)
  then show ?thesis using f assms(2) by (auto simp: primary_pos_def Let_def hd_conv_nth)
qed

subsection \<open>Runs of registrations and outcomes of a poll\<close>

fun register_run :: "tpcleader_t \<Rightarrow> kvrequest_t list \<Rightarrow> kvresponse_t \<Rightarrow> tpcleader_t option" where
  "register_run leader [] res = Some leader"
| "register_run leader (req # reqs) res = do { (leader, _) \<leftarrow> tpcleader_register leader req res; register_run leader reqs res }"

definition register_spec :: "nat \<Rightarrow> kvrequest_t \<Rightarrow> finfo list \<Rightarrow> finfo list" where
  "register_spec cap req fs = (if length fs = cap then fs else ins_follower (register_info req) fs)"

lemma tpcleader_register_spec:
  assumes rep: "leader_rep leader fs" and room: "brk (ld_mem leader) < limit (ld_mem leader)"
  shows "\<exists>leader' res'. tpcleader_register leader req res = Some (leader', res') \<and>
    leader_rep leader' (register_spec (unat (follower_capacity leader)) req fs) \<and>
    follower_capacity leader' = follower_capacity leader \<and>
    (resp_type res' = SUCCESS \<longleftrightarrow> length fs \<noteq> unat (follower_capacity leader))"
proof (cases "follower_count leader = follower_capacity leader")
  case True
  then show ?thesis using rep tpcleader_register_full [of leader req res]
    by (simp add: register_spec_def leader_rep_def)
next
  case False
  then have "length fs \<noteq> unat (follower_capacity leader)" using rep by (auto simp: leader_rep_def word_unat_eq_iff)
  then show ?thesis using tpcleader_register_rep [OF rep room False, of req res] by (auto simp: register_spec_def)
qed

lemma register_heap:
  assumes "tpcleader_register leader req res = Some (leader', res')"
  shows "limit (ld_mem leader') = limit (ld_mem leader) \<and> brk (ld_mem leader') \<le> Suc (brk (ld_mem leader))"
  using assms
  by (auto simp: tpcleader_register_def new_def modify_def link_before_def Let_def load_def
      split: if_splits bind_splits option.splits reg_pos.splits)

lemma register_run_rep:
  assumes "leader_rep leader fs" and "brk (ld_mem leader) + length reqs \<le> limit (ld_mem leader)"
  shows "\<exists>leader'. register_run leader reqs res = Some leader' \<and>
    leader_rep leader' (fold (register_spec (unat (follower_capacity leader))) reqs fs) \<and>
    follower_capacity leader' = follower_capacity leader"
  using assms
proof (induction reqs arbitrary: leader fs)
  case (Cons req reqs)
  obtain leader' res' where l: "tpcleader_register leader req res = Some (leader', res')"
      "leader_rep leader' (register_spec (unat (follower_capacity leader)) req fs)"
      "follower_capacity leader' = follower_capacity leader"
    using tpcleader_register_spec [OF Cons.prems(1), of req res] Cons.prems(2) by auto
  have "brk (ld_mem leader') + length reqs \<le> limit (ld_mem leader')" using register_heap [OF l(1)] Cons.prems(2) by simp
  from Cons.IH [OF l(2) this] l show ?case by simp
qed simp

text \<open>The answers of the first phase.\<close>

fun outcomes :: "'w net \<Rightarrow> kvrequest_t \<Rightarrow> finfo list \<Rightarrow> 'w \<Rightarrow> (kvresponse_t option list \<times> 'w) option" where
  "outcomes net req [] w = Some ([], w)"
| "outcomes net req (f # fs) w = do {
     (r, w) \<leftarrow> exchange net (\<lambda>ret. \<not> ret < 0) w (fst (snd f)) (snd (snd f)) req;
     (rs, w) \<leftarrow> outcomes net req fs w;
     Some (r # rs, w) }"

lemma poll_list_outcomes:
  "poll_list net req fs abort res w = Some (abort', res', w') \<Longrightarrow>
   \<exists>rs. outcomes net req fs w = Some (rs, w') \<and> (abort' \<longleftrightarrow> abort \<or> None \<in> set rs)"
proof (induction fs arbitrary: abort res w)
  case (Cons f fs)
  then show ?case by (fastforce split: bind_splits option.splits)
qed simp

lemma tpc_list_success:
  assumes "tpc_list net fs req res w = Some (res', w')"
  shows "\<exists>rs w1. outcomes net req fs w = Some (rs, w1) \<and> (resp_type res' = SUCCESS \<longleftrightarrow> None \<notin> set rs)"
  using assms by (auto simp: tpc_list_def split: bind_splits if_splits dest!: poll_list_outcomes)

text \<open>A network of one follower that answers every request with an error.\<close>

definition error_net :: "unit net" where
  "error_net w host port = Connected (replicate 2116 1)
     (\<lambda>sent. (''HTTP/1.1 500 Internal Server Error'' @ [CR, LF] @ ''Content-Length: 0'' @ [CR, LF, CR, LF], ()))"


lemma error_net_exchange:
  assumes "kvreq_wf req"
  shows "exchange error_net (\<lambda>ret. \<not> ret < 0) w host port req = Some (Some \<lparr>resp_type = ERROR, resp_body = []\<rparr>, ())"
proof -
  obtain bytes where "kvrequest_send (replicate 2116 1) req = Some (int (length bytes), bytes)"
    using kvrequest_roundtrip [OF assms] http_outbound_send_complete [of "replicate 2116 1"] kvrequest_message_length [of req]
    by (fastforce simp: kvrequest_send_def size_defs)
  moreover have "kvresponse_receive (''HTTP/1.1 500 Internal Server Error'' @ [CR, LF] @ ''Content-Length: 0'' @ [CR, LF, CR, LF]) =
      Some (Some \<lparr>resp_type = ERROR, resp_body = []\<rparr>)"
    by code_simp
  ultimately show ?thesis by (simp add: exchange_def error_net_def)
qed

subsection \<open>Properties\<close>


definition sample_leader :: tpcleader_t where
  "sample_leader = tpcleader_init (empty_heap 10) 1 1"

definition sample_register :: kvrequest_t where
  "sample_register = \<lparr>req_type = REGISTER, req_key = ''127.0.0.1'', req_val = ''16201''\<rparr>"


text \<open>C31: at capacity, the primary of a key is the first follower whose identifier is greater than the hash of the
  key, or the follower with the lowest identifier when there is none; below capacity there is no primary, and
  writes and lookups are answered with an error and reach no follower.\<close>

theorem tpcleader_primary:
  assumes "leader_rep leader fs" and "fs \<noteq> []"
  shows "(at_capacity leader \<longrightarrow> (\<exists>p c. tpcleader_get_primary leader k = Some (Some p) \<and> cells (ld_mem leader) p = Some c \<and>
           finfo_of c = (case find (\<lambda>f. fst f > strhash64 k) fs of Some f \<Rightarrow> f | None \<Rightarrow> hd fs))) \<and>
    (\<not> at_capacity leader \<longrightarrow> tpcleader_get_primary leader k = Some None \<and>
       tpcleader_handle_tpc net leader req res w = Some (\<lparr>resp_type = ERROR, resp_body = ERRMSG_NOT_AT_CAPACITY\<rparr>, w) \<and>
       tpcleader_handle_get net leader req res w = Some (\<lparr>resp_type = ERROR, resp_body = ERRMSG_NOT_AT_CAPACITY\<rparr>, w))"
proof (intro conjI impI)
  assume cap: "at_capacity leader"
  obtain ps where ps: "tpcleader_get_primary leader k = Some (Some (hd ps))" "ring (ld_mem leader) ps"
      "infos (ld_mem leader) ps = map Some (walk fs k)"
    using tpcleader_get_primary_rep [OF assms(1) cap assms(2)] by blast
  obtain q qs where q: "ps = q # qs" using ps(2) by (cases ps) (auto simp: ring_def)
  obtain f gs where f: "walk fs k = f # gs" using ps(3) q by (cases "walk fs k") (auto simp: infos_def)
  have "hd (walk fs k) = (case find (\<lambda>f. fst f > strhash64 k) fs of Some f \<Rightarrow> f | None \<Rightarrow> hd fs)"
    using primary_pos_spec [of fs "strhash64 k"] assms by (simp add: walk_def leader_rep_def)
  then show "\<exists>p c. tpcleader_get_primary leader k = Some (Some p) \<and> cells (ld_mem leader) p = Some c \<and>
      finfo_of c = (case find (\<lambda>f. fst f > strhash64 k) fs of Some f \<Rightarrow> f | None \<Rightarrow> hd fs)"
    using ps q f by (auto simp: infos_def)
next
  assume "\<not> at_capacity leader"
  then have "follower_count leader < follower_capacity leader" "follower_count leader \<noteq> follower_capacity leader"
    using assms(1) by (auto simp: at_capacity_def leader_rep_def word_less_nat_alt word_unat_eq_iff)
  then show "tpcleader_get_primary leader k = Some None"
    "tpcleader_handle_tpc net leader req res w = Some (\<lparr>resp_type = ERROR, resp_body = ERRMSG_NOT_AT_CAPACITY\<rparr>, w)"
    "tpcleader_handle_get net leader req res w = Some (\<lparr>resp_type = ERROR, resp_body = ERRMSG_NOT_AT_CAPACITY\<rparr>, w)"
    by (simp_all add: tpcleader_get_primary_def tpcleader_handle_tpc_def tpcleader_handle_get_def)
qed

lemma sample_leader_full:
  "\<exists>leader. leader_rep leader [register_info sample_register] \<and> at_capacity leader"
proof -
  have "leader_rep sample_leader []" by (simp add: sample_leader_def leader_rep_init)
  from tpcleader_register_rep [OF this, of sample_register "\<lparr>resp_type = EMPTY, resp_body = []\<rparr>"]
  obtain leader where "leader_rep leader [register_info sample_register]" "follower_capacity leader = 1"
    by (auto simp: sample_leader_def tpcleader_init_def empty_heap_def)
  then show ?thesis by (auto simp: leader_rep_def at_capacity_def word_unat_eq_iff)
qed

theorem tpcleader_primary_witness:
  "\<exists>leader p c. tpcleader_get_primary leader ''k'' = Some (Some p) \<and> cells (ld_mem leader) p = Some c \<and>
     finfo_of c = register_info sample_register"
proof -
  obtain leader where "leader_rep leader [register_info sample_register]" "at_capacity leader"
    using sample_leader_full by blast
  with tpcleader_primary [OF this(1), of "''k''"] show ?thesis by (auto split: if_splits)
qed



text \<open>C38: the client is told \<^const>\<open>SUCCESS\<close> exactly when every follower answered the poll with some response that
  decodes: the vote in it, the message \<open>commit\<close> or an error, plays no part.\<close>

theorem tpcleader_counts_answers_as_votes:
  assumes "leader_rep leader fs" and "at_capacity leader" and "fs \<noteq> []"
    and "tpcleader_handle_tpc net leader req res w = Some (res', w')"
  shows "\<exists>rs w1. outcomes net req (walk fs (req_key req)) w = Some (rs, w1) \<and>
    (resp_type res' = SUCCESS \<longleftrightarrow> None \<notin> set rs)"
  using assms(4) unfolding tpcleader_handle_tpc_walk [OF assms(1-3)] by (rule tpc_list_success)

theorem tpcleader_counts_answers_as_votes_witness:
  "\<exists>leader res' w'. tpcleader_handle_tpc error_net leader \<lparr>req_type = PUTREQ, req_key = ''k'', req_val = ''v''\<rparr>
      \<lparr>resp_type = EMPTY, resp_body = []\<rparr> () = Some (res', w') \<and> resp_type res' = SUCCESS \<and>
    outcomes error_net \<lparr>req_type = PUTREQ, req_key = ''k'', req_val = ''v''\<rparr> [register_info sample_register] () =
      Some ([Some \<lparr>resp_type = ERROR, resp_body = []\<rparr>], ())"
proof -
  let ?req = "\<lparr>req_type = PUTREQ, req_key = ''k'', req_val = ''v''\<rparr>" and ?res = "\<lparr>resp_type = EMPTY, resp_body = []\<rparr>"
  obtain leader where l: "leader_rep leader [register_info sample_register]" "at_capacity leader"
    using sample_leader_full by blast
  have wf: "kvreq_wf ?req" "kvreq_wf (?req\<lparr>req_type := COMMIT\<rparr>)" by (simp_all add: kvreq_wf_def param_text_def size_defs)
  have out: "outcomes error_net ?req [register_info sample_register] () = Some ([Some \<lparr>resp_type = ERROR, resp_body = []\<rparr>], ())"
    using error_net_exchange [OF wf(1)] by simp
  have h: "tpcleader_handle_tpc error_net leader ?req ?res () = Some (\<lparr>resp_type = SUCCESS, resp_body = []\<rparr>, ())"
    unfolding tpcleader_handle_tpc_walk [OF l not_Cons_self2]
    using error_net_exchange [OF wf(1)] error_net_exchange [OF wf(2)]
    by (simp add: tpc_list_def walk_def ask.simps)
  have "resp_type \<lparr>resp_type = SUCCESS, resp_body = []\<rparr> = SUCCESS"
    using tpcleader_counts_answers_as_votes [OF l not_Cons_self2 h] out by (auto simp: walk_def simp del: outcomes.simps)
  with h out show ?thesis by blast
qed

text \<open>The array that holds the address of a follower is two bytes too short for the text and its terminator.\<close>

lemma tpcleader_address_overflow:
  "length (follower_address host port) + 1 = address_size host port + 2"
  by (simp add: follower_address_def address_size_def)

end
