(* ===== verification/TPC_Cluster.thy ===== *)
theory TPC_Cluster
  imports TPC_Leader
begin

text \<open>
  A leader and its followers together.  The locale \<open>cluster\<close> is what the leader relies on: a network in
  which a follower that is asked at its address answers as a follower promises.  Inside it, the two phases
  of the protocol update every registered follower, and replicas that agree stay in agreement.

  The interpretation connects the leader to followers that run \<^const>\<open>tpcfollower_handle\<close> on their own file
  systems, message by message and byte by byte.
\<close>

subsection \<open>The leader's view of the followers\<close>

type_synonym addr = "string \<times> 32 word"
type_synonym cview = "addr \<rightharpoonup> fstate"

definition step_state :: "fstate \<Rightarrow> kvrequest_t \<Rightarrow> fstate" where
  "step_state st req = snd (follower_spec st req [])"

lemma follower_spec_state: "snd (follower_spec st req old) = step_state st req"
  by (cases st; cases "req_type req") (simp_all add: step_state_def follower_spec_def Let_def)

text \<open>All of the addresses take the step.\<close>

definition step_view :: "kvrequest_t \<Rightarrow> addr list \<Rightarrow> cview \<Rightarrow> cview" where
  "step_view req as V = (\<lambda>a. if a \<in> set as then map_option (\<lambda>st. step_state st req) (V a) else V a)"

definition members_ok :: "kvrequest_t \<Rightarrow> addr list \<Rightarrow> cview \<Rightarrow> bool" where
  "members_ok req as V \<longleftrightarrow> (\<forall>a \<in> set as. \<exists>st. V a = Some st \<and> request_ok st req)"

lemma step_view_Nil [simp]: "step_view req [] V = V"
  by (simp add: step_view_def fun_eq_iff)

lemma step_view_Cons:
  "V a = Some st \<Longrightarrow> a \<notin> set as \<Longrightarrow> step_view req (a # as) V = step_view req as (V(a \<mapsto> step_state st req))"
  by (auto simp: step_view_def fun_eq_iff)

lemma members_ok_Cons:
  "members_ok req (a # as) V \<Longrightarrow> a \<notin> set as \<Longrightarrow> members_ok req as (V(a \<mapsto> st))"
  by (auto simp: members_ok_def)

lemma step_view_set: "set as = set bs \<Longrightarrow> step_view req as V = step_view req bs V"
  by (simp add: step_view_def)

subsection \<open>What the leader relies on\<close>

locale cluster =
  fixes net :: "'w net"
    and rep :: "'w \<Rightarrow> cview \<Rightarrow> bool"
  assumes answers: "rep w V \<Longrightarrow> V (host, port) = Some st \<Longrightarrow> kvreq_wf req \<Longrightarrow> request_ok st req \<Longrightarrow>
      (\<And>n. 0 < n \<Longrightarrow> sent_ok n) \<Longrightarrow>
      \<exists>old r w'. exchange net sent_ok w host port req = Some (Some \<lparr>resp_type = fst r, resp_body = snd r\<rparr>, w') \<and>
        r = fst (follower_spec st req old) \<and> kvres_wf \<lparr>resp_type = fst r, resp_body = snd r\<rparr> \<and>
        rep w' (V((host, port) \<mapsto> step_state st req))"
begin

text \<open>One follower takes its step; the others are as they were.\<close>

lemma member_step:
  assumes "rep w V" and "distinct (map snd (f # fs))" and "members_ok req (map snd (f # fs)) V" and "kvreq_wf req"
  shows "\<exists>r w' V'. exchange net (\<lambda>ret. \<not> ret < 0) w (fst (snd f)) (snd (snd f)) req = Some (Some r, w') \<and> kvres_wf r \<and>
    rep w' V' \<and> members_ok req (map snd fs) V' \<and> step_view req (map snd (f # fs)) V = step_view req (map snd fs) V'"
proof -
  obtain st where st: "V (snd f) = Some st" "request_ok st req" using assms(3) by (auto simp: members_ok_def)
  obtain r w' where "exchange net (\<lambda>ret. \<not> ret < 0) w (fst (snd f)) (snd (snd f)) req = Some (Some r, w')"
      "kvres_wf r" "rep w' (V(snd f \<mapsto> step_state st req))"
    using answers [OF assms(1) _ assms(4) st(2), of "fst (snd f)" "snd (snd f)" "\<lambda>ret. \<not> ret < 0"] st(1) by auto
  moreover have "members_ok req (map snd fs) (V(snd f \<mapsto> step_state st req))"
    using members_ok_Cons [of req "snd f" "map snd fs" V] assms(2,3) by simp
  moreover have "step_view req (map snd (f # fs)) V = step_view req (map snd fs) (V(snd f \<mapsto> step_state st req))"
    using step_view_Cons [of V "snd f" st "map snd fs" req] st(1) assms(2) by simp
  ultimately show ?thesis by blast
qed

lemma poll_all:
  assumes "rep w V" and "distinct (map snd fs)" and "members_ok req (map snd fs) V" and "kvreq_wf req"
  shows "\<exists>res' w'. poll_list net req fs False res w = Some (False, res', w') \<and> rep w' (step_view req (map snd fs) V)"
  using assms
proof (induction fs arbitrary: w V res)
  case (Cons f fs)
  obtain r w' V' where e: "exchange net (\<lambda>ret. \<not> ret < 0) w (fst (snd f)) (snd (snd f)) req = Some (Some r, w')" "rep w' V'"
      "kvres_wf r" "members_ok req (map snd fs) V'" "step_view req (map snd (f # fs)) V = step_view req (map snd fs) V'"
    using member_step [OF Cons.prems] by blast
  with Cons.IH [OF e(2) _ e(4) Cons.prems(4), of r] Cons.prems(2) show ?case by auto
qed simp

lemma ask_all:
  assumes "rep w V" and "distinct (map snd fs)" and "members_ok req (map snd fs) V" and "kvreq_wf req"
  shows "\<exists>res' w'. ask_list net req fs res w = Some (res', w') \<and> (kvres_wf res \<or> fs \<noteq> [] \<longrightarrow> kvres_wf res') \<and>
    rep w' (step_view req (map snd fs) V)"
  using assms
proof (induction fs arbitrary: w V res)
  case (Cons f fs)
  obtain r w' V' where e: "exchange net (\<lambda>ret. \<not> ret < 0) w (fst (snd f)) (snd (snd f)) req = Some (Some r, w')" "rep w' V'"
      "kvres_wf r" "members_ok req (map snd fs) V'" "step_view req (map snd (f # fs)) V = step_view req (map snd fs) V'"
    using member_step [OF Cons.prems] by blast
  with Cons.IH [OF e(2) _ e(4) Cons.prems(4), of r] Cons.prems(2) show ?case by (auto simp: ask.simps [of net req f])
qed auto

text \<open>Both phases: every follower takes the request and then the commit, and the client is told so.\<close>

lemma tpc_commits:
  assumes rep: "rep w V" and d: "distinct (map snd fs)" "fs \<noteq> []" and wf: "kvreq_wf req" "kvreq_wf (req\<lparr>req_type := COMMIT\<rparr>)"
    and m: "members_ok req (map snd fs) V" "members_ok (req\<lparr>req_type := COMMIT\<rparr>) (map snd fs) (step_view req (map snd fs) V)"
  shows "\<exists>res' w'. tpc_list net fs req res w = Some (res', w') \<and> resp_type res' = SUCCESS \<and> kvres_wf res' \<and>
    rep w' (step_view (req\<lparr>req_type := COMMIT\<rparr>) (map snd fs) (step_view req (map snd fs) V))"
proof -
  obtain res1 w1 where "poll_list net req fs False res w = Some (False, res1, w1)" "rep w1 (step_view req (map snd fs) V)"
    using poll_all [OF rep d(1) m(1) wf(1)] by blast
  with ask_all [OF _ d(1) m(2) wf(2), of w1 res1] d(2) show ?thesis by (auto simp: tpc_list_def kvres_wf_def)
qed

lemma get_first:
  assumes "rep w V" and "V (host, port) = Some st" and "kvreq_wf req" and "request_ok st req"
  shows "\<exists>old r w'. get_list net req ((i, host, port) # fs) w = Some (Some \<lparr>resp_type = fst r, resp_body = snd r\<rparr>, w') \<and>
    r = fst (follower_spec st req old) \<and> kvres_wf \<lparr>resp_type = fst r, resp_body = snd r\<rparr> \<and>
    rep w' (V((host, port) \<mapsto> step_state st req))"
  using answers [OF assms, of "\<lambda>ret. ret > 0"] by fastforce

end

subsection \<open>Followers behind the network\<close>

text \<open>Any C string of at most 40 characters can be left on a handler's stack, and any bytes in a new log entry.\<close>

definition stack_response :: "kvresponse_t \<Rightarrow> kvresponse_t" where
  "stack_response res = res\<lparr>resp_body := take KVRES_BODY_MAX_SIZE (cstr (resp_body res))\<rparr>"

definition log_junk :: "char list \<Rightarrow> char list" where
  "log_junk junk = take (sizeof_logentry - 8) (junk @ replicate (sizeof_logentry - 8) NUL)"

definition byte_writes :: "int list" where
  "byte_writes = replicate HTTP_MSG_MAX_SIZE 1"

type_synonym nodes = "addr \<rightharpoonup> fs \<times> tpcfollower_t"

text \<open>A node that runs into undefined behaviour disappears.\<close>

definition cluster_net :: "char list \<Rightarrow> kvresponse_t \<Rightarrow> char list \<Rightarrow> nodes net" where
  "cluster_net index_payload res junk w host port =
     (case w (host, port) of
        None \<Rightarrow> Refused w
      | Some (fs, server) \<Rightarrow> Connected byte_writes (\<lambda>sent.
          case tpcfollower_handle index_payload byte_writes fs server sent (stack_response res) (log_junk junk) of
            None \<Rightarrow> ([], w((host, port) := None))
          | Some (answer, server', fs') \<Rightarrow> (answer, w((host, port) \<mapsto> (fs', server')))))"

definition cluster_rep :: "nodes \<Rightarrow> cview \<Rightarrow> bool" where
  "cluster_rep w V \<longleftrightarrow> (\<forall>a st. V a = Some st \<longrightarrow> (\<exists>fs server. w a = Some (fs, server) \<and> follower_rep fs server st))"

lemma byte_writes_ok: "\<forall>w \<in> set byte_writes. 0 < w" "HTTP_MSG_MAX_SIZE \<le> length byte_writes"
  by (simp_all add: byte_writes_def)

lemma stack_response_ok: "cstring (resp_body (stack_response res))" "length (resp_body (stack_response res)) \<le> KVRES_BODY_MAX_SIZE"
  by (simp_all add: stack_response_def)

lemma length_log_junk [simp]: "length (log_junk junk) = sizeof_logentry - 8"
  by (simp add: log_junk_def)

lemma cluster_net_answers:
  assumes rep: "cluster_rep w V" and st: "V (host, port) = Some st" and wf: "kvreq_wf req" and ok: "request_ok st req"
    and sent: "\<And>n. 0 < n \<Longrightarrow> sent_ok n"
  shows "\<exists>old r w'. exchange (cluster_net index_payload res junk) sent_ok w host port req =
      Some (Some \<lparr>resp_type = fst r, resp_body = snd r\<rparr>, w') \<and>
    r = fst (follower_spec st req old) \<and> kvres_wf \<lparr>resp_type = fst r, resp_body = snd r\<rparr> \<and>
    cluster_rep w' (V((host, port) \<mapsto> step_state st req))"
proof -
  obtain fs server where n: "w (host, port) = Some (fs, server)" "follower_rep fs server st"
    using rep st unfolding cluster_rep_def by blast
  obtain msg where msg: "kvrequest_message req = Some (Some msg)" "kvrequest_receive (out_body msg) = Some (Some req)"
    using kvrequest_roundtrip [OF wf] by blast
  have snt: "kvrequest_send byte_writes req = Some (int (length (out_body msg)), out_body msg)"
    using msg(1) http_outbound_send_complete [OF byte_writes_ok kvrequest_message_length [OF msg(1)]]
    by (simp add: kvrequest_send_def)
  have ne: "out_body msg \<noteq> []" using msg(2) by (auto simp: kvrequest_receive_def http_request_receive_def)
  have ni: "req_type req \<noteq> INDEX" using wf by (auto simp: kvreq_wf_def)
  obtain r st' answer server' fs' where h: "follower_spec st req (resp_body (stack_response res)) = (r, st')"
      "tpcfollower_handle index_payload byte_writes fs server (out_body msg) (stack_response res) (log_junk junk) =
         Some (answer, server', fs')"
      "kvresponse_receive answer = Some (Some \<lparr>resp_type = fst r, resp_body = snd r\<rparr>)" "follower_rep fs' server' st'"
    using follower_handle_bytes [OF n(2) msg(2) ni ok length_log_junk stack_response_ok byte_writes_ok] by blast
  let ?w = "w((host, port) \<mapsto> (fs', server'))"
  have "st' = step_state st req" using h(1) follower_spec_state [of st req] by (metis snd_conv)
  then have "cluster_rep ?w (V((host, port) \<mapsto> step_state st req))"
    using rep h(4) by (auto simp: cluster_rep_def)
  moreover have "exchange (cluster_net index_payload res junk) sent_ok w host port req =
      Some (Some \<lparr>resp_type = fst r, resp_body = snd r\<rparr>, ?w)"
    using n(1) snt h(2,3) sent [of "int (length (out_body msg))"] ne
    by (simp add: exchange_def cluster_net_def)
  ultimately show ?thesis using h(1) follower_spec_wf [OF n(2) ok stack_response_ok h(1)] by (metis fst_conv)
qed

interpretation cl: cluster "cluster_net index_payload res junk" cluster_rep for index_payload res junk
  using cluster_net_answers by unfold_locales blast


subsection \<open>The cluster as one store\<close>

text \<open>A client sends a request, the leader handles the connection, the client reads the response.\<close>

definition client_call :: "'w net \<Rightarrow> char list \<Rightarrow> tpcleader_t \<Rightarrow> kvresponse_t \<Rightarrow> kvrequest_t \<Rightarrow> 'w \<Rightarrow>
    (kvresponse_t \<times> tpcleader_t \<times> 'w) option" where
  "client_call net index_payload leader res req w = do {
     (_, sent) \<leftarrow> kvrequest_send byte_writes req;
     (answer, leader, w) \<leftarrow> tpcleader_handle net index_payload byte_writes leader sent res w;
     r \<leftarrow> kvresponse_receive answer;
     map_option (\<lambda>r. (r, leader, w)) r }"

fun client_run :: "'w net \<Rightarrow> char list \<Rightarrow> tpcleader_t \<Rightarrow> kvresponse_t \<Rightarrow> kvrequest_t list \<Rightarrow> 'w \<Rightarrow>
    (kvresponse_t list \<times> tpcleader_t \<times> 'w) option" where
  "client_run net index_payload leader res [] w = Some ([], leader, w)"
| "client_run net index_payload leader res (req # reqs) w = do {
     (r, leader, w) \<leftarrow> client_call net index_payload leader res req w;
     (rs, leader, w) \<leftarrow> client_run net index_payload leader res reqs w;
     Some (r # rs, leader, w) }"

text \<open>What a client should see of one map: the type of the response and, for a lookup, its text.\<close>

definition store_spec :: "(string \<rightharpoonup> string) \<Rightarrow> kvrequest_t \<Rightarrow> kvresponse_t \<Rightarrow> bool" where
  "store_spec m req r = (if req_type req = GETREQ
     then (case m (req_key req) of None \<Rightarrow> resp_type r = ERROR \<and> resp_body r = ERRMSG_NO_KEY
           | Some v \<Rightarrow> resp_type r = GETRESP \<and> resp_body r = v)
     else resp_type r = SUCCESS)"

definition store_next :: "kvrequest_t \<Rightarrow> (string \<rightharpoonup> string) \<Rightarrow> (string \<rightharpoonup> string)" where
  "store_next req m = (if req_type req = PUTREQ then m(req_key req \<mapsto> req_val req)
     else if req_type req = DELREQ then m(req_key req := None) else m)"

fun specs_run :: "(string \<rightharpoonup> string) \<Rightarrow> kvrequest_t list \<Rightarrow> kvresponse_t list \<Rightarrow> bool" where
  "specs_run m [] rs = (rs = [])"
| "specs_run m (req # reqs) [] = False"
| "specs_run m (req # reqs) (r # rs) = (store_spec m req r \<and> specs_run (store_next req m) reqs rs)"

text \<open>A request of a client: well formed, with a value that a lookup can return.\<close>

definition client_req :: "kvrequest_t \<Rightarrow> bool" where
  "client_req req \<longleftrightarrow> kvreq_wf req \<and> req_type req \<in> {GETREQ, PUTREQ, DELREQ} \<and> length (req_val req) \<le> KVRES_BODY_MAX_SIZE"

text \<open>The replicas hold the same map, and room for \<open>n\<close> more requests.\<close>

definition replicas :: "nodes \<Rightarrow> finfo list \<Rightarrow> (string \<rightharpoonup> string) \<Rightarrow> nat \<Rightarrow> bool" where
  "replicas w fs m n \<longleftrightarrow> finite (dom m) \<and> card (dom m) + n < nat INT_MAX \<and> (\<forall>v \<in> ran m. length v \<le> KVRES_BODY_MAX_SIZE) \<and>
     (\<exists>V. cluster_rep w V \<and> (\<forall>f \<in> set fs. \<exists>es. V (snd f) = Some (m, es) \<and> length es + 2 * n + 1 < 2 ^ 64))"

lemma kvreq_wf_ok: "kvreq_wf req \<Longrightarrow> key_ok (req_key req) \<and> val_ok (req_val req) \<and>
    (req_type req = PUTREQ \<or> req_type req = DELREQ \<or> req_type req = GETREQ \<longrightarrow> req_key req \<noteq> [])"
  by (auto simp: kvreq_wf_def param_text_def)

lemma step_state_update:
  "req_type req \<in> {PUTREQ, DELREQ, COMMIT} \<Longrightarrow> step_state (m, es) req =
     (store_next req m, es @ [(req_type req, log_payload (req_type req) (req_key req) (req_val req))])"
  by (auto simp: step_state_def follower_spec_def store_next_def Let_def)

lemma step_state_get: "req_type req = GETREQ \<Longrightarrow> step_state st req = st"
  by (cases st) (simp add: step_state_def follower_spec_def Let_def)

lemma card_store_next: "finite (dom m) \<Longrightarrow> finite (dom (store_next req m)) \<and> card (dom (store_next req m)) \<le> Suc (card (dom m))"
  by (auto simp: store_next_def card_insert_if intro: le_SucI card_mono)

lemma ran_store_next:
  "\<forall>v \<in> ran m. length v \<le> n \<Longrightarrow> length (req_val req) \<le> n \<Longrightarrow> \<forall>v \<in> ran (store_next req m). length v \<le> n"
  by (auto simp: store_next_def ran_def)

text \<open>The members of a cluster whose replicas agree can take a request.\<close>

lemma replicas_members_ok:
  assumes V: "\<forall>f \<in> set fs. \<exists>es. V (snd f) = Some (m, es) \<and> length es + b < 2 ^ 64" and b: "2 \<le> b"
    and m: "card (dom m) < nat INT_MAX" and wf: "kvreq_wf req" and t: "req_type req \<in> {PUTREQ, DELREQ, COMMIT}"
    and same: "set gs = set fs"
  shows "members_ok req (map snd gs) V"
  unfolding members_ok_def
proof
  fix a assume "a \<in> set (map snd gs)"
  then obtain f where "f \<in> set fs" "a = snd f" using same by auto
  with V obtain es where es: "V a = Some (m, es)" "length es + b < 2 ^ 64" by blast
  have "request_ok (m, es) req" using m es(2) b t kvreq_wf_ok [OF wf] by (auto simp: request_ok_def)
  with es(1) show "\<exists>st. V a = Some st \<and> request_ok st req" by blast
qed

lemma replicas_step_view:
  assumes V: "\<forall>f \<in> set fs. \<exists>es. V (snd f) = Some (m, es) \<and> length es + Suc b < 2 ^ 64"
    and t: "req_type req \<in> {PUTREQ, DELREQ, COMMIT}" and same: "set gs = set fs"
  shows "\<forall>f \<in> set fs. \<exists>es. step_view req (map snd gs) V (snd f) = Some (store_next req m, es) \<and> length es + b < 2 ^ 64"
proof
  fix f assume f: "f \<in> set fs"
  with V obtain es where es: "V (snd f) = Some (m, es)" "length es + Suc b < 2 ^ 64" by blast
  then have "step_view req (map snd gs) V (snd f) =
      Some (store_next req m, es @ [(req_type req, log_payload (req_type req) (req_key req) (req_val req))])"
    using f same step_state_update [OF t, of m es] by (simp add: step_view_def)
  with es(2) show "\<exists>es. step_view req (map snd gs) V (snd f) = Some (store_next req m, es) \<and> length es + b < 2 ^ 64" by simp
qed

lemma replicas_weaken:
  assumes "\<forall>f \<in> set fs. \<exists>es. V (snd f) = Some (m, es) \<and> length es + b < 2 ^ 64" and "c \<le> b"
  shows "\<forall>f \<in> set fs. \<exists>es. V (snd f) = Some (m, es) \<and> length es + c < 2 ^ 64"
proof
  fix f assume "f \<in> set fs"
  with assms(1) obtain es where "V (snd f) = Some (m, es)" "length es + b < 2 ^ 64" by blast
  with assms(2) show "\<exists>es. V (snd f) = Some (m, es) \<and> length es + c < 2 ^ 64" by (metis add_left_mono le_less_trans)
qed

lemma replicasI:
  assumes "cluster_rep w V" and "\<forall>f \<in> set fs. \<exists>es. V (snd f) = Some (m, es) \<and> length es + (2 * n + 1) < 2 ^ 64"
    and "finite (dom m)" and "card (dom m) + n < nat INT_MAX" and "\<forall>v \<in> ran m. length v \<le> KVRES_BODY_MAX_SIZE"
  shows "replicas w fs m n"
  using assms unfolding replicas_def by (auto simp: add.assoc)

lemma replicasE:
  assumes "replicas w fs m n"
  obtains V where "cluster_rep w V" "\<forall>f \<in> set fs. \<exists>es. V (snd f) = Some (m, es) \<and> length es + (2 * n + 1) < 2 ^ 64"
    "finite (dom m)" "card (dom m) + n < nat INT_MAX" "\<forall>v \<in> ran m. length v \<le> KVRES_BODY_MAX_SIZE"
  using assms unfolding replicas_def by (auto simp: add.assoc)

lemma replicas_update:
  assumes leader: "leader_rep leader fs" "at_capacity leader" "fs \<noteq> []" and d: "distinct (map snd fs)"
    and rep: "replicas w fs m (Suc n)" and req: "client_req req" "req_type req \<noteq> GETREQ"
  shows "\<exists>r w'. tpcleader_handle_tpc (cluster_net index_payload sres junk) leader req res w = Some (r, w') \<and>
    resp_type r = SUCCESS \<and> kvres_wf r \<and> replicas w' fs (store_next req m) n"
proof -
  let ?ws = "walk fs (req_key req)" and ?com = "req\<lparr>req_type := COMMIT\<rparr>" and ?m = "store_next req m"
  obtain V where V: "cluster_rep w V" "\<forall>f \<in> set fs. \<exists>es. V (snd f) = Some (m, es) \<and> length es + (2 * Suc n + 1) < 2 ^ 64"
    and m: "finite (dom m)" "card (dom m) + Suc n < nat INT_MAX" "\<forall>v \<in> ran m. length v \<le> KVRES_BODY_MAX_SIZE"
    using rep by (rule replicasE)
  have t: "req_type req \<in> {PUTREQ, DELREQ, COMMIT}" and wf: "kvreq_wf req" "kvreq_wf ?com"
    and len: "length (req_val req) \<le> KVRES_BODY_MAX_SIZE"
    using req by (auto simp: client_req_def kvreq_wf_def)
  have m': "finite (dom ?m)" "card (dom ?m) + n < nat INT_MAX" "\<forall>v \<in> ran ?m. length v \<le> KVRES_BODY_MAX_SIZE"
    using card_store_next [OF m(1), of req] m(2) ran_store_next [OF m(3) len] by auto
  have com: "store_next ?com ?m = ?m" by (simp add: store_next_def [of ?com])
  have ne: "?ws \<noteq> []" using leader(3) walk_set(2) [of fs "req_key req"] by (metis length_0_conv)
  have d': "distinct (map snd ?ws)" using d mset_walk [of fs "req_key req"]
    by (metis mset_eq_imp_distinct_iff mset_map)
  let ?V1 = "step_view req (map snd ?ws) V"
  have ok1: "members_ok req (map snd ?ws) V"
    using replicas_members_ok [OF V(2) _ _ wf(1) t] m(2) by simp
  have V1: "\<forall>f \<in> set fs. \<exists>es. ?V1 (snd f) = Some (?m, es) \<and> length es + (2 * n + 2) < 2 ^ 64"
    using replicas_step_view [OF _ t, of fs V m "2 * n + 2" ?ws] V(2) by simp
  have ok2: "members_ok ?com (map snd ?ws) ?V1"
    using replicas_members_ok [OF V1 _ _ wf(2)] m'(2) by simp
  have V2: "\<forall>f \<in> set fs. \<exists>es. step_view ?com (map snd ?ws) ?V1 (snd f) = Some (?m, es) \<and> length es + (2 * n + 1) < 2 ^ 64"
    using replicas_step_view [of fs ?V1 ?m "2 * n + 1" ?com ?ws] V1 com by simp
  obtain r w' where r: "tpc_list (cluster_net index_payload sres junk) ?ws req res w = Some (r, w')" "resp_type r = SUCCESS" "kvres_wf r"
      "cluster_rep w' (step_view ?com (map snd ?ws) ?V1)"
    using cl.tpc_commits [OF V(1) d' ne wf ok1 ok2, of index_payload sres junk res] by blast
  from replicasI [OF r(4) V2 m'] r(1-3) show ?thesis
    unfolding tpcleader_handle_tpc_walk [OF leader] by blast
qed

lemma replicas_lookup:
  assumes leader: "leader_rep leader fs" "at_capacity leader" "fs \<noteq> []"
    and rep: "replicas w fs m (Suc n)" and req: "client_req req" "req_type req = GETREQ"
  shows "\<exists>r w'. tpcleader_handle_get (cluster_net index_payload sres junk) leader req res w = Some (r, w') \<and>
    store_spec m req r \<and> kvres_wf r \<and> replicas w' fs m n"
proof -
  obtain V where V: "cluster_rep w V" "\<forall>f \<in> set fs. \<exists>es. V (snd f) = Some (m, es) \<and> length es + (2 * Suc n + 1) < 2 ^ 64"
    and m: "finite (dom m)" "card (dom m) + Suc n < nat INT_MAX" "\<forall>v \<in> ran m. length v \<le> KVRES_BODY_MAX_SIZE"
    using rep by (rule replicasE)
  have wf: "kvreq_wf req" using req by (simp add: client_req_def)
  obtain i host port gs where g: "walk fs (req_key req) = (i, host, port) # gs"
    using leader(3) walk_set(2) [of fs "req_key req"] by (cases "walk fs (req_key req)") auto
  then have "(i, host, port) \<in> set fs" using walk_set(1) [of fs "req_key req"] by (metis list.set_intros(1))
  with V(2) obtain es where es: "V (host, port) = Some (m, es)" "length es + (2 * Suc n + 1) < 2 ^ 64" by fastforce
  have ok: "request_ok (m, es) req"
    using m kvreq_wf_ok [OF wf] req(2) es(2) by (auto simp: request_ok_def ran_def split: option.splits)
  obtain old r w' where r: "get_list (cluster_net index_payload sres junk) req ((i, host, port) # gs) w =
        Some (Some \<lparr>resp_type = fst r, resp_body = snd r\<rparr>, w')"
      "r = fst (follower_spec (m, es) req old)" "kvres_wf \<lparr>resp_type = fst r, resp_body = snd r\<rparr>"
      "cluster_rep w' (V((host, port) \<mapsto> step_state (m, es) req))"
    using cl.get_first [OF V(1) es(1) wf ok] by blast
  have "V((host, port) \<mapsto> step_state (m, es) req) = V" using es(1) by (simp add: step_state_get [OF req(2)] fun_upd_idem)
  with r(4) have w': "cluster_rep w' V" by simp
  have V2: "\<forall>f \<in> set fs. \<exists>es. V (snd f) = Some (m, es) \<and> length es + (2 * n + 1) < 2 ^ 64"
    by (rule replicas_weaken [OF V(2)]) simp
  have "store_spec m req \<lparr>resp_type = fst r, resp_body = snd r\<rparr>"
    using req(2) r(2) by (auto simp: store_spec_def follower_spec_def Let_def split: option.splits)
  with replicasI [OF w' V2 m(1) _ m(3)] m(2) r(1,3) show ?thesis
    unfolding tpcleader_handle_get_walk [OF leader] g by auto
qed

text \<open>One connection of a client, from the bytes the leader reads to the bytes it sends.\<close>

lemma replicas_handle:
  assumes leader: "leader_rep leader fs" "at_capacity leader" "fs \<noteq> []" and d: "distinct (map snd fs)"
    and rep: "replicas w fs m (Suc n)" and req: "client_req req" and data: "kvrequest_receive data = Some (Some req)"
  shows "\<exists>r sent w'. tpcleader_handle (cluster_net index_payload sres junk) index_payload byte_writes leader data res w =
      Some (sent, leader, w') \<and> kvresponse_receive sent = Some (Some r) \<and>
    store_spec m req r \<and> replicas w' fs (store_next req m) n"
proof -
  let ?net = "cluster_net index_payload sres junk"
  have t: "req_type req \<in> {GETREQ, PUTREQ, DELREQ}" using req by (auto simp: client_req_def)
  obtain r w1 where r: "(if req_type req = GETREQ then tpcleader_handle_get ?net leader req res w
        else tpcleader_handle_tpc ?net leader req res w) = Some (r, w1)"
      "store_spec m req r" "kvres_wf r" "replicas w1 fs (store_next req m) n"
  proof (cases "req_type req = GETREQ")
    case True
    then have "store_next req m = m" by (simp add: store_next_def)
    with replicas_lookup [OF leader rep req True, of index_payload sres junk res] True that show thesis by auto
  next
    case False
    with replicas_update [OF leader d rep req False, of index_payload sres junk res] that show thesis
      by (auto simp: store_spec_def)
  qed
  obtain msg where msg: "kvresponse_message r = Some (Some msg)" "kvresponse_receive (out_body msg) = Some (Some r)"
    using kvresponse_roundtrip [OF r(3)] by blast
  have "kvresponse_send byte_writes r = Some (int (length (out_body msg)), out_body msg)"
    using msg(1) http_outbound_send_complete [OF byte_writes_ok kvresponse_message_length [OF msg(1)]]
    by (simp add: kvresponse_send_def)
  with data r t msg(2) show ?thesis by (auto simp: tpcleader_handle_def)
qed

lemma replicas_call:
  assumes leader: "leader_rep leader fs" "at_capacity leader" "fs \<noteq> []" and d: "distinct (map snd fs)"
    and rep: "replicas w fs m (Suc n)" and req: "client_req req"
  shows "\<exists>r w'. client_call (cluster_net index_payload sres junk) index_payload leader res req w = Some (r, leader, w') \<and>
    store_spec m req r \<and> replicas w' fs (store_next req m) n"
proof -
  have "kvreq_wf req" using req by (simp add: client_req_def)
  then obtain bytes where b: "kvrequest_send byte_writes req = Some (int (length bytes), bytes)" "kvrequest_receive bytes = Some (Some req)"
    using kvrequest_roundtrip http_outbound_send_complete [OF byte_writes_ok kvrequest_message_length]
    by (fastforce simp: kvrequest_send_def)
  from replicas_handle [OF leader d rep req b(2), of index_payload sres junk res] b(1) show ?thesis
    by (auto simp: client_call_def)
qed

lemma client_run_spec:
  assumes leader: "leader_rep leader fs" "at_capacity leader" "fs \<noteq> []" and d: "distinct (map snd fs)"
    and "replicas w fs m (length reqs)" and "list_all client_req reqs"
  shows "\<exists>rs w'. client_run (cluster_net index_payload sres junk) index_payload leader res reqs w = Some (rs, leader, w') \<and>
    specs_run m reqs rs \<and> replicas w' fs (fold store_next reqs m) 0"
  using assms(5,6)
proof (induction reqs arbitrary: w m)
  case (Cons req reqs)
  have rep: "replicas w fs m (Suc (length reqs))" and req: "client_req req" "list_all client_req reqs"
    using Cons.prems by simp_all
  obtain r w1 where r: "client_call (cluster_net index_payload sres junk) index_payload leader res req w = Some (r, leader, w1)"
      "store_spec m req r" "replicas w1 fs (store_next req m) (length reqs)"
    using replicas_call [OF leader d rep req(1)] by blast
  from Cons.IH [OF r(3) req(2)] r(1,2) show ?case by auto
qed simp

subsection \<open>Properties\<close>


definition sample_nodes :: nodes where
  "sample_nodes = [(''127.0.0.1'', 16201) \<mapsto> (sample_fs, sample_follower)]"

lemma sample_register_info: "snd (register_info sample_register) = (''127.0.0.1'', 16201)"
  by (simp add: register_info_def sample_register_def) code_simp

lemma sample_replicas: "replicas sample_nodes [register_info sample_register] Map.empty 3"
proof (rule replicasI)
  show "cluster_rep sample_nodes [(''127.0.0.1'', 16201) \<mapsto> (Map.empty, [])]"
    using sample_follower_rep by (simp add: cluster_rep_def sample_nodes_def)
qed (simp_all add: sample_register_info INT_MAX_def)

text \<open>A value is put, looked up and deleted.\<close>

definition sample_session :: "kvrequest_t list" where
  "sample_session = [sample_request PUTREQ ''v'', sample_request GETREQ [], sample_request DELREQ []]"

lemma sample_session_ok: "list_all client_req sample_session" "length sample_session = 3"
  by (simp_all add: sample_session_def client_req_def kvreq_wf_def sample_request_def param_text_def size_defs)

lemma specs_run_Cons: "specs_run m (req # reqs) rs \<longleftrightarrow> (\<exists>r rs'. rs = r # rs' \<and> store_spec m req r \<and> specs_run (store_next req m) reqs rs')"
  by (cases rs) simp_all

lemma sample_session_spec:
  assumes "specs_run Map.empty sample_session rs"
  shows "\<exists>r1 r2 r3. rs = [r1, r2, r3] \<and> resp_type r1 = SUCCESS \<and> resp_type r2 = GETRESP \<and> resp_body r2 = ''v'' \<and> resp_type r3 = SUCCESS"
  using assms by (auto simp: sample_session_def specs_run_Cons store_spec_def store_next_def sample_request_def)


end
