(* ===== verification/Socket_Server.thy ===== *)
theory Socket_Server
  imports Work_Queue TPC_Cluster
begin

text \<open>
  The server of \<^verbatim>\<open>2PCKVStore/socket_server.c\<close> as a transition system.  The process has one thread that accepts
  connections and pushes them on the work queue and \<^verbatim>\<open>max_threads\<close> worker threads that pop, handle and close
  them; \<^verbatim>\<open>server_stop\<close> may be called at any time.  A state holds the shared data (the flag \<^verbatim>\<open>listening\<close>, the queue) and
  the position of every thread; each rule of \<open>step\<close> is one action of one thread, so the reachable states are those
  of all interleavings.  The lists of accepted, started, answered and closed connections are history.

  The handler that the workers call is a parameter, instantiated by the handlers of the follower and of the
  leader.  The handling of one request is one step.

  The theory also holds \<^verbatim>\<open>connect_to\<close>.
\<close>

subsection \<open>State\<close>

datatype worker = WCheck | WPop | WHandle int | WClose int | WExit

datatype acceptor = ACheck | AAccept | APush int | AReturned

record 's server_t =
  listening :: bool
  sockfd_open :: bool
  max_threads :: nat
  port :: int
  hostname :: string
  wq :: wq_t
  app :: 's
  workers :: "worker list"
  acceptor :: acceptor
  accepted :: "int list"
  started :: "int list"
  answered :: "int list"
  closed :: "int list"

text \<open>The setup of \<^verbatim>\<open>server_run\<close>; a system call that fails ends the process.\<close>

datatype setup_error = SocketFailed | SetsockoptFailed | BindFailed | ListenFailed

definition server_init :: "string \<Rightarrow> int \<Rightarrow> nat \<Rightarrow> wq_heap \<Rightarrow> 's \<Rightarrow> 's server_t" where
  "server_init host prt threads h st =
     \<lparr>listening = True, sockfd_open = True, max_threads = threads, port = prt, hostname = host, wq = wq_init h, app = st,
      workers = replicate threads WCheck, acceptor = ACheck, accepted = [], started = [], answered = [], closed = []\<rparr>"

definition server_run :: "string \<Rightarrow> int \<Rightarrow> nat \<Rightarrow> wq_heap \<Rightarrow> 's \<Rightarrow> bool \<Rightarrow> bool \<Rightarrow> bool \<Rightarrow> bool \<Rightarrow> setup_error + 's server_t" where
  "server_run host prt threads h st socket_ok setsockopt_ok bind_ok listen_ok =
     (if \<not> socket_ok then Inl SocketFailed
      else if \<not> setsockopt_ok then Inl SetsockoptFailed
      else if \<not> bind_ok then Inl BindFailed
      else if \<not> listen_ok then Inl ListenFailed
      else Inr (server_init host prt threads h st))"

definition server_stop :: "'s server_t \<Rightarrow> 's server_t" where
  "server_stop s = s\<lparr>listening := False, sockfd_open := False\<rparr>"

subsection \<open>Steps\<close>

text \<open>One action of the worker at index \<open>i\<close>; \<^const>\<open>None\<close> when the thread cannot move: it waits in \<^verbatim>\<open>wq_pop\<close>, has
  returned, or its handler does not return.\<close>

definition worker_step :: "('s \<Rightarrow> int \<Rightarrow> 's option) \<Rightarrow> 's server_t \<Rightarrow> nat \<Rightarrow> 's server_t option" where
  "worker_step handler s i = (if i < length (workers s) then
     (case workers s ! i of
        WCheck \<Rightarrow> Some (s\<lparr>workers := (workers s)[i := if listening s then WPop else WExit]\<rparr>)
      | WPop \<Rightarrow> (case wq_pop (wq s) of
            Some (Some (fd, q)) \<Rightarrow> Some (s\<lparr>wq := q, workers := (workers s)[i := WHandle fd], started := started s @ [fd]\<rparr>)
          | _ \<Rightarrow> None)
      | WHandle fd \<Rightarrow> do {
          st \<leftarrow> handler (app s) fd;
          Some (s\<lparr>app := st, workers := (workers s)[i := WClose fd], answered := answered s @ [fd]\<rparr>)
        }
      | WClose fd \<Rightarrow> Some (s\<lparr>workers := (workers s)[i := WCheck], closed := closed s @ [fd]\<rparr>)
      | WExit \<Rightarrow> None)
     else None)"

text \<open>One action of the accepting thread; \<open>fd\<close> is what \<^verbatim>\<open>accept\<close> returns.\<close>

definition accept_step :: "'s server_t \<Rightarrow> int \<Rightarrow> 's server_t option" where
  "accept_step s fd = (case acceptor s of
     ACheck \<Rightarrow> Some (if listening s then s\<lparr>acceptor := AAccept\<rparr> else s\<lparr>acceptor := AReturned, sockfd_open := False\<rparr>)
   | AAccept \<Rightarrow> Some (if fd > 0 then s\<lparr>acceptor := APush fd, accepted := accepted s @ [fd]\<rparr> else s\<lparr>acceptor := ACheck\<rparr>)
   | APush fd \<Rightarrow> do { q \<leftarrow> wq_push (wq s) fd; Some (s\<lparr>wq := q, acceptor := ACheck\<rparr>) }
   | AReturned \<Rightarrow> None)"

inductive step :: "('s \<Rightarrow> int \<Rightarrow> 's option) \<Rightarrow> 's server_t \<Rightarrow> 's server_t \<Rightarrow> bool" for handler where
  worker: "worker_step handler s i = Some s' \<Longrightarrow> step handler s s'"
| accept: "accept_step s fd = Some s' \<Longrightarrow> step handler s s'"
| stop: "step handler s (server_stop s)"

inductive reach :: "('s \<Rightarrow> int \<Rightarrow> 's option) \<Rightarrow> 's server_t \<Rightarrow> 's server_t \<Rightarrow> bool" for handler where
  start: "reach handler s s"
| next_step: "reach handler s s' \<Longrightarrow> step handler s' s'' \<Longrightarrow> reach handler s s''"

inductive_cases step_cases: "step handler s s'"

subsection \<open>Where the connections are\<close>

definition in_worker :: "worker \<Rightarrow> int list" where
  "in_worker w = (case w of WHandle fd \<Rightarrow> [fd] | WClose fd \<Rightarrow> [fd] | _ \<Rightarrow> [])"

definition closing :: "worker \<Rightarrow> int list" where
  "closing w = (case w of WClose fd \<Rightarrow> [fd] | _ \<Rightarrow> [])"

definition in_acceptor :: "acceptor \<Rightarrow> int list" where
  "in_acceptor a = (case a of APush fd \<Rightarrow> [fd] | _ \<Rightarrow> [])"

fun handle_all :: "('s \<Rightarrow> int \<Rightarrow> 's option) \<Rightarrow> int list \<Rightarrow> 's \<Rightarrow> 's option" where
  "handle_all handler [] st = Some st"
| "handle_all handler (fd # fds) st = do { st \<leftarrow> handler st fd; handle_all handler fds st }"

text \<open>The connections that were started and those that wait are the accepted ones in their order; started ones
  are with a worker or closed; the application has handled the answered ones.\<close>

definition server_inv :: "('s \<Rightarrow> int \<Rightarrow> 's option) \<Rightarrow> nat \<Rightarrow> 's \<Rightarrow> 's server_t \<Rightarrow> bool" where
  "server_inv handler n st0 s \<longleftrightarrow>
     (\<exists>xs. wq_rep (wq s) xs \<and> started s @ xs @ in_acceptor (acceptor s) = accepted s) \<and>
     mset (started s) = mset (concat (map in_worker (workers s))) + mset (closed s) \<and>
     mset (answered s) = mset (concat (map closing (workers s))) + mset (closed s) \<and>
     length (workers s) = n \<and> (listening s \<longrightarrow> WExit \<notin> set (workers s)) \<and>
     handle_all handler (answered s) st0 = Some (app s)"

lemma handle_all_append: "handle_all handler (xs @ ys) st = do { st \<leftarrow> handle_all handler xs st; handle_all handler ys st }"
  by (induction xs arbitrary: st) (auto split: bind_splits)

lemma mset_concat_update:
  assumes "i < length xs"
  shows "mset (concat (map f (xs[i := y]))) + mset (f (xs ! i)) = mset (concat (map f xs)) + mset (f y)"
proof -
  have "concat (map f xs) = concat (map f (take i xs @ xs ! i # drop (Suc i) xs))" using id_take_nth_drop [OF assms] by (rule arg_cong)
  moreover have "concat (map f (xs[i := y])) = concat (map f (take i xs @ y # drop (Suc i) xs))"
    using upd_conv_take_nth_drop [OF assms] by (rule arg_cong)
  ultimately show ?thesis by (simp add: ac_simps)
qed

lemma wq_push_Some:
  assumes rep: "wq_rep q xs" and push: "wq_push q x = Some q'"
  shows "wq_rep q' (xs @ [x])"
proof -
  have "0 < wq_room q" using push rep
    by (auto simp: wq_push_def wq_room_def new_def c_int_def wq_rep_def split: if_splits bind_splits)
  with wq_push_rep [OF rep this, of x] push show ?thesis by auto
qed

lemma server_inv_init:
  assumes "heap_ok h"
  shows "server_inv handler n st (server_init host prt n h st)"
  using wq_rep_init [OF assms] by (auto simp: server_inv_def server_init_def in_worker_def closing_def in_acceptor_def)

lemma worker_step_inv:
  assumes inv: "server_inv handler n st0 s" and st: "worker_step handler s i = Some s'"
  shows "server_inv handler n st0 s'"
proof -
  obtain xs where xs: "wq_rep (wq s) xs" "started s @ xs @ in_acceptor (acceptor s) = accepted s" using inv by (auto simp: server_inv_def)
  have i: "i < length (workers s)" using st by (auto simp: worker_step_def split: if_splits)
  note upd = mset_concat_update [OF i, of in_worker] mset_concat_update [OF i, of closing]
  have ex: "WExit \<in> set ((workers s)[i := w]) \<Longrightarrow> WExit \<in> set (workers s) \<or> w = WExit" for w
    using set_update_subset_insert [of "workers s" i w] by auto
  show ?thesis
  proof (cases "workers s ! i")
    case WCheck
    then show ?thesis using inv st i upd [of "if listening s then WPop else WExit"] ex
      by (fastforce simp: server_inv_def worker_step_def in_worker_def closing_def)
  next
    case WPop
    then obtain fd ys q where p: "xs = fd # ys" "wq_pop (wq s) = Some (Some (fd, q))" "wq_rep q ys"
      using st i wq_pop_empty [of "wq s"] wq_pop_rep [of "wq s"] xs(1) by (cases xs) (fastforce simp: worker_step_def)+
    then show ?thesis using inv st i WPop xs(2) upd [of "WHandle fd"] ex [of "WHandle fd"]
      by (fastforce simp: server_inv_def worker_step_def in_worker_def closing_def)
  next
    case (WHandle fd)
    then show ?thesis using inv st i upd [of "WClose fd"] ex [of "WClose fd"]
      by (fastforce simp: server_inv_def worker_step_def in_worker_def closing_def handle_all_append split: bind_splits)
  next
    case (WClose fd)
    then show ?thesis using inv st i upd [of WCheck] ex [of WCheck]
      by (fastforce simp: server_inv_def worker_step_def in_worker_def closing_def)
  qed (use st i in \<open>simp add: worker_step_def\<close>)
qed

lemma accept_step_inv:
  assumes inv: "server_inv handler n st0 s" and st: "accept_step s fd = Some s'"
  shows "server_inv handler n st0 s'"
proof -
  obtain xs where xs: "wq_rep (wq s) xs" "started s @ xs @ in_acceptor (acceptor s) = accepted s" using inv by (auto simp: server_inv_def)
  show ?thesis
  proof (cases "acceptor s")
    case (APush f)
    then obtain q where "wq_push (wq s) f = Some q" "s' = s\<lparr>wq := q, acceptor := ACheck\<rparr>"
      using st by (auto simp: accept_step_def split: bind_splits)
    with wq_push_Some [OF xs(1)] xs(2) inv APush show ?thesis by (fastforce simp: server_inv_def in_acceptor_def)
  qed (use inv st in \<open>auto simp: server_inv_def accept_step_def in_acceptor_def split: if_splits\<close>)
qed

lemma reach_accept: "reach handler s0 s \<Longrightarrow> accept_step s fd = Some s' \<Longrightarrow> reach handler s0 s'"
  by (blast intro: reach.next_step step.accept)

lemma reach_worker: "reach handler s0 s \<Longrightarrow> worker_step handler s i = Some s' \<Longrightarrow> reach handler s0 s'"
  by (blast intro: reach.next_step step.worker)

lemma server_stop_inv: "server_inv handler n st0 s \<Longrightarrow> server_inv handler n st0 (server_stop s)"
  by (simp add: server_inv_def server_stop_def)

lemma reach_inv:
  assumes "reach handler s s'" and "server_inv handler n st0 s"
  shows "server_inv handler n st0 s'"
  using assms
proof (induction rule: reach.induct)
  case (next_step s s' s'')
  then have inv: "server_inv handler n st0 s'" by simp
  from next_step(2) show ?case
    by (cases rule: step.cases) (use inv in \<open>blast intro: worker_step_inv accept_step_inv server_stop_inv\<close>)+
qed simp

subsection \<open>Progress\<close>

fun run_workers :: "('s \<Rightarrow> int \<Rightarrow> 's option) \<Rightarrow> 's server_t \<Rightarrow> nat list \<Rightarrow> 's server_t option" where
  "run_workers handler s [] = Some s"
| "run_workers handler s (i # js) = do { s \<leftarrow> worker_step handler s i; run_workers handler s js }"

fun weight :: "worker \<Rightarrow> nat" where
  "weight WCheck = 1"
| "weight WPop = 0"
| "weight (WHandle fd) = 3"
| "weight (WClose fd) = 2"
| "weight WExit = 0"

text \<open>How many steps the workers have left while nothing is pushed.\<close>

definition work_left :: "'s server_t \<Rightarrow> nat" where
  "work_left s = 4 * nat (wq_size (wq s)) + sum_list (map weight (workers s))"

lemma weight_update: "i < length ws \<Longrightarrow> sum_list (map weight (ws[i := w])) + weight (ws ! i) = sum_list (map weight ws) + weight w"
proof -
  assume i: "i < length ws"
  have "sum_list (map weight ws) = sum_list (map weight (take i ws @ ws ! i # drop (Suc i) ws))"
    using id_take_nth_drop [OF i] by (rule arg_cong)
  then show ?thesis by (simp add: upd_conv_take_nth_drop [OF i])
qed

lemma worker_step_less:
  assumes inv: "server_inv handler n st0 s" and st: "worker_step handler s i = Some s'"
  shows "work_left s' < work_left s"
proof -
  have i: "i < length (workers s)" using st by (auto simp: worker_step_def split: if_splits)
  note upd = weight_update [OF i]
  obtain xs where xs: "wq_rep (wq s) xs" using inv by (auto simp: server_inv_def)
  show ?thesis
  proof (cases "workers s ! i")
    case WPop
    then obtain fd ys q where "xs = fd # ys" "wq_pop (wq s) = Some (Some (fd, q))" "wq_rep q ys"
      using st i wq_pop_empty [of "wq s"] wq_pop_rep [of "wq s"] xs(1) by (cases xs) (fastforce simp: worker_step_def)+
    then show ?thesis using st i WPop upd [of "WHandle fd"] xs by (auto simp: worker_step_def work_left_def wq_rep_def)
  next
    case WCheck
    then show ?thesis using st i upd [of "if listening s then WPop else WExit"] by (auto simp: worker_step_def work_left_def)
  next
    case (WHandle fd)
    then show ?thesis using st i upd [of "WClose fd"] by (auto simp: worker_step_def work_left_def split: bind_splits)
  next
    case (WClose fd)
    then show ?thesis using st i upd [of WCheck] by (auto simp: worker_step_def work_left_def)
  qed (use st i in \<open>simp add: worker_step_def\<close>)
qed

lemma run_workers_inv:
  assumes "server_inv handler n st0 s" and "run_workers handler s js = Some s'"
  shows "server_inv handler n st0 s' \<and> length js + work_left s' \<le> work_left s \<and> accepted s' = accepted s \<and> listening s' = listening s \<and> acceptor s' = acceptor s"
  using assms
proof (induction js arbitrary: s)
  case (Cons j js)
  obtain s1 where s1: "worker_step handler s j = Some s1" "run_workers handler s1 js = Some s'"
    using Cons.prems(2) by (auto split: bind_splits)
  have "accepted s1 = accepted s \<and> listening s1 = listening s \<and> acceptor s1 = acceptor s" using s1(1)
    by (auto simp: worker_step_def split: if_splits worker.splits option.splits bind_splits prod.splits)
  with Cons.IH [OF worker_step_inv [OF Cons.prems(1) s1(1)] s1(2)] worker_step_less [OF Cons.prems(1) s1(1)] show ?case by simp
qed simp

text \<open>When the workers of a listening server have come to rest, they all wait on an empty queue.\<close>

lemma rest_empty:
  assumes inv: "server_inv handler n st0 s" and "listening s" and "0 < n"
    and rest: "\<And>i. worker_step handler s i = None" and returns: "\<And>fd. WHandle fd \<in> set (workers s) \<Longrightarrow> handler (app s) fd \<noteq> None"
  shows "accepted s = started s @ in_acceptor (acceptor s) \<and> mset (closed s) = mset (started s)"
proof -
  obtain xs where xs: "wq_rep (wq s) xs" "started s @ xs @ in_acceptor (acceptor s) = accepted s" using inv by (auto simp: server_inv_def)
  have w: "workers s ! i = WPop" if i: "i < length (workers s)" for i
  proof (cases "workers s ! i")
    case WExit
    then have "WExit \<in> set (workers s)" using i nth_mem by metis
    with inv assms(2) show ?thesis by (simp add: server_inv_def)
  next
    case (WHandle fd)
    then have "WHandle fd \<in> set (workers s)" using i nth_mem by metis
    then obtain st where "handler (app s) fd = Some st" using returns by blast
    with rest [of i] i WHandle show ?thesis by (simp add: worker_step_def)
  qed (use rest [of i] i in \<open>auto simp: worker_step_def\<close>)
  have "xs = []"
  proof (cases xs)
    case (Cons x ys)
    with xs(1) wq_pop_rep [of "wq s" x ys] rest [of 0] w [of 0] inv assms(3) show ?thesis by (fastforce simp: worker_step_def server_inv_def)
  qed simp
  moreover have "concat (map in_worker (workers s)) = []" using w by (auto simp: in_worker_def in_set_conv_nth split: worker.splits)
  ultimately show ?thesis using xs(2) inv by (simp add: server_inv_def)
qed

definition handling :: "worker \<Rightarrow> int list" where
  "handling w = (case w of WHandle fd \<Rightarrow> [fd] | _ \<Rightarrow> [])"

lemma in_worker_split: "mset (in_worker w) = mset (closing w) + mset (handling w)"
  by (cases w) (simp_all add: in_worker_def closing_def handling_def)

lemma started_split:
  assumes "server_inv handler n st0 s"
  shows "mset (started s) = mset (answered s) + mset (concat (map handling (workers s)))"
proof -
  have "mset (concat (map in_worker ws)) = mset (concat (map closing ws)) + mset (concat (map handling ws))" for ws
    by (induction ws) (simp_all add: in_worker_split)
  then show ?thesis using assms by (simp add: server_inv_def)
qed

lemma answered_accepted:
  assumes "server_inv handler n st0 s"
  shows "set (answered s) \<subseteq> set (accepted s) \<and> length (answered s) \<le> length (accepted s)"
proof -
  have st: "mset (started s) = mset (answered s) + mset (concat (map handling (workers s)))" by (rule started_split [OF assms])
  have "set (answered s) \<subseteq> set (started s)" "length (answered s) \<le> length (started s)"
    using arg_cong [OF st, of set_mset] arg_cong [OF st, of size] by auto
  moreover have "\<exists>xs. accepted s = started s @ xs" using assms unfolding server_inv_def by metis
  ultimately show ?thesis by auto
qed

text \<open>What the server relies on: the handler returns, as often as its budget says, on the connections it is
  made for.\<close>

locale request_handler =
  fixes handler :: "'s \<Rightarrow> int \<Rightarrow> 's option" and ok :: "nat \<Rightarrow> 's \<Rightarrow> bool" and good :: "int \<Rightarrow> bool"
  assumes returns: "ok (Suc k) st \<Longrightarrow> good fd \<Longrightarrow> \<exists>st'. handler st fd = Some st' \<and> ok k st'"
begin

lemma handle_all_ok:
  assumes "ok (length fds + k) st" and "\<forall>fd \<in> set fds. good fd"
  shows "\<exists>st'. handle_all handler fds st = Some st' \<and> ok k st'"
  using assms
proof (induction fds arbitrary: st)
  case (Cons fd fds)
  then show ?case using returns [of "length fds + k" st fd] by fastforce
qed simp

lemma worker_handles:
  assumes inv: "server_inv handler n st0 s" and ok: "ok N st0" and good: "\<forall>fd \<in> set (accepted s). good fd" "length (accepted s) \<le> N"
    and w: "WHandle fd \<in> set (workers s)"
  shows "handler (app s) fd \<noteq> None"
proof -
  have st: "mset (started s) = mset (answered s) + mset (concat (map handling (workers s)))" by (rule started_split [OF inv])
  have "\<exists>xs. accepted s = started s @ xs" using inv unfolding server_inv_def by metis
  then have acc: "set (started s) \<subseteq> set (accepted s)" "length (started s) \<le> length (accepted s)" by auto
  have fd: "fd \<in> set (concat (map handling (workers s)))" using w by (force simp: handling_def)
  then have "concat (map handling (workers s)) \<noteq> []" by (metis empty_iff empty_set)
  then have less: "length (answered s) < length (started s)" using arg_cong [OF st, of size] by simp
  have "set (started s) = set (answered s) \<union> set (concat (map handling (workers s)))" using arg_cong [OF st, of set_mset] by simp
  with fd have an: "set (answered s) \<subseteq> set (accepted s)" "fd \<in> set (accepted s)" using acc(1) by auto
  obtain k where k: "N = length (answered s) + Suc k" using less acc(2) good(2) less_imp_Suc_add [of "length (answered s)" N] by auto
  obtain st' where "handle_all handler (answered s) st0 = Some st'" "ok (Suc k) st'"
    using handle_all_ok [of "answered s" "Suc k" st0] ok k an(1) good(1) by auto
  moreover have "handle_all handler (answered s) st0 = Some (app s)" using inv by (simp add: server_inv_def)
  ultimately show ?thesis using returns [of k "app s" fd] good(1) an(2) by auto
qed

lemma drains:
  assumes init: "server_inv handler n st0 s0" "ok N st0" and r: "reach handler s0 s" and n: "0 < n" and listening: "listening s"
    and good: "\<forall>fd \<in> set (accepted s). good fd" "length (accepted s) \<le> N"
    and run: "run_workers handler s js = Some s'" and rest: "\<And>i. worker_step handler s' i = None"
  shows "accepted s' = accepted s \<and> accepted s' = started s' @ in_acceptor (acceptor s') \<and> mset (closed s') = mset (started s')"
proof -
  have inv: "server_inv handler n st0 s" by (rule reach_inv [OF r init(1)])
  have s': "server_inv handler n st0 s'" "accepted s' = accepted s" "listening s'" using run_workers_inv [OF inv run] listening by auto
  have "handler (app s') fd \<noteq> None" if "WHandle fd \<in> set (workers s')" for fd
    using worker_handles [OF s'(1) init(2) _ _ that] good s'(2) by simp
  from rest_empty [OF s'(1,3) n rest this] s'(2) show ?thesis by simp
qed

end

subsection \<open>The handlers of the two servers\<close>

text \<open>The workers of a follower: \<open>input\<close> is what the client of a connection sends.\<close>

definition follower_conn :: "char list \<Rightarrow> (int \<Rightarrow> char list) \<Rightarrow> kvresponse_t \<Rightarrow> char list \<Rightarrow>
    fs \<times> tpcfollower_t \<times> (int \<times> char list) list \<Rightarrow> int \<Rightarrow> (fs \<times> tpcfollower_t \<times> (int \<times> char list) list) option" where
  "follower_conn index_payload input res junk = (\<lambda>(fs, server, replies) fd. do {
     (sent, server, fs) \<leftarrow> tpcfollower_handle index_payload byte_writes fs server (input fd) (stack_response res) (log_junk junk);
     Some (fs, server, replies @ [(fd, sent)]) })"

definition leader_conn :: "'w net \<Rightarrow> char list \<Rightarrow> (int \<Rightarrow> char list) \<Rightarrow> kvresponse_t \<Rightarrow>
    tpcleader_t \<times> 'w \<times> (int \<times> char list) list \<Rightarrow> int \<Rightarrow> (tpcleader_t \<times> 'w \<times> (int \<times> char list) list) option" where
  "leader_conn net index_payload input res = (\<lambda>(leader, w, replies) fd. do {
     (sent, leader, w) \<leftarrow> tpcleader_handle net index_payload byte_writes leader (input fd) res w;
     Some (leader, w, replies @ [(fd, sent)]) })"

text \<open>Requests a follower is made for.\<close>

definition peer_req :: "kvrequest_t \<Rightarrow> bool" where
  "peer_req req \<longleftrightarrow> kvreq_wf req \<and> req_type req \<in> {GETREQ, PUTREQ, DELREQ, COMMIT, ABORT} \<and> length (req_val req) \<le> KVRES_BODY_MAX_SIZE"

definition sends :: "(int \<Rightarrow> char list) \<Rightarrow> (kvrequest_t \<Rightarrow> bool) \<Rightarrow> int \<Rightarrow> bool" where
  "sends input P fd \<longleftrightarrow> (\<exists>req. kvrequest_receive (input fd) = Some (Some req) \<and> P req)"

definition follower_ok :: "nat \<Rightarrow> fs \<times> tpcfollower_t \<times> (int \<times> char list) list \<Rightarrow> bool" where
  "follower_ok k = (\<lambda>(fs, server, replies). \<exists>m es. follower_rep fs server (m, es) \<and> finite (dom m) \<and>
     card (dom m) + k < nat INT_MAX \<and> length es + k + 1 < 2 ^ 64 \<and> (\<forall>v \<in> ran m. length v \<le> KVRES_BODY_MAX_SIZE))"

definition leader_ok :: "finfo list \<Rightarrow> nat \<Rightarrow> tpcleader_t \<times> nodes \<times> (int \<times> char list) list \<Rightarrow> bool" where
  "leader_ok fs k = (\<lambda>(leader, w, replies). leader_rep leader fs \<and> at_capacity leader \<and> fs \<noteq> [] \<and> distinct (map snd fs) \<and>
     (\<exists>m. replicas w fs m k))"

lemma step_state_abort: "req_type req = ABORT \<Longrightarrow> step_state (m, es) req = (m, es @ [(ABORT, log_payload ABORT (req_key req) (req_val req))])"
  by (simp add: step_state_def follower_spec_def Let_def)

lemma peer_step:
  assumes req: "peer_req req" and ok: "finite (dom m)" "card (dom m) + Suc k < nat INT_MAX" "length es + Suc k + 1 < 2 ^ 64"
      "\<forall>v \<in> ran m. length v \<le> KVRES_BODY_MAX_SIZE" and st: "step_state (m, es) req = (m', es')"
  shows "request_ok (m, es) req \<and> finite (dom m') \<and> card (dom m') + k < nat INT_MAX \<and> length es' + k + 1 < 2 ^ 64 \<and>
    (\<forall>v \<in> ran m'. length v \<le> KVRES_BODY_MAX_SIZE)"
proof -
  have wf: "kvreq_wf req" "length (req_val req) \<le> KVRES_BODY_MAX_SIZE" "req_type req \<in> {GETREQ, PUTREQ, DELREQ, COMMIT, ABORT}"
    using req by (auto simp: peer_req_def)
  have "request_ok (m, es) req"
    using ok kvreq_wf_ok [OF wf(1)] by (auto simp: request_ok_def ran_def split: option.splits)
  moreover have "m' = store_next req m" "length es' \<le> Suc (length es)"
    using st wf(3) step_state_update [of req m es] step_state_get [of req "(m, es)"] step_state_abort [of req m es] by (auto simp: store_next_def)
  ultimately show ?thesis using ok card_store_next [OF ok(1), of req] ran_store_next [OF ok(4) wf(2)] by auto
qed

interpretation fh: request_handler "follower_conn index_payload input res junk" follower_ok "sends input peer_req"
  for index_payload input res junk
proof
  fix k st fd assume "follower_ok (Suc k) st" and fd: "sends input peer_req fd"
  then obtain fs server replies m es where st: "st = (fs, server, replies)" "follower_rep fs server (m, es)" "finite (dom m)"
      "card (dom m) + Suc k < nat INT_MAX" "length es + Suc k + 1 < 2 ^ 64" "\<forall>v \<in> ran m. length v \<le> KVRES_BODY_MAX_SIZE"
    by (cases st) (auto simp: follower_ok_def)
  obtain req where req: "kvrequest_receive (input fd) = Some (Some req)" "peer_req req" using fd by (auto simp: sends_def)
  obtain m' es' where n: "step_state (m, es) req = (m', es')" by (cases "step_state (m, es) req")
  have ok: "request_ok (m, es) req" "finite (dom m')" "card (dom m') + k < nat INT_MAX" "length es' + k + 1 < 2 ^ 64"
      "\<forall>v \<in> ran m'. length v \<le> KVRES_BODY_MAX_SIZE" using peer_step [OF req(2) st(3-6) n] by auto
  have "req_type req \<noteq> INDEX" using req(2) by (auto simp: peer_req_def)
  from follower_handle_bytes [OF st(2) req(1) this ok(1) length_log_junk stack_response_ok byte_writes_ok]
  obtain r st' sent server' fs' where h: "follower_spec (m, es) req (resp_body (stack_response res)) = (r, st')"
      "tpcfollower_handle index_payload byte_writes fs server (input fd) (stack_response res) (log_junk junk) = Some (sent, server', fs')"
      "follower_rep fs' server' st'" by blast
  have "st' = (m', es')" using h(1) follower_spec_state [of "(m, es)" req] n by (metis snd_conv)
  with h ok(2-5) show "\<exists>st'. follower_conn index_payload input res junk st fd = Some st' \<and> follower_ok k st'"
    by (auto simp: st(1) follower_conn_def follower_ok_def)
qed

interpretation lh: request_handler "leader_conn (cluster_net index_payload sres junk) index_payload input res" "leader_ok fs" "sends input client_req"
  for index_payload sres junk input res fs
proof
  fix k st fd assume "leader_ok fs (Suc k) st" and fd: "sends input client_req fd"
  then obtain leader w replies m where st: "st = (leader, w, replies)" "leader_rep leader fs" "at_capacity leader" "fs \<noteq> []"
      "distinct (map snd fs)" "replicas w fs m (Suc k)"
    by (cases st) (auto simp: leader_ok_def)
  obtain req where req: "kvrequest_receive (input fd) = Some (Some req)" "client_req req" using fd by (auto simp: sends_def)
  from replicas_handle [OF st(2-6) req(2,1), of index_payload sres junk res] obtain sent w' where
    "tpcleader_handle (cluster_net index_payload sres junk) index_payload byte_writes leader (input fd) res w = Some (sent, leader, w')"
    "replicas w' fs (store_next req m) k" by blast
  with st show "\<exists>st'. leader_conn (cluster_net index_payload sres junk) index_payload input res st fd = Some st' \<and> leader_ok fs k st'"
    by (auto simp: leader_conn_def leader_ok_def)
qed

subsection \<open>Connections of the leader in the order they are answered\<close>

definition request_of :: "(int \<Rightarrow> char list) \<Rightarrow> int \<Rightarrow> kvrequest_t" where
  "request_of input fd = (case kvrequest_receive (input fd) of Some (Some req) \<Rightarrow> req | _ \<Rightarrow> \<lparr>req_type = EMPTY, req_key = [], req_val = []\<rparr>)"

lemma leader_handle_all:
  assumes leader: "leader_rep leader fs" "at_capacity leader" "fs \<noteq> []" "distinct (map snd fs)"
    and "replicas w fs m (length fds + k)" and "\<forall>fd \<in> set fds. sends input client_req fd"
  shows "\<exists>w' out rs. handle_all (leader_conn (cluster_net index_payload sres junk) index_payload input res) fds (leader, w, replies) =
      Some (leader, w', replies @ zip fds out) \<and> length out = length fds \<and>
    map kvresponse_receive out = map (\<lambda>r. Some (Some r)) rs \<and> specs_run m (map (request_of input) fds) rs \<and>
    replicas w' fs (fold store_next (map (request_of input) fds) m) k"
  using assms(5,6)
proof (induction fds arbitrary: w m replies)
  case (Cons fd fds)
  obtain req where req: "kvrequest_receive (input fd) = Some (Some req)" "client_req req" using Cons.prems(2) by (auto simp: sends_def)
  then have ro: "request_of input fd = req" by (simp add: request_of_def)
  have reps: "replicas w fs m (Suc (length fds + k))" using Cons.prems(1) by simp
  obtain r sent w1 where h: "tpcleader_handle (cluster_net index_payload sres junk) index_payload byte_writes leader (input fd) res w =
        Some (sent, leader, w1)" "kvresponse_receive sent = Some (Some r)" "store_spec m req r" "replicas w1 fs (store_next req m) (length fds + k)"
    using replicas_handle [OF leader reps req(2,1), of index_payload sres junk res] by blast
  obtain w' out rs where IH: "handle_all (leader_conn (cluster_net index_payload sres junk) index_payload input res) fds
        (leader, w1, replies @ [(fd, sent)]) = Some (leader, w', (replies @ [(fd, sent)]) @ zip fds out)" "length out = length fds"
      "map kvresponse_receive out = map (\<lambda>r. Some (Some r)) rs" "specs_run (store_next req m) (map (request_of input) fds) rs"
      "replicas w' fs (fold store_next (map (request_of input) fds) (store_next req m)) k"
    using Cons.IH [OF h(4), of "replies @ [(fd, sent)]"] Cons.prems(2) by auto
  show ?case using h IH ro
    by (intro exI [of _ w'] exI [of _ "sent # out"] exI [of _ "r # rs"]) (simp add: leader_conn_def)
qed simp

subsection \<open>Stopping\<close>

lemma stopped_step:
  assumes "step handler s s'" and "\<not> listening s"
  shows "\<not> listening s' \<and> length (started s') + count_list (workers s') WPop \<le> length (started s) + count_list (workers s) WPop \<and>
    length (accepted s') + (if acceptor s' = AAccept then 1 else 0) \<le> length (accepted s) + (if acceptor s = AAccept then 1 else 0) \<and>
    length (workers s') = length (workers s)"
  using assms
proof (cases rule: step.cases)
  case (worker i)
  then have i: "i < length (workers s)" by (auto simp: worker_step_def split: if_splits)
  have upd: "count_list ((workers s)[i := w]) WPop + (if workers s ! i = WPop then 1 else 0) = count_list (workers s) WPop + (if w = WPop then 1 else 0)" for w
  proof -
    have "count_list (workers s) WPop = count_list (take i (workers s) @ workers s ! i # drop (Suc i) (workers s)) WPop"
      using id_take_nth_drop [OF i] by (rule arg_cong)
    then show ?thesis by (simp add: upd_conv_take_nth_drop [OF i])
  qed
  show ?thesis
  proof (cases "workers s ! i")
    case WCheck
    then show ?thesis using worker i assms(2) upd [of WExit] by (auto simp: worker_step_def)
  next
    case WPop
    then obtain fd q where "wq_pop (wq s) = Some (Some (fd, q))" using worker i
      by (auto simp: worker_step_def split: option.splits)
    then show ?thesis using worker i assms(2) WPop upd [of "WHandle fd"] by (auto simp: worker_step_def)
  next
    case (WHandle fd)
    then show ?thesis using worker i assms(2) upd [of "WClose fd"] by (auto simp: worker_step_def split: bind_splits)
  next
    case (WClose fd)
    then show ?thesis using worker i assms(2) upd [of WCheck] by (auto simp: worker_step_def)
  qed (use worker i in \<open>simp add: worker_step_def\<close>)
next
  case (accept fd)
  then show ?thesis using assms(2) by (auto simp: accept_step_def split: acceptor.splits if_splits bind_splits)
next
  case stop
  then show ?thesis by (simp add: server_stop_def)
qed

lemma stopped_reach:
  assumes "reach handler s s'" and "\<not> listening s"
  shows "\<not> listening s' \<and> length (started s') + count_list (workers s') WPop \<le> length (started s) + count_list (workers s) WPop \<and>
    length (accepted s') + (if acceptor s' = AAccept then 1 else 0) \<le> length (accepted s) + (if acceptor s = AAccept then 1 else 0)"
  using assms
proof (induction rule: reach.induct)
  case (next_step s s' s'')
  have IH: "\<not> listening s'" "length (started s') + count_list (workers s') WPop \<le> length (started s) + count_list (workers s) WPop"
      "length (accepted s') + (if acceptor s' = AAccept then 1 else 0) \<le> length (accepted s) + (if acceptor s = AAccept then 1 else 0)"
    using next_step.IH next_step.prems by auto
  from stopped_step [OF next_step.hyps(2) IH(1)] IH(2,3) show ?case by linarith
qed simp

subsection \<open>Resting states exist\<close>

lemma rest_exists:
  assumes "server_inv handler n st0 s"
  shows "\<exists>js s'. run_workers handler s js = Some s' \<and> (\<forall>i. worker_step handler s' i = None)"
  using assms
proof (induction "work_left s" arbitrary: s rule: less_induct)
  case less
  show ?case
  proof (cases "\<forall>i. worker_step handler s i = None")
    case False
    then obtain i s1 where s1: "worker_step handler s i = Some s1" by auto
    from less.hyps [OF worker_step_less [OF less.prems s1] worker_step_inv [OF less.prems s1]]
    obtain js s' where "run_workers handler s1 js = Some s'" "\<forall>i. worker_step handler s' i = None" by blast
    with s1 show ?thesis by (intro exI [of _ "i # js"]) auto
  qed (intro exI [of _ "[]"], simp)
qed

subsection \<open>Connecting\<close>

text \<open>\<open>sockfd\<close> is what \<^verbatim>\<open>socket\<close> returns, negative when it fails.  The result is the value returned, the open
  descriptors afterwards and the receive timeout that was set.\<close>

definition connect_to :: "(string \<Rightarrow> 'a option) \<Rightarrow> ('a \<Rightarrow> 16 word \<Rightarrow> bool) \<Rightarrow> int \<Rightarrow> string \<Rightarrow> int \<Rightarrow> int \<Rightarrow> int set \<Rightarrow>
    int \<times> int set \<times> int option" where
  "connect_to gethostbyname connects sockfd host prt timeout fds =
     (let fds = (if sockfd < 0 then fds else insert sockfd fds) in
      case gethostbyname host of
        None \<Rightarrow> (- 1, fds - {sockfd}, None)
      | Some ent \<Rightarrow>
          let rcvtimeo = (if timeout > 0 then Some timeout else None) in
          if sockfd < 0 \<or> \<not> connects ent (word_of_int prt) then (- 1, fds - {sockfd}, rcvtimeo)
          else (sockfd, fds, rcvtimeo))"

subsection \<open>Properties\<close>


definition count_handler :: "nat \<Rightarrow> int \<Rightarrow> nat option" where
  "count_handler k fd = Some (Suc k)"

definition sample_server :: "nat server_t" where
  "sample_server = server_init ''127.0.0.1'' 16200 2 (empty_heap 5) 0"

text \<open>Two connections are accepted; the second worker handles the first one.\<close>

lemma sample_server_reach:
  "\<exists>s. reach count_handler sample_server s \<and> accepted s = [5, 6] \<and> closed s = [5] \<and> listening s"
proof -
  define run where "run = (do {
      s \<leftarrow> accept_step sample_server 0; s \<leftarrow> accept_step s 5; s \<leftarrow> accept_step s 0; s \<leftarrow> accept_step s 0; s \<leftarrow> accept_step s 6;
      s \<leftarrow> worker_step count_handler s 1; s \<leftarrow> worker_step count_handler s 1; s \<leftarrow> worker_step count_handler s 1; worker_step count_handler s 1 })"
  have "map_option (\<lambda>s. (accepted s, closed s, listening s)) run = Some ([5, 6], [5], True)" unfolding run_def by code_simp
  then obtain s where s: "run = Some s" "accepted s = [5, 6]" "closed s = [5]" "listening s" by auto
  moreover from s(1) have "reach count_handler sample_server s" unfolding run_def
    by (auto split: bind_splits) (meson reach_accept reach_worker reach.start)
  ultimately show ?thesis by blast
qed


text \<open>C23: a follower that listens works off its queue: whatever the workers have been doing, they can take only boundedly
  many steps, and whichever steps they take, when they come to rest every connection that was pushed has been
  answered and closed.  The handler is that of the follower, on requests that it is made for.\<close>

theorem follower_server_drains:
  assumes "heap_ok h" and "follower_ok N st" and "reach (follower_conn index_payload input res junk) (server_init host prt n h st) s"
    and "listening s" and "0 < n" and "\<forall>fd \<in> set (accepted s). sends input peer_req fd" and "length (accepted s) \<le> N"
  shows "(\<exists>js s'. run_workers (follower_conn index_payload input res junk) s js = Some s' \<and>
        (\<forall>i. worker_step (follower_conn index_payload input res junk) s' i = None)) \<and>
    (\<forall>js s'. run_workers (follower_conn index_payload input res junk) s js = Some s' \<longrightarrow> length js \<le> work_left s \<and>
      ((\<forall>i. worker_step (follower_conn index_payload input res junk) s' i = None) \<longrightarrow>
        accepted s = started s' @ in_acceptor (acceptor s') \<and> mset (closed s') = mset (started s')))"
proof -
  let ?h = "follower_conn index_payload input res junk"
  have i0: "server_inv ?h n st (server_init host prt n h st)" by (rule server_inv_init [OF assms(1)])
  note inv = reach_inv [OF assms(3) i0]
  have "length js \<le> work_left s \<and> ((\<forall>i. worker_step ?h s' i = None) \<longrightarrow>
      accepted s = started s' @ in_acceptor (acceptor s') \<and> mset (closed s') = mset (started s'))"
    if run: "run_workers ?h s js = Some s'" for js s'
    using run_workers_inv [OF inv run] fh.drains [OF i0 assms(2,3,5,4,6,7) run] by auto
  with rest_exists [OF inv] show ?thesis by blast
qed

lemma sample_input: "kvrequest_receive (''GET /?key=k HTTP/1.1'' @ [CR, LF, CR, LF]) = Some (Some (sample_request GETREQ []))"
  by code_simp

lemma one_accepted:
  "\<exists>s. reach handler (server_init host prt n (empty_heap 5) st) s \<and> accepted s = [7] \<and> listening s \<and> acceptor s = ACheck"
proof -
  let ?s = "server_init host prt n (empty_heap 5) st"
  have "0 < wq_room (wq ?s)" by (simp add: wq_room_def server_init_def wq_init_def empty_heap_def INT_MAX_def)
  then obtain q where q: "wq_push (wq ?s) 7 = Some q"
    using wq_push_rep [of "wq ?s" "[]" 7] wq_rep_init [OF heap_ok_empty] by (auto simp: server_init_def)
  let ?s1 = "?s\<lparr>acceptor := AAccept\<rparr>"
  let ?s2 = "?s\<lparr>acceptor := APush 7, accepted := [7]\<rparr>"
  let ?s3 = "?s\<lparr>acceptor := ACheck, accepted := [7], wq := q\<rparr>"
  have "accept_step ?s 0 = Some ?s1" "accept_step ?s1 7 = Some ?s2" "accept_step ?s2 0 = Some ?s3"
    using q by (simp_all add: accept_step_def server_init_def)
  then have "reach handler ?s ?s3" by (meson reach_accept reach.start)
  then show ?thesis by (intro exI [of _ ?s3]) (simp add: server_init_def)
qed

lemma sample_follower_ok: "follower_ok 3 (sample_fs, sample_follower, [])"
  using sample_follower_rep by (force simp: follower_ok_def INT_MAX_def)

theorem follower_server_drains_witness:
  "\<exists>s js s'. run_workers (follower_conn [] (\<lambda>_. ''GET /?key=k HTTP/1.1'' @ [CR, LF, CR, LF]) \<lparr>resp_type = EMPTY, resp_body = []\<rparr> []) s js = Some s' \<and>
     accepted s = [7] \<and> closed s' = [7]"
proof -
  let ?in = "\<lambda>_ :: int. ''GET /?key=k HTTP/1.1'' @ [CR, LF, CR, LF]"
  let ?h = "follower_conn [] ?in \<lparr>resp_type = EMPTY, resp_body = []\<rparr> []"
  let ?s0 = "server_init ''127.0.0.1'' 16201 1 (empty_heap 5) (sample_fs, sample_follower, [])"
  obtain s where s: "reach ?h ?s0 s" "accepted s = [7]" "listening s" "acceptor s = ACheck"
    using one_accepted [of ?h "''127.0.0.1''" 16201 1 "(sample_fs, sample_follower, [])"] by blast
  have "sends ?in peer_req 7" using sample_input
    by (auto simp: sends_def peer_req_def sample_request_def kvreq_wf_def param_text_def size_defs)
  then have d: "\<forall>fd \<in> set (accepted s). sends ?in peer_req fd" "length (accepted s) \<le> 3" using s(2) by simp_all
  obtain js s' where r: "run_workers ?h s js = Some s'" "accepted s = started s' @ in_acceptor (acceptor s')" "mset (closed s') = mset (started s')"
    using follower_server_drains [OF heap_ok_empty sample_follower_ok s(1,3) zero_less_one d] by blast
  have "acceptor s' = acceptor s"
    using run_workers_inv [OF reach_inv [OF s(1) server_inv_init [OF heap_ok_empty]] r(1)] by simp
  then have "started s' = [7]" using r(2) s(2,4) by (simp add: in_acceptor_def)
  then have "closed s' = [7]" using r(3) by (simp add: mset_single_iff)
  with r(1) s(2) show ?thesis by blast
qed


lemma run_workers_reach: "reach handler s0 s \<Longrightarrow> run_workers handler s js = Some s' \<Longrightarrow> reach handler s0 s'"
  by (induction js arbitrary: s) (auto split: bind_splits intro: reach_worker)




text \<open>\<^verbatim>\<open>connect_to\<close> returns the new descriptor, connected to the resolved host and the low 16 bits of the port, or -1; a failed
  attempt leaves no descriptor open.\<close>

lemma connect_to_descriptor:
  assumes "connect_to gethostbyname connects sockfd host prt timeout fds = (ret, fds', t)" and "sockfd \<notin> fds" and "- 1 \<le> sockfd"
  shows "if \<exists>ent. 0 \<le> sockfd \<and> gethostbyname host = Some ent \<and> connects ent (word_of_int prt)
    then ret = sockfd \<and> fds' = insert sockfd fds \<and> t = (if 0 < timeout then Some timeout else None)
    else ret = - 1 \<and> fds' = fds"
  using assms by (auto simp: connect_to_def Let_def split: if_splits option.splits)

lemma connect_to_descriptor_witness:
  "connect_to (\<lambda>_. None) (\<lambda>(_ :: unit) _. True) 4 ''nohost'' 16200 0 {0, 1, 2} = (- 1, {0, 1, 2}, None)"
  using connect_to_descriptor [of "\<lambda>_. None" "\<lambda>(_ :: unit) _. True" 4 "''nohost''" 16200 0 "{0, 1, 2}"]
  by (auto simp: connect_to_def)

end
