(* ===== verification/Main_Programs.thy ===== *)
theory Main_Programs
  imports Socket_Server
begin

text \<open>
  The two programs of \<^verbatim>\<open>2PCKVStore/main\<close>: how they read their arguments and what they do before they serve.  A
  result \<^term>\<open>Inl c\<close> is the exit code \<open>c\<close>, \<^term>\<open>Inr s\<close> a server in its initial state; undefined behaviour is \<^const>\<open>None\<close>.
\<close>

subsection \<open>The leader\<close>

definition leader_args :: "string list \<Rightarrow> (int \<times> int \<times> int) option" where
  "leader_args args =
     (if length args > 3 then None
      else Some (if length args > 0 then atoi (args ! 0) else 16200,
                 if length args > 1 then atoi (args ! 1) else 1,
                 if length args > 2 then atoi (args ! 2) else 1))"

definition leader_main :: "string list \<Rightarrow> ring_heap \<Rightarrow> wq_heap \<Rightarrow> 'w \<Rightarrow>
    int + (tpcleader_t \<times> 'w \<times> (int \<times> char list) list) server_t" where
  "leader_main args h qh w = (case leader_args args of
     None \<Rightarrow> Inl 1
   | Some (prt, followers, red) \<Rightarrow>
       Inr (server_init ''127.0.0.1'' prt 3 qh (tpcleader_init h (word_of_int followers) (word_of_int red), w, [])))"

subsection \<open>The follower\<close>

text \<open>\<^verbatim>\<open>argv[i][0] != '-'\<close>; the first character of an empty argument is NUL.\<close>

definition is_port_arg :: "string \<Rightarrow> bool" where
  "is_port_arg arg = (case arg of [] \<Rightarrow> True | c # _ \<Rightarrow> c \<noteq> CHR ''-'')"

definition follower_args :: "string list \<Rightarrow> (int \<times> int) option" where
  "follower_args args = (case args of
     [a] \<Rightarrow> if is_port_arg a then Some (atoi a, 16200) else None
   | [a, b] \<Rightarrow> if is_port_arg a then if is_port_arg b then Some (atoi a, atoi b) else None else None
   | _ \<Rightarrow> Some (16201, 16200))"

definition follower_name :: "int \<Rightarrow> string" where
  "follower_name prt = ''follower-port'' @ sprint_int prt"

text \<open>The name is printed into 20 bytes.  The result of \<^verbatim>\<open>tpcfollower_init\<close> is not looked at: when it fails the program goes on
  with an uninitialised follower.  \<^verbatim>\<open>tpcfollower_register_leader\<close> returns a truth value, which is never negative.\<close>

definition follower_main :: "string list \<Rightarrow> fs \<Rightarrow> wq_heap \<Rightarrow> bool \<Rightarrow> int list \<Rightarrow> char list \<Rightarrow> kvresponse_t \<Rightarrow>
    (int + (fs \<times> tpcfollower_t \<times> (int \<times> char list) list) server_t) option" where
  "follower_main args fs qh connected ws answer res = (case follower_args args of
     None \<Rightarrow> Some (Inl 1)
   | Some (follower_port, leader_port) \<Rightarrow>
       if length (follower_name follower_port) \<ge> 20 then None
       else do {
         (_, follower, fs) \<leftarrow> tpcfollower_init fs (follower_name follower_port) 2 ''127.0.0.1'' follower_port;
         if \<not> connected then Some (Inl 1)
         else do {
           follower \<leftarrow> follower;
           (registered, _) \<leftarrow> tpcfollower_register_leader ws answer res follower;
           if (if registered then 1 else 0 :: int) < 0 then Some (Inl 1)
           else Some (Inr (server_init ''127.0.0.1'' follower_port 3 qh (fs, follower, [])))
         }
       })"

subsection \<open>Properties\<close>

lemma sprint_int_length: "0 \<le> prt \<Longrightarrow> prt < 10 ^ 6 \<Longrightarrow> length (sprint_int prt) \<le> 6"
  using length_dec [of "nat prt" 6] by (simp add: sprint_int_def)

lemma sprint_int_cstring: "0 \<le> prt \<Longrightarrow> cstring (sprint_int prt)"
  by (simp add: sprint_int_def)

lemma length_dec_ge: "10 ^ k \<le> n \<Longrightarrow> k < length (dec n)"
proof (induction k arbitrary: n)
  case (Suc k)
  then have "10 ^ k \<le> n div 10" by (simp add: less_eq_div_iff_mult_less_eq mult.commute)
  moreover from this have "\<not> n < 10" by (metis div_less le_zero_eq power_not_zero zero_neq_numeral)
  ultimately show ?case using Suc.IH [of "n div 10"] by (simp add: dec.simps [of n])
qed simp

lemma register_request_wf:
  assumes "fl_hostname server = ''127.0.0.1''" and "fl_port server = prt" and "0 \<le> prt" and "prt < 10 ^ 6"
  shows "kvreq_wf (register_request server)"
proof -
  have "c \<notin> set (dec (nat prt))" if "\<not> is_digit c" for c using dec_is_digit that by blast
  then have "param_text (dec (nat prt))" by (simp add: param_text_def is_digit_def)
  moreover have "length (dec (nat prt)) \<le> 6" using length_dec [of "nat prt" 6] assms(3,4) by simp
  ultimately show ?thesis using assms by (simp add: register_request_def kvreq_wf_def param_text_def size_defs)
qed

lemma tpcfollower_init_fields:
  assumes "tpcfollower_init fs d n host prt = Some (ret, Some server, fs')"
  shows "fl_hostname server = host \<and> fl_port server = prt"
  using assms by (auto simp: tpcfollower_init_def Let_def split: prod.splits if_splits bind_splits)

text \<open>A follower that is started on a port of at most six digits, with a directory of its own and a leader that can be
  reached, sends its registration and serves from an empty store, on that port with three workers, whatever the
  leader answers: a refused registration is not noticed.\<close>

theorem follower_boots:
  assumes "follower_args args = Some (prt, lp)" and "0 \<le> prt" and "prt < 10 ^ 6" and "fresh_dir fs (follower_name prt)"
    and "\<forall>w \<in> set ws. 0 < w" and "HTTP_MSG_MAX_SIZE \<le> length ws" and "kvresponse_receive answer \<noteq> None"
  shows "\<exists>server fs'. follower_main args fs qh True ws answer res =
      Some (Inr (server_init ''127.0.0.1'' prt 3 qh (fs', server, []))) \<and> follower_rep fs' server (Map.empty, [])"
proof -
  obtain server fs' where i: "tpcfollower_init fs (follower_name prt) 2 ''127.0.0.1'' prt = Some (0, Some server, fs')"
      "follower_rep fs' server (Map.empty, [])"
    using tpcfollower_init_fresh [OF assms(4), of "''127.0.0.1''" 2 prt] by (auto simp: HOSTNAME_SIZE_def)
  have wf: "kvreq_wf (register_request server)"
    using register_request_wf [of server prt] tpcfollower_init_fields [OF i(1)] assms(2,3) by simp
  obtain msg where "kvrequest_message (register_request server) = Some (Some msg)" using kvrequest_roundtrip [OF wf] by blast
  then have "\<exists>n sent. kvrequest_send ws (register_request server) = Some (n, sent)"
    using http_outbound_send_complete [OF assms(5,6) kvrequest_message_length] by (auto simp: kvrequest_send_def)
  moreover have "length (follower_name prt) < 20" using sprint_int_length [OF assms(2,3)] by (simp add: follower_name_def)
  ultimately have "follower_main args fs qh True ws answer res = Some (Inr (server_init ''127.0.0.1'' prt 3 qh (fs', server, [])))"
    using i(1) assms(1,7) by (auto simp: follower_main_def tpcfollower_register_leader_def)
  with i(2) show ?thesis by blast
qed

definition boot_fs :: fs where
  "boot_fs = \<lparr>dirs = (\<lambda>_. False), files = Map.empty, denied = (\<lambda>_. False)\<rparr>"

theorem follower_boots_witness:
  "\<exists>server fs'. follower_main [''16201''] boot_fs (empty_heap 4) True byte_writes [] \<lparr>resp_type = EMPTY, resp_body = []\<rparr> =
      Some (Inr (server_init ''127.0.0.1'' 16201 3 (empty_heap 4) (fs', server, []))) \<and> follower_rep fs' server (Map.empty, [])"
proof (rule follower_boots)
  show "follower_args [''16201''] = Some (16201, 16200)" by code_simp
  show "fresh_dir boot_fs (follower_name 16201)" by (simp add: fresh_dir_def boot_fs_def stat_def)
  show "kvresponse_receive [] \<noteq> None" by code_simp
qed (use byte_writes_ok in auto)


text \<open>A port of seven or more digits overflows the 20 bytes of the name.\<close>

lemma follower_name_overflow:
  assumes "follower_args args = Some (prt, lp)" and "10 ^ 6 \<le> prt"
  shows "20 \<le> length (follower_name prt) \<and> follower_main args fs qh connected ws answer res = None"
proof -
  have "6 < length (dec (nat prt))" using assms(2) by (intro length_dec_ge) simp
  then have "20 \<le> length (follower_name prt)" using assms(2) by (simp add: follower_name_def sprint_int_def)
  then show ?thesis using assms(1) by (simp add: follower_main_def)
qed

lemma follower_name_overflow_witness:
  "follower_main [''1234567 ''] boot_fs (empty_heap 4) True [] [] \<lparr>resp_type = EMPTY, resp_body = []\<rparr> = None"
proof -
  have "digit 1 = CHR ''1''" "digit 2 = CHR ''2''" "digit 3 = CHR ''3''" "digit 4 = CHR ''4''" "digit 5 = CHR ''5''"
      "digit 6 = CHR ''6''" "digit 7 = CHR ''7''" by code_simp+
  then have "dec 1234567 = ''1234567''" by (simp add: dec.simps)
  then have "atoi ''1234567 '' = 1234567" using strtol_dec [of "'' ''" 1234567] by (simp add: atoi_def to_int_def deref_def LONG_MAX_def)
  then have "follower_args [''1234567 ''] = Some (1234567, 16200)" by (simp add: follower_args_def is_port_arg_def)
  from follower_name_overflow [OF this] show ?thesis by simp
qed

end
