(* ===== verification/KV_Concurrent.thy ===== *)
theory KV_Concurrent
  imports KV_Store
begin

text \<open>
  Threads on one store, \<^verbatim>\<open>2PCKVStore/kvstore.c\<close>.  An insertion and a deletion have two critical sections: the look-up under
  the reader lock and the change under the writer lock, and the lock is free in between.  A lookup has one.  A step of a thread
  is one critical section; a schedule says which thread moves next.

  Operations on different hash chains are linearizable: every schedule is as good as some order of the whole
  operations.  Two insertions of the same new key are not.
\<close>

datatype kv_thread =
    Ready "(string, string) store_op"
  | Located "(string, string) store_op" int
  | Finished "int \<times> string option"

fun thread_step :: "kvstore_t \<Rightarrow> fs \<Rightarrow> kv_thread \<Rightarrow> (kv_thread \<times> fs) option" where
  "thread_step store fs (Ready (Get k)) = do { r \<leftarrow> kvstore_get fs store k; Some (Finished r, fs) }"
| "thread_step store fs (Ready (Put k v)) =
     (let check = kvstore_put_check fs store k v
      in if check < 0 then Some (Finished (check, None), fs)
         else do { (counter, _) \<leftarrow> find_entry fs store k False; Some (Located (Put k v) counter, fs) })"
| "thread_step store fs (Ready (Del k)) = do {
     (chainpos, _) \<leftarrow> find_entry fs store k False;
     Some (if chainpos < 0 then Finished (chainpos, None) else Located (Del k) chainpos, fs)
   }"
| "thread_step store fs (Located (Put k v) counter) = do {
     (ret, fs) \<leftarrow> put_locked fs store k v counter; Some (Finished (ret, None), fs) }"
| "thread_step store fs (Located (Del k) chainpos) = do {
     (ret, fs) \<leftarrow> del_locked fs store k chainpos; Some (Finished (ret, None), fs) }"
| "thread_step store fs _ = None"

fun run_threads :: "kvstore_t \<Rightarrow> fs \<Rightarrow> kv_thread list \<Rightarrow> nat list \<Rightarrow> (fs \<times> kv_thread list) option" where
  "run_threads store fs ts [] = Some (fs, ts)"
| "run_threads store fs ts (i # is) =
     (if i < length ts then do { (t, fs) \<leftarrow> thread_step store fs (ts ! i); run_threads store fs (ts[i := t]) is }
      else None)"

text \<open>A thread that runs alone performs the operation of the store.\<close>

fun whole_op :: "kvstore_t \<Rightarrow> fs \<Rightarrow> (string, string) store_op \<Rightarrow> ((int \<times> string option) \<times> fs) option" where
  "whole_op store fs (Get k) = map_option (\<lambda>r. (r, fs)) (kvstore_get fs store k)"
| "whole_op store fs (Put k v) = map_option (\<lambda>(r, fs). ((r, None), fs)) (kvstore_put fs store k v)"
| "whole_op store fs (Del k) = map_option (\<lambda>(r, fs). ((r, None), fs)) (kvstore_del fs store k)"

lemma thread_alone:
  "whole_op store fs x = (case thread_step store fs (Ready x) of
      Some (Finished r, fs) \<Rightarrow> Some (r, fs)
    | Some (t, fs) \<Rightarrow> (case thread_step store fs t of Some (Finished r, fs) \<Rightarrow> Some (r, fs) | _ \<Rightarrow> None)
    | None \<Rightarrow> None)"
proof (cases x)
  case (Get k)
  then show ?thesis by (cases "kvstore_get fs store k") auto
next
  case (Put k v)
  then show ?thesis
    by (cases "find_entry fs store k False") (auto simp: kvstore_put_def Let_def split: prod.splits bind_splits option.splits)
next
  case (Del k)
  then show ?thesis
    by (cases "find_entry fs store k False") (auto simp: kvstore_del_def split: prod.splits bind_splits option.splits)
qed

subsection \<open>The specification\<close>

fun map_op :: "('k \<rightharpoonup> 'v) \<Rightarrow> ('k, 'v) store_op \<Rightarrow> (int \<times> 'v option) \<times> ('k \<rightharpoonup> 'v)" where
  "map_op m (Get k) = (case m k of None \<Rightarrow> (ERR_NOKEY, None) | Some v \<Rightarrow> (0, Some v), m)"
| "map_op m (Put k v) = ((0, None), m(k \<mapsto> v))"
| "map_op m (Del k) = ((if m k = None then ERR_NOKEY else 0, None), m(k := None))"

lemma map_run_snoc:
  "map_run ERR_NOKEY m (xs @ [x]) =
     (case map_run ERR_NOKEY m xs of (rs, m') \<Rightarrow> (rs @ [fst (map_op m' x)], snd (map_op m' x)))"
proof (induction xs arbitrary: m)
  case Nil
  then show ?case by (cases x) auto
next
  case (Cons y xs)
  then show ?case by (cases y) (auto simp: split_beta Let_def)
qed

fun op_key :: "('k, 'v) store_op \<Rightarrow> 'k" where
  "op_key (Get k) = k"
| "op_key (Put k v) = k"
| "op_key (Del k) = k"

fun is_write :: "('k, 'v) store_op \<Rightarrow> bool" where
  "is_write (Get k) = False"
| "is_write _ = True"

abbreviation op_legal :: "(string, string) store_op \<Rightarrow> bool" where
  "op_legal x \<equiv> op_ok key_ok val_ok x"

text \<open>No two writers on one hash chain.\<close>

definition disjoint_writers :: "(string, string) store_op list \<Rightarrow> bool" where
  "disjoint_writers xs \<longleftrightarrow> (\<forall>i < length xs. \<forall>j < length xs. i \<noteq> j \<longrightarrow> is_write (xs ! i) \<longrightarrow> is_write (xs ! j) \<longrightarrow>
     strhash64 (op_key (xs ! i)) \<noteq> strhash64 (op_key (xs ! j)))"

text \<open>What a thread that is between its sections knows is still true.\<close>

definition located_ok :: "chains \<Rightarrow> (string, string) store_op \<Rightarrow> int \<Rightarrow> bool" where
  "located_ok ch x c \<longleftrightarrow> is_write x \<and> c = fst (find_res (ch (strhash64 (op_key x))) (op_key x) False 0) \<and>
     (\<forall>k. x = Del k \<longrightarrow> kv_map ch k \<noteq> None)"

text \<open>One step of a thread: it locates its entry, or it takes effect as a whole operation on the map.\<close>

lemma thread_step_ready:
  assumes ch: "kv_chains fs (kv_dirname store) ch" and x: "op_legal x"
  shows "(\<exists>c. thread_step store fs (Ready x) = Some (Located x c, fs) \<and> located_ok ch x c) \<or>
    thread_step store fs (Ready x) = Some (Finished (fst (map_op (kv_map ch) x)), fs) \<and> snd (map_op (kv_map ch) x) = kv_map ch"
proof -
  note lay = kv_chains_layout [OF ch]
  have fe: "find_entry fs store (op_key x) w = Some (find_res (ch (strhash64 (op_key x))) (op_key x) w 0)" for w
    using find_entry_chain [OF lay] x by (cases x) auto
  show ?thesis
  proof (cases x)
    case (Get k)
    then show ?thesis using fe [of True] by (auto simp: kvstore_get_def find_res_def kv_map_def err_defs split: option.splits)
  next
    case (Put k v)
    then show ?thesis using fe [of False] kvstore_put_check_ok [OF lay] x by (auto simp: located_ok_def split: prod.splits)
  next
    case (Del k)
    show ?thesis
    proof (cases "kv_map ch k")
      case None
      then show ?thesis using Del fe [of False] by (auto simp: find_res_def kv_map_def err_defs)
    next
      case (Some v)
      then show ?thesis using Del fe [of False] by (auto simp: find_res_def kv_map_def located_ok_def)
    qed
  qed
qed

lemma thread_step_located:
  assumes ch: "kv_chains fs (kv_dirname store) ch" and x: "op_legal x" and l: "located_ok ch x c"
    and room: "card (dom (kv_map ch)) < nat INT_MAX"
  shows "\<exists>fs' xs. thread_step store fs (Located x c) = Some (Finished (fst (map_op (kv_map ch) x)), fs') \<and>
    kv_chains fs' (kv_dirname store) (ch(strhash64 (op_key x) := xs)) \<and>
    kv_map (ch(strhash64 (op_key x) := xs)) = snd (map_op (kv_map ch) x)"
proof (cases x)
  case (Put k v)
  have "int (length (ch (strhash64 k))) < INT_MAX"
    using kv_chain_card [OF ch, of "strhash64 k"] room by (auto simp: INT_MAX_def)
  then obtain fs' xs where "put_locked fs store k v c = Some (0, fs')" "kv_chains fs' (kv_dirname store) (ch(strhash64 k := xs))"
      "map_of xs = (map_of (ch (strhash64 k)))(k \<mapsto> v)"
    using put_locked_chain [OF ch, of k v c] x l Put by (auto simp: located_ok_def)
  then show ?thesis using Put kv_map_update [of xs ch k "Some v"] by auto
next
  case (Del k)
  then obtain v where v: "map_of (ch (strhash64 k)) k = Some v" using l by (auto simp: located_ok_def kv_map_def)
  obtain fs' xs where "del_locked fs store k c = Some (0, fs')" "kv_chains fs' (kv_dirname store) (ch(strhash64 k := xs))"
      "map_of xs = (map_of (ch (strhash64 k)))(k := None)"
    using del_locked_chain [OF ch v, of c] l Del by (auto simp: located_ok_def)
  then show ?thesis using Del v kv_map_update [of xs ch k None] by (auto simp: kv_map_def)
qed (use l in \<open>simp add: located_ok_def\<close>)

lemma located_ok_frame:
  assumes "located_ok ch x c" and "strhash64 (op_key x) \<noteq> h"
  shows "located_ok (ch(h := xs)) x c"
  using assms by (auto simp: located_ok_def kv_map_def)

subsection \<open>Every schedule\<close>

text \<open>\<open>lin\<close> lists the threads that have taken effect, in that order.\<close>

definition conc_inv :: "kvstore_t \<Rightarrow> (string \<rightharpoonup> string) \<Rightarrow> (string, string) store_op list \<Rightarrow> fs \<Rightarrow> kv_thread list \<Rightarrow> nat list \<Rightarrow> bool" where
  "conc_inv store m xs fs ts lin \<longleftrightarrow> length ts = length xs \<and> distinct lin \<and> set lin \<subseteq> {..<length xs} \<and>
     (\<exists>ch rs. kv_chains fs (kv_dirname store) ch \<and> map_run ERR_NOKEY m (map ((!) xs) lin) = (rs, kv_map ch) \<and>
        length rs = length lin \<and> card (dom (kv_map ch)) \<le> card (dom m) + length lin \<and>
        (\<forall>j < length lin. ts ! (lin ! j) = Finished (rs ! j)) \<and>
        (\<forall>i < length xs. i \<notin> set lin \<longrightarrow>
           ts ! i = Ready (xs ! i) \<or> (\<exists>c. ts ! i = Located (xs ! i) c \<and> located_ok ch (xs ! i) c)))"

lemma conc_inv_start:
  assumes "kv_rep fs store m"
  shows "conc_inv store m xs fs (map Ready xs) []"
  using assms by (auto simp: conc_inv_def kv_rep_def)

lemma map_op_card: "finite (dom m) \<Longrightarrow> card (dom (snd (map_op m x))) \<le> Suc (card (dom m))"
  by (cases x) (auto simp: card_insert_if card_Diff1_le le_SucI)

text \<open>A thread that takes effect joins the order.\<close>

lemma conc_inv_finish:
  assumes inv: "length ts = length xs" "distinct lin" "set lin \<subseteq> {..<length xs}" "map_run ERR_NOKEY m (map ((!) xs) lin) = (rs, kv_map ch)"
      "length rs = length lin" "card (dom (kv_map ch)) \<le> card (dom m) + length lin" "\<forall>j < length lin. ts ! (lin ! j) = Finished (rs ! j)"
    and i: "i < length xs" "i \<notin> set lin"
    and ch': "kv_chains fs' (kv_dirname store) ch'" "kv_map ch' = snd (map_op (kv_map ch) (xs ! i))" "finite (dom (kv_map ch))"
    and others: "\<forall>j < length xs. j \<notin> set lin \<longrightarrow> j \<noteq> i \<longrightarrow>
        ts ! j = Ready (xs ! j) \<or> (\<exists>c. ts ! j = Located (xs ! j) c \<and> located_ok ch' (xs ! j) c)"
  shows "conc_inv store m xs fs' (ts[i := Finished (fst (map_op (kv_map ch) (xs ! i)))]) (lin @ [i])"
proof -
  let ?r = "fst (map_op (kv_map ch) (xs ! i))"
  have "map_run ERR_NOKEY m (map ((!) xs) (lin @ [i])) = (rs @ [?r], kv_map ch')"
    using inv(4) ch'(2) by (simp add: map_run_snoc)
  moreover have "card (dom (kv_map ch')) \<le> card (dom m) + length (lin @ [i])"
    using map_op_card [OF ch'(3), of "xs ! i"] inv(6) ch'(2) by simp
  moreover have "\<forall>j < length (lin @ [i]). (ts[i := Finished ?r]) ! ((lin @ [i]) ! j) = Finished ((rs @ [?r]) ! j)"
  proof (intro allI impI)
    fix j
    assume j: "j < length (lin @ [i])"
    show "(ts[i := Finished ?r]) ! ((lin @ [i]) ! j) = Finished ((rs @ [?r]) ! j)"
    proof (cases "j < length lin")
      case True
      then have "lin ! j \<noteq> i" using i(2) nth_mem by metis
      then show ?thesis using True inv(5,7) by (simp add: nth_append)
    next
      case False
      then show ?thesis using j inv(1,5) i(1) by (simp add: nth_append)
    qed
  qed
  moreover have "\<forall>j < length xs. j \<notin> set (lin @ [i]) \<longrightarrow> (ts[i := Finished ?r]) ! j = Ready (xs ! j) \<or>
      (\<exists>c. (ts[i := Finished ?r]) ! j = Located (xs ! j) c \<and> located_ok ch' (xs ! j) c)"
    using others by auto
  moreover have "length (rs @ [?r]) = length (lin @ [i])" using inv(5) by simp
  moreover have "length (ts[i := Finished ?r]) = length xs" "distinct (lin @ [i])" "set (lin @ [i]) \<subseteq> {..<length xs}"
    using inv(1-3) i by auto
  ultimately show ?thesis unfolding conc_inv_def using ch'(1) by blast
qed

lemma lin_length: "distinct lin \<Longrightarrow> set lin \<subseteq> {..<n} \<Longrightarrow> i < n \<Longrightarrow> i \<notin> set lin \<Longrightarrow> length lin < n"
proof -
  assume *: "distinct lin" "set lin \<subseteq> {..<n}" "i < n" "i \<notin> set lin"
  then have "set lin \<subset> {..<n}" by auto
  then have "card (set lin) < card {..<n}" by (intro psubset_card_mono) auto
  then show ?thesis using *(1) by (simp add: distinct_card)
qed

text \<open>A thread that has found its key stays outside the linearization.\<close>

lemma conc_inv_locate:
  assumes len: "length ts = length xs" and d: "distinct lin" and sub: "set lin \<subseteq> {..<length xs}"
    and ch: "kv_chains fs (kv_dirname store) ch" and mr: "map_run ERR_NOKEY m (map ((!) xs) lin) = (rs, kv_map ch)"
    and lr: "length rs = length lin" and card: "card (dom (kv_map ch)) \<le> card (dom m) + length lin"
    and fin: "\<forall>j < length lin. ts ! (lin ! j) = Finished (rs ! j)"
    and oth: "\<forall>i < length xs. i \<notin> set lin \<longrightarrow> ts ! i = Ready (xs ! i) \<or> (\<exists>c. ts ! i = Located (xs ! i) c \<and> located_ok ch (xs ! i) c)"
    and i: "i \<notin> set lin" and c: "located_ok ch (xs ! i) c"
  shows "conc_inv store m xs fs (ts[i := Located (xs ! i) c]) lin"
proof -
  let ?ts = "ts[i := Located (xs ! i) c]"
  have f: "\<forall>j < length lin. ?ts ! (lin ! j) = Finished (rs ! j)"
    using fin i nth_mem by (metis nth_list_update_neq)
  have "?ts ! j = Ready (xs ! j) \<or> (\<exists>c'. ?ts ! j = Located (xs ! j) c' \<and> located_ok ch (xs ! j) c')"
    if "j < length xs" "j \<notin> set lin" for j
    using that oth c len by (cases "j = i") auto
  then show ?thesis
    unfolding conc_inv_def using len d sub ch mr lr card f by (simp only: length_list_update) blast
qed

lemma conc_inv_step:
  assumes inv: "conc_inv store m xs fs ts lin" and ops: "list_all op_legal xs" "disjoint_writers xs"
    and room: "card (dom m) + length xs < nat INT_MAX" and i: "i < length xs" and unf: "\<nexists>r. ts ! i = Finished r"
  shows "\<exists>t fs' lin'. thread_step store fs (ts ! i) = Some (t, fs') \<and> conc_inv store m xs fs' (ts[i := t]) lin'"
proof -
  obtain ch rs where len: "length ts = length xs" and d: "distinct lin" and sub: "set lin \<subseteq> {..<length xs}"
    and ch: "kv_chains fs (kv_dirname store) ch" and mr: "map_run ERR_NOKEY m (map ((!) xs) lin) = (rs, kv_map ch)"
    and lr: "length rs = length lin" and card: "card (dom (kv_map ch)) \<le> card (dom m) + length lin"
    and fin: "\<forall>j < length lin. ts ! (lin ! j) = Finished (rs ! j)"
    and oth: "\<forall>i < length xs. i \<notin> set lin \<longrightarrow> ts ! i = Ready (xs ! i) \<or> (\<exists>c. ts ! i = Located (xs ! i) c \<and> located_ok ch (xs ! i) c)"
    using inv unfolding conc_inv_def by blast
  have i': "i \<notin> set lin" using unf fin by (metis in_set_conv_nth)
  have legal: "op_legal (xs ! i)" using ops(1) i by (simp add: list_all_length)
  have findom: "finite (dom (kv_map ch))" using kv_rep_finite [of fs store] ch by (auto simp: kv_rep_def)
  have cap: "card (dom (kv_map ch)) < nat INT_MAX" using card room lin_length [OF d sub i i'] by linarith
  note finish = conc_inv_finish [OF len d sub mr lr card fin i i' _ _ findom]
  from oth i i' consider (ready) "ts ! i = Ready (xs ! i)" | (located) c where "ts ! i = Located (xs ! i) c" "located_ok ch (xs ! i) c"
    by blast
  then show ?thesis
  proof cases
    case ready
    from thread_step_ready [OF ch legal] consider
      (loc) c where "thread_step store fs (Ready (xs ! i)) = Some (Located (xs ! i) c, fs)" "located_ok ch (xs ! i) c"
      | (effect) "thread_step store fs (Ready (xs ! i)) = Some (Finished (fst (map_op (kv_map ch) (xs ! i))), fs)"
          "snd (map_op (kv_map ch) (xs ! i)) = kv_map ch" by blast
    then show ?thesis
    proof cases
      case loc
      have "conc_inv store m xs fs (ts[i := Located (xs ! i) c]) lin"
        by (rule conc_inv_locate [OF len d sub ch mr lr card fin oth i' loc(2)])
      then show ?thesis using loc(1) ready by auto
    next
      case effect
      have "conc_inv store m xs fs (ts[i := Finished (fst (map_op (kv_map ch) (xs ! i)))]) (lin @ [i])"
        by (rule finish [OF ch]) (use effect(2) oth in auto)
      then show ?thesis using effect(1) ready by auto
    qed
  next
    case located
    from thread_step_located [OF ch legal located(2) cap] obtain fs' ys where
      s: "thread_step store fs (Located (xs ! i) c) = Some (Finished (fst (map_op (kv_map ch) (xs ! i))), fs')"
        "kv_chains fs' (kv_dirname store) (ch(strhash64 (op_key (xs ! i)) := ys))"
        "kv_map (ch(strhash64 (op_key (xs ! i)) := ys)) = snd (map_op (kv_map ch) (xs ! i))" by blast
    have w: "is_write (xs ! i)" using located(2) by (simp add: located_ok_def)
    have "ts ! j = Ready (xs ! j) \<or> (\<exists>c. ts ! j = Located (xs ! j) c \<and> located_ok (ch(strhash64 (op_key (xs ! i)) := ys)) (xs ! j) c)"
      if j: "j < length xs" "j \<notin> set lin" "j \<noteq> i" for j
    proof -
      have "located_ok ch (xs ! j) c' \<Longrightarrow> located_ok (ch(strhash64 (op_key (xs ! i)) := ys)) (xs ! j) c'" for c'
        using ops(2) w i j by (intro located_ok_frame) (auto simp: disjoint_writers_def located_ok_def)
      then show ?thesis using oth j by blast
    qed
    then have "conc_inv store m xs fs' (ts[i := Finished (fst (map_op (kv_map ch) (xs ! i)))]) (lin @ [i])"
      by (intro finish [OF s(2,3)]) auto
    then show ?thesis using s(1) located(1) by auto
  qed
qed

lemma run_threads_inv:
  assumes "conc_inv store m xs fs ts lin" and "list_all op_legal xs" "disjoint_writers xs"
    and "card (dom m) + length xs < nat INT_MAX" and "run_threads store fs ts sched = Some (fs', ts')"
  shows "\<exists>lin'. conc_inv store m xs fs' ts' lin'"
  using assms(1,5)
proof (induction sched arbitrary: fs ts lin)
  case (Cons i sched)
  have i: "i < length xs" and s: "thread_step store fs (ts ! i) \<noteq> None"
    using Cons.prems by (auto simp: conc_inv_def split: if_splits bind_splits)
  have "\<nexists>r. ts ! i = Finished r" using s by auto
  from conc_inv_step [OF Cons.prems(1) assms(2-4) i this] obtain t fs1 lin1 where
    t: "thread_step store fs (ts ! i) = Some (t, fs1)" "conc_inv store m xs fs1 (ts[i := t]) lin1" by blast
  then show ?case using Cons.IH [OF t(2)] Cons.prems(2) i by (auto split: if_splits)
qed auto

subsection \<open>A race\<close>

lemma put_locked_append:
  assumes "kv_layout fs (kv_dirname store) ch" and "kv_ok (k, v)" and "int (length (ch (strhash64 k))) < INT_MAX" and "c < 0"
  shows "\<exists>fs'. put_locked fs store k v c = Some (0, fs') \<and>
    kv_layout fs' (kv_dirname store) (ch(strhash64 k := ch (strhash64 k) @ [(k, v)]))"
proof -
  have "put_loop fs (kv_dirname store) (strhash64 k) 0 = Some (int (length (ch (strhash64 k))))"
    using put_loop_chain [OF assms(1,3), of 0] by simp
  then show ?thesis using kvstore_put_layout [OF assms(1,2) order_refl, of "ch (strhash64 k) @ [(k, v)]"] assms(3,4)
    by (simp add: put_locked_def Let_def)
qed

lemma kv_pos_snoc: "map_of xs k = None \<Longrightarrow> kv_pos (xs @ (k, v) # ys) k = length xs"
  by (induction xs) (auto simp: kv_pos_def split: if_splits)

lemma find_res_snoc:
  "map_of xs k = None \<Longrightarrow> find_res (xs @ (k, v) # ys) k w 0 = (int (length xs), if w then Some v else None)"
  by (simp add: find_res_def kv_pos_snoc map_add_def)

lemma find_entry_absent:
  assumes "kv_rep fs store m" and "key_ok k" and "m k = None"
  shows "find_entry fs store k w = Some (ERR_NOKEY, None)"
proof -
  obtain ch where ch: "kv_chains fs (kv_dirname store) ch" "m = kv_map ch" using assms(1) by (auto simp: kv_rep_def)
  show ?thesis using find_entry_chain [OF kv_chains_layout [OF ch(1)], of k w] assms(2,3) ch(2) by (simp add: find_res_def kv_map_def)
qed

subsection \<open>Properties\<close>

text \<open>C8: threads whose insertions and deletions are on different hash chains are safe and linearizable: after any schedule
  of critical sections every unfinished thread can go on, and when all have finished, their results and the store are those of
  the whole operations in some order.\<close>

theorem kvstore_disjoint_writers_linearizable:
  assumes "kv_rep fs store m" and "list_all op_legal xs" and "disjoint_writers xs"
    and "card (dom m) + length xs < nat INT_MAX" and "run_threads store fs (map Ready xs) sched = Some (fs', ts)"
  shows "(\<forall>i < length xs. (\<nexists>r. ts ! i = Finished r) \<longrightarrow> thread_step store fs' (ts ! i) \<noteq> None) \<and>
    ((\<forall>i < length xs. \<exists>r. ts ! i = Finished r) \<longrightarrow>
      (\<exists>lin rs m'. distinct lin \<and> set lin = {..<length xs} \<and> map_run ERR_NOKEY m (map ((!) xs) lin) = (rs, m') \<and>
         kv_rep fs' store m' \<and> (\<forall>j < length lin. ts ! (lin ! j) = Finished (rs ! j))))"
proof -
  obtain lin where inv: "conc_inv store m xs fs' ts lin"
    using run_threads_inv [OF conc_inv_start [OF assms(1)] assms(2-5)] by blast
  then obtain ch rs where i: "distinct lin" "set lin \<subseteq> {..<length xs}" "kv_chains fs' (kv_dirname store) ch"
      "map_run ERR_NOKEY m (map ((!) xs) lin) = (rs, kv_map ch)" "\<forall>j < length lin. ts ! (lin ! j) = Finished (rs ! j)"
      "\<forall>i < length xs. i \<notin> set lin \<longrightarrow> ts ! i = Ready (xs ! i) \<or> (\<exists>c. ts ! i = Located (xs ! i) c \<and> located_ok ch (xs ! i) c)"
    unfolding conc_inv_def by blast
  have "set lin = {..<length xs}" if "\<forall>i < length xs. \<exists>r. ts ! i = Finished r"
    using that i(2,6) by (metis kv_thread.distinct(3,5) lessThan_iff subsetI subset_antisym)
  moreover have "kv_rep fs' store (kv_map ch)" using i(3) by (auto simp: kv_rep_def)
  ultimately show ?thesis using conc_inv_step [OF inv assms(2-4)] i(1,4,5) by (metis option.distinct(1))
qed

theorem kvstore_disjoint_writers_linearizable_witness:
  "\<exists>fs ts lin rs m'. run_threads sample_store sample_fs (map Ready [Put ''k'' ''1'', Get ''k'']) [0, 1, 0] = Some (fs, ts) \<and>
     distinct lin \<and> set lin = {..<2} \<and> map_run ERR_NOKEY Map.empty (map ((!) [Put ''k'' ''1'', Get ''k'']) lin) = (rs, m') \<and>
     kv_rep fs sample_store m'"
proof -
  let ?xs = "[Put ''k'' ''1'', Get ''k'']"
  have k: "key_ok ''k''" "val_ok ''1''" by (simp_all add: size_defs)
  have f: "find_entry sample_fs sample_store ''k'' w = Some (ERR_NOKEY, None)" for w using find_entry_absent [OF sample_rep k(1)] by simp
  obtain ch where ch: "kv_chains sample_fs (kv_dirname sample_store) ch" "kv_map ch = Map.empty" using sample_rep by (auto simp: kv_rep_def)
  obtain fs where "put_locked sample_fs sample_store ''k'' ''1'' ERR_NOKEY = Some (0, fs)"
    using put_locked_append [OF kv_chains_layout [OF ch(1)], of "''k''" "''1''" ERR_NOKEY] kv_chain_card [OF ch(1), of "strhash64 ''k''"] k
    by (auto simp: kv_ok_def ch(2) INT_MAX_def err_defs)
  then have r: "run_threads sample_store sample_fs (map Ready ?xs) [0, 1, 0] = Some (fs, [Finished (0, None), Finished (ERR_NOKEY, None)])"
    using f kvstore_put_check_ok [OF kv_chains_layout [OF ch(1)] k] by (simp add: kvstore_get_def err_defs)
  have "list_all op_legal ?xs" "disjoint_writers ?xs" "card (dom (Map.empty :: string \<rightharpoonup> string)) + length ?xs < nat INT_MAX"
    using k by (auto simp: disjoint_writers_def less_Suc_eq INT_MAX_def)
  from kvstore_disjoint_writers_linearizable [OF sample_rep this r] have "\<exists>lin rs m'. distinct lin \<and> set lin = {..<2} \<and>
      map_run ERR_NOKEY Map.empty (map ((!) ?xs) lin) = (rs, m') \<and> kv_rep fs sample_store m'"
    by (auto simp: less_Suc_eq numeral_2_eq_2)
  with r show ?thesis by blast
qed

text \<open>C37: two insertions of one new key that overlap leave two entries for it: both succeed, the value of the one that finished
  first is found, and after a successful deletion the key is still there, with the other value.\<close>

theorem kvstore_put_race:
  assumes "kv_rep fs store m" and "key_ok k" and "val_ok v" and "val_ok w" and "m k = None" and "card (dom m) + 2 < nat INT_MAX"
  shows "\<exists>fs1 fs2. run_threads store fs [Ready (Put k v), Ready (Put k w)] [0, 1, 0, 1] = Some (fs1, [Finished (0, None), Finished (0, None)]) \<and>
    kvstore_get fs1 store k = Some (0, Some v) \<and> kvstore_del fs1 store k = Some (0, fs2) \<and> kvstore_get fs2 store k = Some (0, Some w)"
proof -
  let ?h = "strhash64 k" and ?d = "kv_dirname store"
  obtain ch where ch: "kv_chains fs ?d ch" and m: "m = kv_map ch" using assms(1) by (auto simp: kv_rep_def)
  let ?xs = "ch ?h"
  have n: "map_of ?xs k = None" using assms(5) by (simp add: m kv_map_def)
  have l: "int (length ?xs) + 2 < INT_MAX" using kv_chain_card [OF ch, of ?h] assms(6) by (auto simp: m INT_MAX_def)
  have ok: "kv_ok (k, v)" "kv_ok (k, w)" using assms(2-4) by (simp_all add: kv_ok_def)
  have f: "find_entry fs store k False = Some (ERR_NOKEY, None)" using find_entry_absent [OF assms(1,2,5)] .
  have c: "kvstore_put_check fs store k v = 0" "kvstore_put_check fs store k w = 0"
    using kvstore_put_check_ok [OF kv_chains_layout [OF ch] assms(2)] assms(3,4) by simp_all
  obtain fs0 where p0: "put_locked fs store k v ERR_NOKEY = Some (0, fs0)" "kv_layout fs0 ?d (ch(?h := ?xs @ [(k, v)]))"
    using put_locked_append [OF kv_chains_layout [OF ch] ok(1), of ERR_NOKEY] l by (auto simp: err_defs)
  obtain fs1 where p1: "put_locked fs0 store k w ERR_NOKEY = Some (0, fs1)" "kv_layout fs1 ?d (ch(?h := ?xs @ [(k, v), (k, w)]))"
    using put_locked_append [OF p0(2) ok(2), of ERR_NOKEY] l by (auto simp: err_defs)
  have r: "run_threads store fs [Ready (Put k v), Ready (Put k w)] [0, 1, 0, 1] = Some (fs1, [Finished (0, None), Finished (0, None)])"
    using f c p0(1) p1(1) by simp
  have g: "find_entry fs1 store k x = Some (int (length ?xs), if x then Some v else None)" for x
    using find_entry_chain [OF p1(2), of k x] assms(2) find_res_snoc [OF n, of v "[(k, w)]" x] by simp
  obtain fs2 where d: "del_locked fs1 store k (int (length ?xs)) = Some (0, fs2)"
      "kv_layout fs2 ?d (ch(?h := kv_remove (?xs @ [(k, v), (k, w)]) (length ?xs)))"
    using del_locked_layout [OF p1(2), of "length ?xs" k] by auto
  have "kv_remove (?xs @ [(k, v), (k, w)]) (length ?xs) = ?xs @ [(k, w)]" by (simp add: kv_remove_def butlast_append)
  then have "find_entry fs2 store k True = Some (int (length ?xs), Some w)"
    using find_entry_chain [OF d(2), of k True] assms(2) find_res_snoc [OF n, of w "[]" True] by simp
  then show ?thesis using r g d(1) by (simp add: kvstore_get_def kvstore_del_def)
qed

theorem kvstore_put_race_witness:
  "\<exists>fs1 fs2. run_threads sample_store sample_fs [Ready (Put ''k'' ''1''), Ready (Put ''k'' ''2'')] [0, 1, 0, 1] =
      Some (fs1, [Finished (0, None), Finished (0, None)]) \<and>
    kvstore_del fs1 sample_store ''k'' = Some (0, fs2) \<and> kvstore_get fs2 sample_store ''k'' = Some (0, Some ''2'')"
  using kvstore_put_race [OF sample_rep, of "''k''" "''1''" "''2''"] by (auto simp: size_defs INT_MAX_def)

end
