(* ===== verification/Malloc.thy ===== *)
theory Malloc
  imports Prelude
begin

text \<open>
  The allocator of \<^verbatim>\<open>malloc/mm_alloc.c\<close>: \<open>mm_malloc\<close>, \<open>mm_free\<close> and \<open>mm_realloc\<close> over a circular free list
  that is threaded through the headers of the free blocks.

  Memory is counted in units of \<^verbatim>\<open>sizeof(Header)\<close>, 16 bytes: every \<^verbatim>\<open>Header *\<close> of the program comes from \<^verbatim>\<open>sbrk\<close>
  by pointer arithmetic on headers.  A unit holds two 64-bit words, which the allocator reads as a link and
  a size where a block starts and which belong to the client inside an allocated block.  A load or store
  outside of the heap is undefined behaviour (\<^const>\<open>None\<close>).  Sizes are words of 64 bits and wrap.

  The representation \<open>mm_rep\<close> says that prologue, free blocks and allocated blocks tile the heap.
\<close>

subsection \<open>Memory\<close>

record Header =
  hnext :: nat
  hsize :: "64 word"

record mm =
  mem :: "nat \<Rightarrow> Header"
  mstart :: nat
  mbrk :: nat
  mlimit :: nat
  freeptr :: "nat option"

definition NALLOC :: "64 word" where
  "NALLOC = 1024"

definition sizeof_Header :: "64 word" where
  "sizeof_Header = 16"

definition mapped :: "mm \<Rightarrow> nat \<Rightarrow> bool" where
  "mapped st p \<longleftrightarrow> mstart st \<le> p \<and> p < mbrk st"

definition mget :: "mm \<Rightarrow> nat \<Rightarrow> Header option" where
  "mget st p = (if mapped st p then Some (mem st p) else None)"

definition mset :: "mm \<Rightarrow> nat \<Rightarrow> (Header \<Rightarrow> Header) \<Rightarrow> mm option" where
  "mset st p f = (if mapped st p then Some (st\<lparr>mem := (mem st)(p := f (mem st p))\<rparr>) else None)"

lemma mapped_fields [simp]: "mapped (st\<lparr>mem := m\<rparr>) p = mapped st p" "mapped (st\<lparr>freeptr := q\<rparr>) p = mapped st p"
  by (simp_all add: mapped_def)

text \<open>\<^verbatim>\<open>sbrk\<close> moves the end of the heap by a signed number of bytes and returns where it was; the allocator's
  increments are multiples of a unit.\<close>

definition sbrk :: "mm \<Rightarrow> int \<Rightarrow> nat option \<times> mm" where
  "sbrk st inc = (let b = int (mbrk st) + inc div 16 in
     if int (mstart st) \<le> b \<and> b \<le> int (mlimit st) then (Some (mbrk st), st\<lparr>mbrk := nat b\<rparr>) else (None, st))"

subsection \<open>Freeing\<close>

text \<open>The loop that looks for the place of the block in the free list.\<close>

partial_function (option) free_loop :: "mm \<Rightarrow> nat \<Rightarrow> nat \<Rightarrow> nat option" where
  "free_loop st bp p = do {
     h \<leftarrow> mget st p;
     if bp > p \<and> bp < hnext h then Some p
     else if p \<ge> hnext h \<and> (bp > p \<or> bp < hnext h) then Some p
     else free_loop st bp (hnext h)
   }"

declare free_loop.simps [code]

definition mm_free :: "mm \<Rightarrow> nat option \<Rightarrow> mm option" where
  "mm_free st ptr = (case ptr of
     None \<Rightarrow> Some st
   | Some ptr \<Rightarrow> (let bp = ptr - 1 in do {
       start \<leftarrow> freeptr st;
       p \<leftarrow> free_loop st bp start;
       hb \<leftarrow> mget st bp;
       hp \<leftarrow> mget st p;
       st \<leftarrow> (if bp + unat (hsize hb) = hnext hp
              then do { hn \<leftarrow> mget st (hnext hp); mset st bp (\<lambda>h. \<lparr>hnext = hnext hn, hsize = hsize h + hsize hn\<rparr>) }
              else mset st bp (\<lambda>h. h\<lparr>hnext := hnext hp\<rparr>));
       hb \<leftarrow> mget st bp;
       hp \<leftarrow> mget st p;
       st \<leftarrow> (if hsize hp \<noteq> 0 \<and> p + unat (hsize hp) = bp
              then mset st p (\<lambda>h. \<lparr>hnext = hnext hb, hsize = hsize h + hsize hb\<rparr>)
              else mset st p (\<lambda>h. h\<lparr>hnext := bp\<rparr>));
       Some (st\<lparr>freeptr := Some p\<rparr>)
     }))"

subsection \<open>Growing the heap\<close>

definition extend_heap :: "mm \<Rightarrow> 64 word \<Rightarrow> (bool \<times> mm) option" where
  "extend_heap st units = (let units = (if units < NALLOC then NALLOC else units) in
     case sbrk st (sint (units * sizeof_Header)) of
       (None, st) \<Rightarrow> Some (False, st)
     | (Some bp, st) \<Rightarrow> do {
         st \<leftarrow> mset st bp (\<lambda>h. h\<lparr>hsize := units\<rparr>);
         st \<leftarrow> mm_free st (Some (bp + 1));
         Some (True, st)
       })"

definition mm_init :: "mm \<Rightarrow> (bool \<times> mm) option" where
  "mm_init st = (case sbrk st (sint sizeof_Header) of
     (None, st) \<Rightarrow> Some (False, st\<lparr>freeptr := None\<rparr>)
   | (Some p, st) \<Rightarrow> do {
       st \<leftarrow> mset (st\<lparr>freeptr := Some p\<rparr>) p (\<lambda>h. \<lparr>hnext = p, hsize = 0\<rparr>);
       (ok, st) \<leftarrow> extend_heap st NALLOC;
       if ok then Some (True, st) else Some (False, st\<lparr>freeptr := None\<rparr>)
     })"

subsection \<open>Allocating\<close>

definition units_for :: "64 word \<Rightarrow> 64 word" where
  "units_for bytes = (bytes + sizeof_Header - 1) div sizeof_Header + 1"

text \<open>The search: the first block that is large enough, its tail if it is larger; the heap grows when the search
  is back at its start.\<close>

partial_function (option) malloc_loop :: "mm \<Rightarrow> 64 word \<Rightarrow> nat \<Rightarrow> nat \<Rightarrow> (nat option \<times> mm) option" where
  "malloc_loop st units prevptr ptr = do {
     h \<leftarrow> mget st ptr;
     if hsize h \<ge> units then
       (if hsize h = units then do {
          st \<leftarrow> mset st prevptr (\<lambda>p. p\<lparr>hnext := hnext h\<rparr>);
          Some (Some (ptr + 1), st\<lparr>freeptr := Some prevptr\<rparr>)
        } else do {
          st \<leftarrow> mset st ptr (\<lambda>h. h\<lparr>hsize := hsize h - units\<rparr>);
          let ptr = ptr + unat (hsize h - units);
          st \<leftarrow> mset st ptr (\<lambda>h. h\<lparr>hsize := units\<rparr>);
          Some (Some (ptr + 1), st\<lparr>freeptr := Some prevptr\<rparr>)
        })
     else if Some ptr = freeptr st then do {
       (ok, st) \<leftarrow> extend_heap st units;
       if \<not> ok then Some (None, st)
       else do {
         ptr \<leftarrow> freeptr st;
         h \<leftarrow> mget st ptr;
         malloc_loop st units ptr (hnext h)
       }
     } else malloc_loop st units ptr (hnext h)
   }"

declare malloc_loop.simps [code]

definition mm_malloc :: "mm \<Rightarrow> 64 word \<Rightarrow> (nat option \<times> mm) option" where
  "mm_malloc st bytes = (if bytes = 0 then Some (None, st) else do {
     (ok, st) \<leftarrow> (if freeptr st = None then mm_init st else Some (True, st));
     if \<not> ok then Some (None, st)
     else do {
       prevptr \<leftarrow> freeptr st;
       h \<leftarrow> mget st prevptr;
       malloc_loop st (units_for bytes) prevptr (hnext h)
     }
   })"

subsection \<open>Reallocating\<close>

text \<open>The low \<open>n\<close> of the 16 bytes of a unit (little endian).\<close>

definition merge_bytes :: "nat \<Rightarrow> Header \<Rightarrow> Header \<Rightarrow> Header" where
  "merge_bytes n src old =
     \<lparr>hnext = hnext src mod 256 ^ min n 8 + (hnext old div 256 ^ min n 8) * 256 ^ min n 8,
      hsize = of_nat (unat (hsize src) mod 256 ^ (n - 8) + (unat (hsize old) div 256 ^ (n - 8)) * 256 ^ (n - 8))\<rparr>"

fun copy_units :: "mm \<Rightarrow> nat \<Rightarrow> nat \<Rightarrow> nat \<Rightarrow> mm option" where
  "copy_units st d s n =
     (if n = 0 then Some st
      else if n < 16 then do { h \<leftarrow> mget st s; mset st d (merge_bytes n h) }
      else do { h \<leftarrow> mget st s; st \<leftarrow> mset st d (\<lambda>_. h); copy_units st (Suc d) (Suc s) (n - 16) })"

text \<open>\<^verbatim>\<open>memcpy\<close> between regions that overlap is undefined.\<close>

definition mm_memcpy :: "mm \<Rightarrow> nat \<Rightarrow> nat \<Rightarrow> nat \<Rightarrow> mm option" where
  "mm_memcpy st d s n = (if 16 * d + n \<le> 16 * s \<or> 16 * s + n \<le> 16 * d then copy_units st d s n else None)"

definition mm_realloc :: "mm \<Rightarrow> nat option \<Rightarrow> 64 word \<Rightarrow> (nat option \<times> mm) option" where
  "mm_realloc st ptr bytes = (case ptr of
     None \<Rightarrow> mm_malloc st bytes
   | Some ptr \<Rightarrow>
       if bytes = 0 then do { st \<leftarrow> mm_free st (Some ptr); Some (None, st) }
       else (let units = units_for bytes; bp = ptr - 1 in do {
         h \<leftarrow> mget st bp;
         if hsize h \<ge> units then do {
           st \<leftarrow> (if hsize h > units
                  then do { st \<leftarrow> mset st bp (\<lambda>h. h\<lparr>hsize := units\<rparr>); mm_free st (Some (bp + unat units + 1)) }
                  else Some st);
           Some (Some (bp + 1), st)
         } else do {
           (np, st) \<leftarrow> mm_malloc st bytes;
           (case np of
              None \<Rightarrow> Some (None, st)
            | Some np \<Rightarrow> do {
                st \<leftarrow> mm_memcpy st np ptr (unat bytes);
                st \<leftarrow> mm_free st (Some ptr);
                Some (Some np, st)
              })
         }
       }))"

subsection \<open>Lists of free blocks\<close>

text \<open>A block is its address and its size in units.  The free list is the prologue, of size 0, and the free blocks
  by increasing address; between two of them there is at least one unit that is not free.\<close>

type_synonym block = "nat \<times> nat"

definition bunits :: "block set \<Rightarrow> nat set" where
  "bunits B = (\<Union>(p, s) \<in> B. {p..<p + s})"

definition apart :: "block \<Rightarrow> block \<Rightarrow> bool" where
  "apart x y \<longleftrightarrow> fst x + snd x < fst y"

definition blocks_ok :: "block list \<Rightarrow> bool" where
  "blocks_ok bs \<longleftrightarrow> bs \<noteq> [] \<and> snd (hd bs) = 0 \<and> (\<forall>b \<in> set (tl bs). 0 < snd b) \<and> sorted_wrt apart bs"

lemma bunits_simps [simp]:
  "bunits {} = {}" "bunits (insert (p, s) B) = {p..<p + s} \<union> bunits B" "bunits (A \<union> B) = bunits A \<union> bunits B"
  by (auto simp: bunits_def)

lemma bunitsI: "(p, s) \<in> B \<Longrightarrow> p \<le> u \<Longrightarrow> u < p + s \<Longrightarrow> u \<in> bunits B"
  by (force simp: bunits_def)

lemma bunitsE: "u \<in> bunits B \<Longrightarrow> (\<And>p s. (p, s) \<in> B \<Longrightarrow> p \<le> u \<Longrightarrow> u < p + s \<Longrightarrow> thesis) \<Longrightarrow> thesis"
  by (auto simp: bunits_def)

text \<open>The list after a block has been freed: joined to the upper neighbour, then to the lower one.\<close>

fun join_up :: "block \<Rightarrow> block list \<Rightarrow> block list" where
  "join_up (a, s) [] = [(a, s)]"
| "join_up (a, s) ((y, t) # ys) = (if a + s = y then (a, s + t) # ys else (a, s) # (y, t) # ys)"

fun join_low :: "block \<Rightarrow> block list \<Rightarrow> block list" where
  "join_low (p, r) [] = [(p, r)]"
| "join_low (p, r) ((a, s) # zs) = (if r \<noteq> 0 \<and> p + r = a then (p, r + s) # zs else (p, r) # (a, s) # zs)"

definition free_block :: "block list \<Rightarrow> block \<Rightarrow> block list \<Rightarrow> block \<Rightarrow> block list" where
  "free_block xs x ys b = xs @ join_low x (join_up b ys)"

text \<open>The list after the tail of a block has been allocated.\<close>

definition take_block :: "block list \<Rightarrow> block \<Rightarrow> block list \<Rightarrow> nat \<Rightarrow> block list" where
  "take_block xs x ys u = xs @ (if snd x = u then [] else [(fst x, snd x - u)]) @ ys"

lemma bunits_join_up: "bunits (set (join_up (a, s) ys)) = {a..<a + s} \<union> bunits (set ys)"
  by (cases "((a, s), ys)" rule: join_up.cases) auto

lemma bunits_join_low: "bunits (set (join_low (p, r) zs)) = {p..<p + r} \<union> bunits (set zs)"
  by (cases "((p, r), zs)" rule: join_low.cases) auto

lemma bunits_free_block: "bunits (set (free_block xs x ys (a, s))) = bunits (set (xs @ x # ys)) \<union> {a..<a + s}"
  by (cases x) (auto simp: free_block_def bunits_join_low bunits_join_up)

lemma sorted_disjoint:
  assumes "sorted_wrt apart (xs @ (p, s) # ys)"
  shows "{p..<p + s} \<inter> bunits (set (xs @ ys)) = {}"
  using assms by (fastforce simp: sorted_wrt_append apart_def bunits_def)

lemma bunits_take_block:
  assumes "sorted_wrt apart (xs @ x # ys)" and "u \<le> snd x"
  shows "bunits (set (take_block xs x ys u)) = bunits (set (xs @ x # ys)) - {fst x + snd x - u..<fst x + snd x}"
proof -
  obtain p s where x: "x = (p, s)" by (cases x)
  have "{p..<p + s} \<inter> bunits (set (xs @ ys)) = {}" using sorted_disjoint [of xs p s ys] assms(1) unfolding x .
  moreover have "{p + s - u..<p + s} \<subseteq> {p..<p + s}" using assms(2) by (auto simp: x)
  ultimately have "{p + s - u..<p + s} \<inter> (bunits (set xs) \<union> bunits (set ys)) = {}"
    unfolding set_append bunits_simps by blast
  moreover have "{p..<p + s} - {p + s - u..<p + s} = {p..<p + (s - u)}" using assms(2) by (auto simp: x)
  ultimately show ?thesis using assms(2) by (auto simp: x take_block_def)
qed

lemma take_block_ok:
  assumes ok: "blocks_ok (xs @ x # ys)" and u: "0 < u" "u \<le> snd x"
  shows "blocks_ok (take_block xs x ys u) \<and> hd (take_block xs x ys u) = hd (xs @ x # ys)"
proof -
  have xs: "xs \<noteq> []" using ok u by (cases xs) (auto simp: blocks_ok_def)
  then show ?thesis using ok u(2) by (auto simp: blocks_ok_def take_block_def sorted_wrt_append apart_def)
qed

text \<open>A block that lies in the gap after \<open>x\<close>.\<close>

definition in_gap :: "block list \<Rightarrow> block \<Rightarrow> block list \<Rightarrow> block \<Rightarrow> bool" where
  "in_gap xs x ys b \<longleftrightarrow> 0 < snd b \<and> fst x < fst b \<and> fst x + snd x \<le> fst b \<and> (\<forall>y \<in> set ys. fst b + snd b \<le> fst y)"

lemma join_up_ok:
  assumes "sorted_wrt apart ys" and "\<forall>y \<in> set ys. a + s \<le> fst y" and "\<forall>y \<in> set ys. 0 < snd y"
  shows "\<exists>t zs. join_up (a, s) ys = (a, t) # zs \<and> s \<le> t \<and> sorted_wrt apart ((a, t) # zs) \<and> set zs \<subseteq> set ys"
proof (cases ys)
  case (Cons y zs)
  then show ?thesis using assms by (cases y) (fastforce simp: apart_def)
qed simp

lemma join_low_ok:
  assumes "sorted_wrt apart ((a, t) # zs)" and "p < a" and "p + r \<le> a" and "0 < t" and "\<forall>z \<in> set zs. 0 < snd z"
  shows "\<exists>r' ws. join_low (p, r) ((a, t) # zs) = (p, r') # ws \<and> (r' = 0 \<longleftrightarrow> r = 0) \<and> sorted_wrt apart ((p, r') # ws) \<and>
    (\<forall>w \<in> set ws. p \<le> fst w \<and> 0 < snd w)"
  using assms by (auto simp: apart_def)

lemma apart_mono: "apart w x \<Longrightarrow> fst x \<le> fst z \<Longrightarrow> apart w z"
  by (simp add: apart_def)

lemma free_block_ok:
  assumes ok: "blocks_ok (xs @ x # ys)" and gap: "in_gap xs x ys b"
  shows "blocks_ok (free_block xs x ys b) \<and> fst (hd (free_block xs x ys b)) = fst (hd (xs @ x # ys))"
proof -
  obtain p r a s where b: "x = (p, r)" "b = (a, s)" by (cases x; cases b)
  have xs: "sorted_wrt apart xs" "\<forall>w \<in> set xs. apart w (p, r)"
    and ys: "sorted_wrt apart ys" "\<forall>y \<in> set ys. 0 < snd y"
    using ok by (auto simp: blocks_ok_def sorted_wrt_append b tl_append split: list.splits)
  obtain t zs where j: "join_up (a, s) ys = (a, t) # zs" "s \<le> t" "sorted_wrt apart ((a, t) # zs)" "set zs \<subseteq> set ys"
    using join_up_ok [of ys a s] ys gap by (auto simp: in_gap_def b)
  obtain r' ws where l: "join_low (p, r) ((a, t) # zs) = (p, r') # ws" "r' = 0 \<longleftrightarrow> r = 0"
      "sorted_wrt apart ((p, r') # ws)" "\<forall>w \<in> set ws. p \<le> fst w \<and> 0 < snd w"
    using join_low_ok [OF j(3), of p r] gap j(2,4) ys(2) by (auto simp: in_gap_def b)
  have "sorted_wrt apart (xs @ (p, r') # ws)"
    unfolding sorted_wrt_append using xs l(3,4) apart_mono [of _ "(p, r)"] by auto
  moreover have "free_block xs x ys b = xs @ (p, r') # ws" unfolding free_block_def b j(1) l(1) ..
  ultimately show ?thesis using ok l(2,4) by (cases xs) (auto simp: blocks_ok_def b)
qed

subsection \<open>The free list in memory\<close>

abbreviation links :: "mm \<Rightarrow> nat list \<Rightarrow> bool" where
  "links st \<equiv> successively (\<lambda>p q. hnext (mem st p) = q)"

definition freelist :: "mm \<Rightarrow> block list \<Rightarrow> bool" where
  "freelist st bs \<longleftrightarrow> links st (map fst bs @ [fst (hd bs)]) \<and> (\<forall>b \<in> set bs. unat (hsize (mem st (fst b))) = snd b)"

lemma links_frame:
  "links st ps \<Longrightarrow> (\<And>p. p \<in> set (butlast ps) \<Longrightarrow> hnext (mem st' p) = hnext (mem st p)) \<Longrightarrow> links st' ps"
  by (induction ps rule: induct_list012) auto

lemma links_glue: "links st (xs @ p # ys) \<longleftrightarrow> links st (xs @ [p]) \<and> links st (p # ys)"
  by (auto simp: successively_append_iff successively_Cons)

text \<open>Prologue, free blocks and allocated blocks tile the heap.\<close>

definition mm_rep :: "mm \<Rightarrow> block list \<Rightarrow> (nat \<rightharpoonup> nat) \<Rightarrow> bool" where
  "mm_rep st bs A \<longleftrightarrow> blocks_ok bs \<and> freelist st bs \<and> (\<exists>b \<in> set bs. freeptr st = Some (fst b)) \<and>
     mstart st \<le> fst (hd bs) \<and> mbrk st \<le> mlimit st \<and> mlimit st < 2 ^ 59 \<and>
     (\<forall>a s. A a = Some s \<longrightarrow> 0 < s \<and> unat (hsize (mem st a)) = s) \<and>
     (\<forall>a b s t. A a = Some s \<longrightarrow> A b = Some t \<longrightarrow> a \<noteq> b \<longrightarrow> a + s \<le> b \<or> b + t \<le> a) \<and>
     bunits (Map.graph A) \<inter> insert (fst (hd bs)) (bunits (set bs)) = {} \<and>
     insert (fst (hd bs)) (bunits (set bs)) \<union> bunits (Map.graph A) = {fst (hd bs)..<mbrk st}"

lemma rep_tiles:
  assumes "mm_rep st bs A"
  shows "bunits (Map.graph A) \<inter> insert (fst (hd bs)) (bunits (set bs)) = {}"
    "insert (fst (hd bs)) (bunits (set bs)) \<union> bunits (Map.graph A) = {fst (hd bs)..<mbrk st}"
  using assms by (simp_all add: mm_rep_def)

lemma rep_free_bounds:
  assumes "mm_rep st bs A" and "b \<in> set bs"
  shows "fst (hd bs) \<le> fst b \<and> fst b < mbrk st \<and> fst b + snd b \<le> mbrk st"
proof (cases "snd b = 0")
  case True
  have "bs \<noteq> []" using assms(2) by auto
  then have "b = hd bs" using assms True by (cases bs) (auto simp: mm_rep_def blocks_ok_def)
  moreover have "fst (hd bs) \<in> {fst (hd bs)..<mbrk st}" using rep_tiles(2) [OF assms(1)] by blast
  ultimately show ?thesis using True by simp
next
  case False
  have "{fst b..<fst b + snd b} \<subseteq> bunits (set bs)" using assms(2) by (force simp: bunits_def)
  also have "\<dots> \<subseteq> {fst (hd bs)..<mbrk st}" using rep_tiles(2) [OF assms(1)] by blast
  finally show ?thesis using False by (simp add: atLeastLessThan_subset_iff)
qed

lemma rep_live_bounds:
  assumes "mm_rep st bs A" and "A a = Some s"
  shows "0 < s \<and> unat (hsize (mem st a)) = s \<and> fst (hd bs) < a \<and> a + s \<le> mbrk st"
proof -
  have s: "0 < s" "unat (hsize (mem st a)) = s" using assms by (auto simp: mm_rep_def)
  have g: "{a..<a + s} \<subseteq> bunits (Map.graph A)" using assms(2) by (force simp: bunits_def in_graphI)
  also have "\<dots> \<subseteq> {fst (hd bs)..<mbrk st}" using rep_tiles(2) [OF assms(1)] by blast
  finally have "fst (hd bs) \<le> a" "a + s \<le> mbrk st" using s(1) by (simp_all add: atLeastLessThan_subset_iff)
  moreover have "a \<in> bunits (Map.graph A)" using g s(1) by auto
  then have "a \<noteq> fst (hd bs)" using rep_tiles(1) [OF assms(1)] by blast
  ultimately show ?thesis using s by simp
qed

lemma rep_mapped_free: "mm_rep st bs A \<Longrightarrow> b \<in> set bs \<Longrightarrow> mapped st (fst b)"
  using rep_free_bounds [of st bs A b] by (auto simp: mapped_def mm_rep_def)

lemma rep_mapped_live: "mm_rep st bs A \<Longrightarrow> A a = Some s \<Longrightarrow> a \<le> u \<Longrightarrow> u < a + s \<Longrightarrow> mapped st u"
  using rep_live_bounds [of st bs A a s] by (auto simp: mapped_def mm_rep_def)

lemma rep_disjoint:
  assumes "mm_rep st bs A" and "A a = Some s" and "b \<in> set bs"
  shows "fst b < a \<and> fst b + snd b \<le> a \<or> a + s \<le> fst b"
proof -
  have "{a..<a + s} \<inter> {fst b..<fst b + snd b} = {}"
  proof -
    have "{a..<a + s} \<subseteq> bunits (Map.graph A)" using in_graphI [of A a s, OF assms(2)] by (force simp: bunits_def)
    moreover have "{fst b..<fst b + snd b} \<subseteq> bunits (set bs)" using assms(3) by (force simp: bunits_def)
    ultimately show ?thesis using rep_tiles(1) [OF assms(1)] by blast
  qed
  moreover have "fst b = fst (hd bs) \<or> 0 < snd b" using assms(1,3) by (cases bs) (auto simp: mm_rep_def blocks_ok_def)
  moreover have "0 < s" "fst (hd bs) < a" using rep_live_bounds [OF assms(1,2)] by auto
  ultimately show ?thesis by (auto simp: not_le atLeastLessThan_subset_iff)
qed

text \<open>The place of an allocated block in the free list.\<close>

lemma rep_gap:
  assumes rep: "mm_rep st bs A" and a: "A a = Some s"
  obtains xs x ys where "bs = xs @ x # ys" "in_gap xs x ys (a, s)" "\<forall>w \<in> set xs. fst w < a"
proof -
  let ?P = "\<lambda>b. fst b < a"
  have "bs \<noteq> []" using rep by (auto simp: mm_rep_def blocks_ok_def)
  then have ne: "takeWhile ?P bs \<noteq> []" using rep_live_bounds [OF rep a] by (cases bs) auto
  let ?xs = "butlast (takeWhile ?P bs)" and ?x = "last (takeWhile ?P bs)" and ?ys = "dropWhile ?P bs"
  have bs: "bs = ?xs @ ?x # ?ys" using ne by (metis append_Cons append_Nil append_assoc append_butlast_last_id takeWhile_dropWhile_id)
  have x: "fst ?x < a" "\<forall>w \<in> set ?xs. fst w < a" using ne by (auto dest: set_takeWhileD in_set_butlastD last_in_set)
  have srt: "sorted_wrt apart bs" using rep by (simp add: mm_rep_def blocks_ok_def)
  have "a \<le> fst y" if "y \<in> set ?ys" for y
  proof (cases ?ys)
    case (Cons z zs)
    then have "\<not> fst z < a" by (metis dropWhile_eq_Cons_conv)
    moreover have "sorted_wrt apart (z # zs)" using srt bs Cons by (metis sorted_wrt_append sorted_wrt.simps(2))
    ultimately show ?thesis using that Cons by (fastforce simp: apart_def)
  next
    case Nil
    with that show ?thesis by (simp del: dropWhile_eq_Nil_conv)
  qed
  note above = this
  have "a + s \<le> fst y" if "y \<in> set ?ys" for y
    using rep_disjoint [OF rep a, of y] above [OF that] bs that by (metis UnCI leD list.set_intros(2) set_append)
  moreover have "?x \<in> set bs" by (subst bs) simp
  ultimately have "in_gap ?xs ?x ?ys (a, s)"
    using rep_disjoint [OF rep a, of ?x] x(1) rep_live_bounds [OF rep a] by (auto simp: in_gap_def)
  with bs x(2) that show thesis by blast
qed

subsection \<open>The search of \<open>mm_free\<close>\<close>

definition stop :: "mm \<Rightarrow> nat \<Rightarrow> nat \<Rightarrow> bool" where
  "stop st bp p \<longleftrightarrow> (let n = hnext (mem st p) in bp > p \<and> bp < n \<or> p \<ge> n \<and> (bp > p \<or> bp < n))"

lemma free_loop_path:
  "links st (qs @ [p]) \<Longrightarrow> \<forall>q \<in> set (qs @ [p]). mapped st q \<Longrightarrow> \<forall>q \<in> set qs. \<not> stop st bp q \<Longrightarrow> stop st bp p \<Longrightarrow>
   free_loop st bp (hd (qs @ [p])) = Some p"
proof (induction qs)
  case Nil
  then show ?case by (subst free_loop.simps) (auto simp: mget_def stop_def Let_def)
next
  case (Cons q qs)
  then have "hnext (mem st q) = hd (qs @ [p])" by (cases qs) auto
  with Cons show ?case by (subst free_loop.simps) (auto simp: mget_def stop_def Let_def successively_Cons)
qed

lemma links_next: "links st (l1 @ q # l2 @ [e]) \<Longrightarrow> hnext (mem st q) = hd (l2 @ [e])"
  by (cases l2) (auto simp: successively_append_iff)

lemma sorted_addresses: "sorted_wrt apart bs \<Longrightarrow> sorted_wrt (<) (map fst bs)"
  unfolding sorted_wrt_map by (rule sorted_wrt_mono_rel) (auto simp: apart_def)

lemma rep_sorted: "mm_rep st bs A \<Longrightarrow> sorted_wrt (<) (map fst bs)"
  by (simp add: mm_rep_def blocks_ok_def sorted_addresses)

lemma rep_links: "mm_rep st bs A \<Longrightarrow> links st (map fst bs @ [fst (hd bs)])"
  by (simp add: mm_rep_def freelist_def)

text \<open>An allocated block and its place.\<close>

definition at_gap :: "mm \<Rightarrow> (nat \<rightharpoonup> nat) \<Rightarrow> nat \<Rightarrow> nat \<Rightarrow> block list \<Rightarrow> block \<Rightarrow> block list \<Rightarrow> bool" where
  "at_gap st A a s xs x ys \<longleftrightarrow> mm_rep st (xs @ x # ys) A \<and> A a = Some s \<and> in_gap xs x ys (a, s) \<and> (\<forall>w \<in> set xs. fst w < a)"

lemma gap_links:
  assumes "at_gap st A a s xs x ys"
  shows "links st (map fst xs @ [fst x])" "links st (fst x # map fst ys @ [fst (hd (xs @ [x]))])"
    "sorted_wrt (<) (map fst xs @ fst x # map fst ys)"
proof -
  have "links st (map fst xs @ fst x # map fst ys @ [fst (hd (xs @ [x]))])" "sorted_wrt (<) (map fst xs @ fst x # map fst ys)"
    using rep_links [of st "xs @ x # ys" A] rep_sorted [of st "xs @ x # ys" A] assms by (auto simp: at_gap_def hd_append)
  then show "links st (map fst xs @ [fst x])" "links st (fst x # map fst ys @ [fst (hd (xs @ [x]))])"
    "sorted_wrt (<) (map fst xs @ fst x # map fst ys)" unfolding links_glue [of st "map fst xs" "fst x" "map fst ys @ [fst (hd (xs @ [x]))]"] by auto
qed

lemma stop_at: "at_gap st A a s xs x ys \<Longrightarrow> stop st a (fst x)"
proof -
  assume g: "at_gap st A a s xs x ys"
  have "hnext (mem st (fst x)) = hd (map fst ys @ [fst (hd (xs @ [x]))])"
    using links_next [of st "[]" "fst x" "map fst ys"] gap_links(2) [OF g] by simp
  moreover have "fst (hd (xs @ [x])) \<le> fst x" using gap_links(3) [OF g] by (cases xs) auto
  ultimately show ?thesis using g by (cases ys) (auto simp: stop_def in_gap_def at_gap_def)
qed

lemma not_stop_low: 
  assumes g: "at_gap st A a s xs x ys" and "w \<in> set xs"
  shows "\<not> stop st a (fst w)"
proof -
  obtain us vs where xs: "xs = us @ w # vs" using assms(2) by (meson split_list)
  let ?n = "hd (map fst vs @ [fst x])"
  have "hnext (mem st (fst w)) = ?n"
    using links_next [of st "map fst us" "fst w" "map fst vs" "fst x"] gap_links(1) [OF g] by (simp add: xs)
  moreover have "?n < a" using g xs by (cases vs) (auto simp: in_gap_def at_gap_def)
  moreover have "fst w < ?n" using gap_links(3) [OF g] by (cases vs) (auto simp: xs sorted_wrt_append)
  ultimately show ?thesis by (auto simp: stop_def)
qed

lemma not_stop_high:
  assumes g: "at_gap st A a s xs x ys" and w: "w \<in> set ys"
  shows "\<not> stop st a (fst w)"
proof -
  obtain us vs where ys: "ys = us @ w # vs" using w by (meson split_list)
  let ?h = "fst (hd (xs @ [x]))"
  let ?n = "hd (map fst vs @ [?h])"
  have "hnext (mem st (fst w)) = ?n"
    using links_next [of st "fst x # map fst us" "fst w" "map fst vs"] gap_links(2) [OF g] by (simp add: ys)
  moreover have "?n = ?h \<or> fst w < ?n" using gap_links(3) [OF g] by (cases vs) (auto simp: ys sorted_wrt_append)
  moreover have "?h < a" using g by (cases xs) (auto simp: at_gap_def in_gap_def)
  moreover have "a < fst w" using g w by (auto simp: in_gap_def at_gap_def)
  ultimately show ?thesis by (auto simp: stop_def)
qed

lemma free_loop_finds:
  assumes g: "at_gap st A a s xs x ys" and f: "b \<in> set (xs @ x # ys)"
  shows "free_loop st a (fst b) = Some (fst x)"
proof -
  have m: "mapped st (fst c)" if "c \<in> set (xs @ x # ys)" for c
    using rep_mapped_free [of st "xs @ x # ys" A c] g that by (simp add: at_gap_def)
  note l = gap_links [OF g] and stops = stop_at [OF g] not_stop_low [OF g] not_stop_high [OF g]
  from f consider us vs where "xs = us @ b # vs" | "b = x" | us vs where "ys = us @ b # vs"
    by (auto dest: split_list)
  then show ?thesis
  proof cases
    case 1
    then have "links st (map fst (b # vs) @ [fst x])" using l(1) by (simp add: successively_append_iff)
    from free_loop_path [OF this] m stops 1 show ?thesis by auto
  next
    case 2
    from free_loop_path [of st "[]" "fst x"] m stops 2 show ?thesis by auto
  next
    case 3
    then have "links st (map fst (b # vs) @ [fst (hd (xs @ [x]))])"
      using l(2) by (auto simp: successively_append_iff successively_Cons)
    moreover have "map fst xs @ [fst x] = fst (hd (xs @ [x])) # tl (map fst xs @ [fst x])" by (cases xs) auto
    ultimately have "links st (map fst (b # vs) @ map fst xs @ [fst x])"
      using l(1) links_glue [of st "map fst (b # vs)" "fst (hd (xs @ [x]))" "tl (map fst xs @ [fst x])"] by metis
    moreover have "\<not> stop st a (fst c) \<and> mapped st (fst c)" if "c \<in> set (b # vs @ xs)" for c
      using m [of c] stops(2,3) [of c] 3 that by auto
    ultimately show ?thesis using free_loop_path [of st "map fst (b # vs @ xs)" "fst x" a] stops(1) m [of x] by (simp add: ball_Un)
  qed
qed

subsection \<open>What \<open>mm_free\<close> does to the list\<close>

definition hdr :: "nat list \<Rightarrow> nat \<Rightarrow> Header" where
  "hdr ns s = \<lparr>hnext = hd ns, hsize = of_nat s\<rparr>"

lemma hdr_eq: "hnext h = hd ns \<Longrightarrow> unat (hsize h) = s \<Longrightarrow> h = hdr ns s"
  by (cases h) (auto simp: hdr_def)

lemma set_hnext: "h\<lparr>hnext := n\<rparr> = \<lparr>hnext = n, hsize = hsize h\<rparr>" for h :: Header
  by (cases h) simp

lemma set_hsize: "h\<lparr>hsize := s\<rparr> = \<lparr>hnext = hnext h, hsize = s\<rparr>" for h :: Header
  by (cases h) simp

lemma unat_small: "s < 2 ^ 64 \<Longrightarrow> unat (of_nat s :: 64 word) = s"
  by (simp add: take_bit_nat_eq_self unat_of_nat)

lemma gap_headers:
  assumes g: "at_gap st A a s xs x ys"
  shows "mem st (fst x) = hdr (map fst ys @ [fst (hd (xs @ [x]))]) (snd x)"
    "ys = y # zs \<Longrightarrow> mem st (fst y) = hdr (map fst zs @ [fst (hd (xs @ [x]))]) (snd y)"
proof -
  have sz: "unat (hsize (mem st (fst b))) = snd b" if "b \<in> set (xs @ x # ys)" for b
    using g that unfolding at_gap_def mm_rep_def freelist_def by blast
  show "mem st (fst x) = hdr (map fst ys @ [fst (hd (xs @ [x]))]) (snd x)"
    using links_next [of st "[]" "fst x" "map fst ys"] gap_links(2) [OF g] sz [of x] by (intro hdr_eq) auto
  show "mem st (fst y) = hdr (map fst zs @ [fst (hd (xs @ [x]))]) (snd y)" if "ys = y # zs"
    using links_next [of st "[fst x]" "fst y" "map fst zs"] gap_links(2) [OF g] sz [of y] that by (intro hdr_eq) auto
qed

lemma gap_small:
  assumes g: "at_gap st A a s xs x ys" and "b \<in> set (xs @ x # ys)"
  shows "snd b < 2 ^ 59" "s < 2 ^ 59" "mapped st (fst b)" "mapped st a" "fst b \<noteq> a" "unat (hsize (mem st a)) = s"
proof -
  have rep: "mm_rep st (xs @ x # ys) A" "A a = Some s" using g by (auto simp: at_gap_def)
  then have "mbrk st < 2 ^ 59" by (simp add: mm_rep_def)
  then show "snd b < 2 ^ 59" "s < 2 ^ 59"
    using rep_free_bounds [OF rep(1) assms(2)] rep_live_bounds [OF rep] by linarith+
  show "mapped st (fst b)" by (rule rep_mapped_free [OF rep(1) assms(2)])
  show "mapped st a" "fst b \<noteq> a" "unat (hsize (mem st a)) = s"
    using rep_mapped_live [OF rep, of a] rep_live_bounds [OF rep] rep_disjoint [OF rep assms(2)] by auto
qed

lemma free_joins_up:
  assumes g: "at_gap st A a s xs x ys" and j: "join_up (a, s) ys = (a, t) # zs"
  shows "(if a + s = hnext (mem st (fst x))
      then do { hn \<leftarrow> mget st (hnext (mem st (fst x))); mset st a (\<lambda>h. \<lparr>hnext = hnext hn, hsize = hsize h + hsize hn\<rparr>) }
      else mset st a (\<lambda>h. h\<lparr>hnext := hnext (mem st (fst x))\<rparr>)) =
    Some (st\<lparr>mem := (mem st)(a := hdr (map fst zs @ [fst (hd (xs @ [x]))]) t)\<rparr>)"
proof -
  note small = gap_small [OF g]
  have a: "mapped st a" "hsize (mem st a) = of_nat s" using small(4,6) [of x] by auto
  have h: "fst (hd (xs @ [x])) < a" using g by (cases xs) (auto simp: at_gap_def in_gap_def)
  show ?thesis
  proof (cases ys)
    case Nil
    then show ?thesis using a h j gap_headers(1) [OF g] by (auto simp: mset_def hdr_def set_hnext)
  next
    case (Cons y ys')
    then show ?thesis using a j small(3) [of y] gap_headers(1) [OF g] gap_headers(2) [OF g Cons]
      by (cases y) (auto simp: mset_def mget_def hdr_def set_hnext split: if_splits)
  qed
qed

lemma free_joins_low:
  assumes g: "at_gap st A a s xs x ys" and j: "join_up (a, s) ys = (a, t) # zs"
    and l: "join_low x ((a, t) # zs) = (fst x, r) # ws" and st1: "st1 = st\<lparr>mem := (mem st)(a := hdr ns t)\<rparr>"
    and ns: "hd ns = hd (map fst zs @ [e])" and t: "t < 2 ^ 64"
  shows "(if hsize (mem st1 (fst x)) \<noteq> 0 \<and> fst x + unat (hsize (mem st1 (fst x))) = a
      then mset st1 (fst x) (\<lambda>h. \<lparr>hnext = hnext (mem st1 a), hsize = hsize h + hsize (mem st1 a)\<rparr>)
      else mset st1 (fst x) (\<lambda>h. h\<lparr>hnext := a\<rparr>)) =
    Some (st1\<lparr>mem := (mem st1)(fst x := hdr (map fst ws @ [e]) r)\<rparr>)"
proof -
  note small = gap_small [OF g, of x]
  have x: "mem st1 (fst x) = mem st (fst x)" "mapped st1 (fst x)" "snd x < 2 ^ 64" "snd x < 2 ^ 59" "mem st1 a = hdr ns t"
    using small by (auto simp: st1 mapped_def)
  have "unat (hsize (mem st (fst x))) = snd x" "hsize (mem st (fst x)) = of_nat (snd x)"
    using gap_headers(1) [OF g] x(3) by (simp_all add: hdr_def unat_small)
  moreover have "(of_nat (snd x) :: 64 word) = 0 \<longleftrightarrow> snd x = 0" using x(3) unat_small [of "snd x"] by fastforce
  ultimately show ?thesis using l x ns by (cases x) (auto simp: mset_def hdr_def set_hnext split: if_splits)
qed

lemma join_shapes:
  assumes g: "at_gap st A a s xs x ys"
  obtains t zs r ws where "join_up (a, s) ys = (a, t) # zs" "join_low x ((a, t) # zs) = (fst x, r) # ws"
    "t < 2 ^ 60" "r < 2 ^ 61" "zs = ys \<or> zs = tl ys" "ws = zs \<or> ws = (a, t) # zs"
proof -
  have s: "s < 2 ^ 59" "snd x < 2 ^ 59" using gap_small(1,2) [OF g, of x] by auto
  obtain t zs where j: "join_up (a, s) ys = (a, t) # zs" "t < 2 ^ 60" "zs = ys \<or> zs = tl ys"
  proof (cases ys)
    case (Cons y ys')
    then have "snd y < 2 ^ 59" using gap_small(1) [OF g, of y] by simp
    with s Cons that show thesis by (cases y) (fastforce split: if_splits)
  qed (use s that in auto)
  obtain r ws where "join_low x ((a, t) # zs) = (fst x, r) # ws" "r < 2 ^ 61" "ws = zs \<or> ws = (a, t) # zs"
    using s(2) j(2) by (cases x; cases "snd x \<noteq> 0 \<and> fst x + snd x = a") auto
  with j that show thesis by blast
qed

lemma freelist_spliced:
  assumes g: "at_gap st A a s xs x ys" and zs: "zs = ys \<or> zs = tl ys" and ws: "ws = zs \<or> ws = (a, t) # zs"
    and st': "mem st' = (mem st)(a := hdr (map fst zs @ [e]) t, fst x := hdr (map fst ws @ [e]) r)"
    and e: "e = fst (hd (xs @ [x]))" and small: "t < 2 ^ 64" "r < 2 ^ 64"
  shows "freelist st' (xs @ (fst x, r) # ws)"
proof -
  note l = gap_links [OF g]
  have ne: "fst b \<noteq> a" if "b \<in> set (xs @ x # ys)" for b using gap_small(5) [OF g that] .
  have d: "fst x \<noteq> a" "\<forall>b \<in> set xs. fst b \<noteq> fst x \<and> fst b \<noteq> a" "\<forall>b \<in> set ys. fst b \<noteq> fst x \<and> fst b \<noteq> a"
    using l(3) ne by (auto simp: sorted_wrt_append)
  have zs': "set zs \<subseteq> set ys" using zs by (cases ys) auto
  have "links st (map fst zs @ [e])" using l(2) zs by (cases ys) (auto simp: e successively_Cons)
  then have zl: "links st' (map fst zs @ [e])" by (rule links_frame) (use d zs' in \<open>auto simp: st'\<close>)
  have wl: "links st' (map fst ws @ [e])" using ws zl d(1) by (auto simp: st' hdr_def successively_Cons)
  have "links st' (map fst xs @ [fst x])" by (rule links_frame [OF l(1)]) (use d in \<open>auto simp: st'\<close>)
  moreover have "links st' (fst x # map fst ws @ [e])" using wl by (auto simp: st' hdr_def successively_Cons)
  ultimately have "links st' (map fst xs @ fst x # map fst ws @ [e])"
    unfolding links_glue [of st' "map fst xs" "fst x" "map fst ws @ [e]"] by blast
  moreover have "fst (hd (xs @ (fst x, r) # ws)) = e" by (cases xs) (auto simp: e)
  moreover have "unat (hsize (mem st' (fst b))) = snd b" if "b \<in> set xs \<union> set zs" for b
  proof -
    have b: "b \<in> set (xs @ x # ys)" "fst b \<noteq> a" "fst b \<noteq> fst x" using that zs' d by auto
    then have "unat (hsize (mem st (fst b))) = snd b" using g unfolding at_gap_def mm_rep_def freelist_def by blast
    with b show ?thesis by (simp add: st')
  qed
  moreover have "unat (hsize (mem st' (fst x))) = r" "unat (hsize (mem st' a)) = t"
    using small d(1) by (simp_all add: st' hdr_def unat_small)
  ultimately show ?thesis using ws by (auto simp: freelist_def)
qed

text \<open>The whole operation: the list is spliced and only two headers are written.\<close>

lemma mm_free_list:
  assumes g: "at_gap st A a s xs x ys"
  shows "\<exists>st'. mm_free st (Some (a + 1)) = Some st' \<and> freelist st' (free_block xs x ys (a, s)) \<and> freeptr st' = Some (fst x) \<and>
    mstart st' = mstart st \<and> mbrk st' = mbrk st \<and> mlimit st' = mlimit st \<and> (\<forall>u. u \<noteq> a \<and> u \<noteq> fst x \<longrightarrow> mem st' u = mem st u)"
proof -
  let ?e = "fst (hd (xs @ [x]))"
  obtain t zs r ws where j: "join_up (a, s) ys = (a, t) # zs" "join_low x ((a, t) # zs) = (fst x, r) # ws"
      "t < 2 ^ 60" "r < 2 ^ 61" "zs = ys \<or> zs = tl ys" "ws = zs \<or> ws = (a, t) # zs" using join_shapes [OF g] .
  obtain b where b: "freeptr st = Some (fst b)" "b \<in> set (xs @ x # ys)" using g unfolding at_gap_def mm_rep_def by blast
  note small = gap_small [OF g, of x]
  define st1 where "st1 = st\<lparr>mem := (mem st)(a := hdr (map fst zs @ [?e]) t)\<rparr>"
  define st2 where "st2 = st1\<lparr>mem := (mem st1)(fst x := hdr (map fst ws @ [?e]) r)\<rparr>"
  have "mget st1 (fst x) = Some (mem st1 (fst x))" "mget st1 a = Some (mem st1 a)"
      "mget st (fst x) = Some (mem st (fst x))" "mget st a = Some (mem st a)"
    using small by (simp_all add: mget_def mapped_def st1_def)
  then have "mm_free st (Some (a + 1)) = Some (st2\<lparr>freeptr := Some (fst x)\<rparr>)"
    using b free_loop_finds [OF g b(2)] small(6) free_joins_up [OF g j(1), folded st1_def]
      free_joins_low [OF g j(1,2) st1_def refl, folded st2_def] j(3) by (simp add: mm_free_def)
  moreover have "freelist (st2\<lparr>freeptr := Some (fst x)\<rparr>) (xs @ (fst x, r) # ws)"
    using j(3,4) by (intro freelist_spliced [OF g j(5,6)]) (auto simp: st1_def st2_def)
  moreover have "free_block xs x ys (a, s) = xs @ (fst x, r) # ws" unfolding free_block_def j(1,2) ..
  ultimately show ?thesis by (simp add: st1_def st2_def)
qed

subsection \<open>\<open>mm_free\<close> keeps the representation\<close>

lemma live_units_insert: "A a = None \<Longrightarrow> bunits (Map.graph (A(a \<mapsto> s))) = {a..<a + s} \<union> bunits (Map.graph A)"
  by (auto simp: bunits_def Map.graph_def split: if_splits) fastforce+

lemma live_units_remove:
  assumes "\<forall>a b s t. A a = Some s \<longrightarrow> A b = Some t \<longrightarrow> a \<noteq> b \<longrightarrow> a + s \<le> b \<or> b + t \<le> a" and "A a = Some s"
  shows "bunits (Map.graph (A(a := None))) = bunits (Map.graph A) - {a..<a + s}"
proof -
  have A: "A = (A(a := None))(a \<mapsto> s)" using assms(2) by (simp add: fun_eq_iff)
  have "bunits (Map.graph A) = {a..<a + s} \<union> bunits (Map.graph (A(a := None)))"
    by (subst A) (simp only: live_units_insert fun_upd_same)
  moreover have "{a..<a + s} \<inter> bunits (Map.graph (A(a := None))) = {}"
  proof -
    have "u \<notin> {a..<a + s}" if "A b = Some t" "b \<noteq> a" "b \<le> u" "u < b + t" for b t u
    proof -
      have "a + s \<le> b \<or> b + t \<le> a" using assms that(1,2) by blast
      with that(3,4) show ?thesis by auto
    qed
    then show ?thesis by (auto simp: bunits_def Map.graph_def split: if_splits)
  qed
  ultimately show ?thesis by blast
qed

lemma rep_node_not_live:
  assumes "mm_rep st bs A" and "b \<in> set bs"
  shows "fst b \<notin> bunits (Map.graph A)"
proof
  assume "fst b \<in> bunits (Map.graph A)"
  then obtain a s where "A a = Some s" "a \<le> fst b" "fst b < a + s" by (auto simp: bunits_def Map.graph_def)
  with rep_disjoint [OF assms(1) _ assms(2), of a s] show False by auto
qed

lemma free_block_large: "\<exists>b \<in> set (free_block xs x ys (a, s)). s \<le> snd b"
proof -
  obtain t zs where "join_up (a, s) ys = (a, t) # zs" "s \<le> t"
    by (cases ys; cases "a + s = fst (hd ys)") auto
  then show ?thesis by (cases x) (auto simp: free_block_def)
qed

lemma rep_at_gap:
  assumes "mm_rep st bs A" and "A a = Some s"
  obtains xs x ys where "bs = xs @ x # ys" "at_gap st A a s xs x ys"
  using rep_gap [OF assms] assms by (metis at_gap_def)

text \<open>The cells of live blocks are left alone.\<close>

definition live_frame :: "(nat \<rightharpoonup> nat) \<Rightarrow> mm \<Rightarrow> mm \<Rightarrow> bool" where
  "live_frame A st st' \<longleftrightarrow> (\<forall>u \<in> bunits (Map.graph A). mem st' u = mem st u)"

lemma rep_live_sizes: "mm_rep st bs A \<Longrightarrow> A a = Some s \<Longrightarrow> 0 < s \<and> unat (hsize (mem st a)) = s"
  by (simp add: mm_rep_def)

lemma live_address: "mm_rep st bs A \<Longrightarrow> A a = Some s \<Longrightarrow> a \<in> bunits (Map.graph A)"
  using rep_live_sizes [of st bs A a s] by (force simp: bunits_def Map.graph_def)

lemma mm_free_rep:
  assumes rep: "mm_rep st bs A" and a: "A a = Some s"
  shows "\<exists>st' bs'. mm_free st (Some (a + 1)) = Some st' \<and> mm_rep st' bs' (A(a := None)) \<and> live_frame (A(a := None)) st st' \<and>
    mbrk st' = mbrk st \<and> mlimit st' = mlimit st \<and> mstart st' = mstart st \<and> (\<exists>b \<in> set bs'. s \<le> snd b)"
proof -
  obtain xs x ys where bs: "bs = xs @ x # ys" "at_gap st A a s xs x ys" using rep_at_gap [OF assms] .
  obtain st' where st': "mm_free st (Some (a + 1)) = Some st'" "freelist st' (free_block xs x ys (a, s))" "freeptr st' = Some (fst x)"
      "mstart st' = mstart st" "mbrk st' = mbrk st" "mlimit st' = mlimit st" "\<forall>u. u \<noteq> a \<and> u \<noteq> fst x \<longrightarrow> mem st' u = mem st u"
    using mm_free_list [OF bs(2)] by blast
  let ?bs = "free_block xs x ys (a, s)" and ?A = "A(a := None)"
  have ok: "blocks_ok ?bs" "fst (hd ?bs) = fst (hd bs)"
    using free_block_ok [of xs x ys "(a, s)"] rep bs by (auto simp: mm_rep_def at_gap_def)
  have pw: "\<forall>a b s t. A a = Some s \<longrightarrow> A b = Some t \<longrightarrow> a \<noteq> b \<longrightarrow> a + s \<le> b \<or> b + t \<le> a"
    using rep unfolding mm_rep_def by blast
  have lu: "bunits (Map.graph ?A) = bunits (Map.graph A) - {a..<a + s}" by (rule live_units_remove [OF pw a])
  have fu: "bunits (set ?bs) = bunits (set bs) \<union> {a..<a + s}" by (simp only: bs(1) bunits_free_block)
  have sub: "{a..<a + s} \<subseteq> bunits (Map.graph A)" using a by (force simp: bunits_def Map.graph_def)
  have frame: "live_frame ?A st st'"
    unfolding live_frame_def lu
  proof
    fix u assume u: "u \<in> bunits (Map.graph A) - {a..<a + s}"
    then have "u \<noteq> fst x" "u \<noteq> a" using rep_node_not_live [OF rep, of x] rep_live_sizes [OF rep a] by (auto simp: bs(1))
    with st'(7) show "mem st' u = mem st u" by blast
  qed
  have "\<forall>b t. ?A b = Some t \<longrightarrow> 0 < t \<and> unat (hsize (mem st' b)) = t"
  proof (intro allI impI)
    fix b t assume b: "?A b = Some t"
    then have "A b = Some t" "b \<noteq> a" by (auto split: if_splits)
    moreover have "b \<noteq> fst x" using rep_node_not_live [OF rep, of x] live_address [OF rep, of b t] calculation by (auto simp: bs(1))
    ultimately show "0 < t \<and> unat (hsize (mem st' b)) = t" using st'(7) rep_live_sizes [OF rep, of b t] by simp
  qed
  moreover have "\<exists>b \<in> set ?bs. freeptr st' = Some (fst b)" using st'(3) by (cases "join_up (a, s) ys"; cases x) (auto simp: free_block_def)
  moreover have "bunits (Map.graph ?A) \<inter> insert (fst (hd bs)) (bunits (set ?bs)) = {}"
    using rep_tiles(1) [OF rep] unfolding lu fu by blast
  moreover have "insert (fst (hd bs)) (bunits (set ?bs)) \<union> bunits (Map.graph ?A) = {fst (hd bs)..<mbrk st}"
    using rep_tiles(2) [OF rep] sub unfolding lu fu by blast
  moreover have "\<forall>b c t u. ?A b = Some t \<longrightarrow> ?A c = Some u \<longrightarrow> b \<noteq> c \<longrightarrow> b + t \<le> c \<or> c + u \<le> b" using pw by (simp split: if_splits)
  ultimately have "mm_rep st' ?bs ?A" using rep ok st'(2-6) unfolding mm_rep_def by simp
  with st' frame free_block_large show ?thesis by blast
qed

subsection \<open>Taking a block\<close>

text \<open>Units move from the free blocks to a new live block.\<close>

lemma rep_move_to_live:
  assumes rep: "mm_rep st bs A" and ok: "blocks_ok bs'" "fst (hd bs') = fst (hd bs)" and fl: "freelist st' bs'"
    and fp: "\<exists>b \<in> set bs'. freeptr st' = Some (fst b)"
    and fr: "mstart st' = mstart st" "mbrk st' = mbrk st" "mlimit st' = mlimit st" "live_frame A st st'"
    and fu: "bunits (set bs') = bunits (set bs) - {a..<a + u}" and sub: "{a..<a + u} \<subseteq> bunits (set bs)"
    and u: "0 < u" "unat (hsize (mem st' a)) = u" and h: "fst (hd bs) \<notin> {a..<a + u}"
  shows "mm_rep st' bs' (A(a \<mapsto> u)) \<and> A a = None"
proof -
  have dis: "{a..<a + u} \<inter> bunits (Map.graph A) = {}" using rep_tiles(1) [OF rep] sub by blast
  moreover have "a \<in> {a..<a + u}" using u(1) by simp
  ultimately have a: "A a = None" using live_address [OF rep, of a] by (cases "A a") blast+
  have lu: "bunits (Map.graph (A(a \<mapsto> u))) = {a..<a + u} \<union> bunits (Map.graph A)" by (rule live_units_insert [of A, OF a])
  have apart: "a + u \<le> b \<or> b + t \<le> a" if "A b = Some t" for b t
  proof -
    have "{b..<b + t} \<subseteq> bunits (Map.graph A)" using that by (force simp: bunits_def Map.graph_def)
    with dis have "{a..<a + u} \<inter> {b..<b + t} = {}" by blast
    then show ?thesis using u(1) rep_live_sizes [OF rep that] by (auto simp: not_le)
  qed
  have pw: "\<forall>a b s t. A a = Some s \<longrightarrow> A b = Some t \<longrightarrow> a \<noteq> b \<longrightarrow> a + s \<le> b \<or> b + t \<le> a"
    using rep unfolding mm_rep_def by blast
  have "0 < t \<and> unat (hsize (mem st' b)) = t" if "(A(a \<mapsto> u)) b = Some t" for b t
  proof (cases "b = a")
    case False
    then have "A b = Some t" using that by simp
    then show ?thesis using rep_live_sizes [OF rep] live_address [OF rep] fr(4) by (simp add: live_frame_def)
  qed (use u that in auto)
  moreover have "bunits (Map.graph (A(a \<mapsto> u))) \<inter> insert (fst (hd bs)) (bunits (set bs')) = {}"
    using rep_tiles(1) [OF rep] h unfolding lu fu by blast
  moreover have "insert (fst (hd bs)) (bunits (set bs')) \<union> bunits (Map.graph (A(a \<mapsto> u))) = {fst (hd bs)..<mbrk st}"
    using rep_tiles(2) [OF rep] sub unfolding lu fu by blast
  moreover have "b + t \<le> c \<or> c + v \<le> b" if "(A(a \<mapsto> u)) b = Some t" "(A(a \<mapsto> u)) c = Some v" "b \<noteq> c" for b c t v
    using that pw apart by (fastforce split: if_splits)
  ultimately show ?thesis using rep ok fl fp fr(1-3) a unfolding mm_rep_def by simp
qed

lemma rep_pred:
  assumes rep: "mm_rep st bs A" and w: "w \<in> set bs" and c: "c \<in> set bs" "c \<noteq> hd bs" "hnext (mem st (fst w)) = fst c"
  obtains xs ys where "bs = xs @ w # c # ys"
proof -
  have inj: "b = b'" if "b \<in> set bs" "b' \<in> set bs" "fst b = fst b'" for b b'
    using rep_sorted [OF rep] that by (metis strict_sorted_iff distinct_map inj_onD)
  obtain xs zs where bs: "bs = xs @ w # zs" using w by (meson split_list)
  have n: "fst c = hd (map fst zs @ [fst (hd bs)])"
    using links_next [of st "map fst xs" "fst w" "map fst zs"] rep_links [OF rep] c(3) by (simp add: bs)
  have "zs \<noteq> []"
  proof
    assume "zs = []"
    moreover have "hd bs \<in> set bs" using bs by (intro hd_in_set) simp
    ultimately show False using n inj [OF c(1), of "hd bs"] c(2) by simp
  qed
  then obtain d ys where zs: "zs = d # ys" by (cases zs) auto
  then have "c = d" using n inj [of c d] c(1) by (simp add: bs)
  with bs zs that show thesis by blast
qed

lemma freelist_split: "freelist st (xs @ w # c # ys) \<Longrightarrow>
    links st (map fst xs @ [fst w]) \<and> hnext (mem st (fst w)) = fst c \<and> links st (fst c # map fst ys @ [fst (hd (xs @ [w]))]) \<and>
    (\<forall>b \<in> set (xs @ w # c # ys). unat (hsize (mem st (fst b))) = snd b)"
  using links_glue [of st "map fst xs" "fst w" "map fst (c # ys) @ [fst (hd (xs @ [w]))]"]
  by (cases xs) (auto simp: freelist_def)

lemma freelist_intro:
  assumes "links st (map fst xs @ [fst w])" and "links st (fst w # map fst ys @ [fst (hd (xs @ [w]))])"
    and "\<forall>b \<in> set (xs @ w # ys). unat (hsize (mem st (fst b))) = snd b"
  shows "freelist st (xs @ w # ys)"
  using assms links_glue [of st "map fst xs" "fst w" "map fst ys @ [fst (hd (xs @ [w]))]"]
  by (cases xs) (auto simp: freelist_def)

lemma malloc_takes_exact:
  assumes rep: "mm_rep st (xs @ w # c # ys) A" and u: "0 < unat u" "unat u = snd c"
  shows "\<exists>st'. malloc_loop st u (fst w) (fst c) = Some (Some (fst c + 1), st') \<and>
    mm_rep st' (xs @ w # ys) (A(fst c \<mapsto> unat u)) \<and> A (fst c) = None \<and> live_frame A st st' \<and> mbrk st' = mbrk st \<and> mlimit st' = mlimit st"
proof -
  let ?bs = "xs @ w # c # ys"
  have fl: "freelist st ?bs" and ok: "blocks_ok ?bs" using rep by (auto simp: mm_rep_def)
  note f = freelist_split [OF fl]
  have m: "mapped st (fst w)" "mapped st (fst c)" using rep_mapped_free [OF rep] by auto
  have srt: "sorted_wrt (<) (map fst xs @ fst w # fst c # map fst ys)" using rep_sorted [OF rep] by simp
  define st' where "st' = st\<lparr>mem := (mem st)(fst w := (mem st (fst w))\<lparr>hnext := hnext (mem st (fst c))\<rparr>), freeptr := Some (fst w)\<rparr>"
  have "hsize (mem st (fst c)) = u" using f u by (simp add: word_unat_eq_iff)
  then have call: "malloc_loop st u (fst w) (fst c) = Some (Some (fst c + 1), st')"
    using m by (subst malloc_loop.simps) (simp add: mget_def mset_def st'_def)
  have ne: "fst w \<notin> fst ` set xs" "fst w \<notin> fst ` set ys" using srt by (auto simp: sorted_wrt_append)
  have same: "\<forall>p \<in> fst ` set xs \<union> fst ` set ys. mem st' p = mem st p"
  proof
    fix p assume "p \<in> fst ` set xs \<union> fst ` set ys"
    then have "p \<noteq> fst w" using ne by blast
    then show "mem st' p = mem st p" by (simp add: st'_def)
  qed
  have l1: "links st' (map fst xs @ [fst w])"
    by (rule links_frame [OF conjunct1 [OF f]]) (use same in simp)
  have "links st (map fst ys @ [fst (hd (xs @ [w]))])" using f by (simp add: successively_Cons)
  then have "links st' (map fst ys @ [fst (hd (xs @ [w]))])" by (rule links_frame) (use same in simp)
  moreover have "hnext (mem st' (fst w)) = hd (map fst ys @ [fst (hd (xs @ [w]))])"
    using links_next [of st "[]" "fst c" "map fst ys"] f by (simp add: st'_def)
  ultimately have l2: "links st' (fst w # map fst ys @ [fst (hd (xs @ [w]))])" by (simp add: successively_Cons)
  have same_size: "hsize (mem st' p) = hsize (mem st p)" for p by (simp add: st'_def)
  then have "unat (hsize (mem st' (fst b))) = snd b" if "b \<in> set (xs @ w # ys)" for b using f that by auto
  then have fl': "freelist st' (xs @ w # ys)" by (intro freelist_intro [OF l1 l2]) blast
  have tb: "take_block (xs @ [w]) c ys (unat u) = xs @ w # ys" using u by (simp add: take_block_def)
  have ok': "blocks_ok (xs @ w # ys)" "fst (hd (xs @ w # ys)) = fst (hd ?bs)"
    using take_block_ok [of "xs @ [w]" c ys "unat u"] ok u tb by auto
  have fu: "bunits (set (xs @ w # ys)) = bunits (set ?bs) - {fst c..<fst c + unat u}"
    using bunits_take_block [of "xs @ [w]" c ys "unat u"] ok u tb by (simp add: blocks_ok_def)
  have sub: "{fst c..<fst c + unat u} \<subseteq> bunits (set ?bs)" using u by (force simp: bunits_def)
  have h: "fst (hd ?bs) \<notin> {fst c..<fst c + unat u}" using srt by (cases xs) auto
  have frame: "live_frame A st st'" using rep_node_not_live [OF rep, of w] by (auto simp: live_frame_def st'_def)
  have sz: "unat (hsize (mem st' (fst c))) = unat u" using f u by (simp add: same_size)
  show ?thesis using call frame rep_move_to_live [OF rep ok' fl' _ _ _ _ frame fu sub u(1) sz h] by (simp add: st'_def)
qed

lemma malloc_takes_tail:
  assumes rep: "mm_rep st (xs @ w # c # ys) A" and u: "0 < unat u" "unat u < snd c" and a: "a = fst c + (snd c - unat u)"
  shows "\<exists>st'. malloc_loop st u (fst w) (fst c) = Some (Some (a + 1), st') \<and>
    mm_rep st' (xs @ w # (fst c, snd c - unat u) # ys) (A(a \<mapsto> unat u)) \<and> A a = None \<and> live_frame A st st' \<and>
    mbrk st' = mbrk st \<and> mlimit st' = mlimit st"
proof -
  let ?bs = "xs @ w # c # ys" and ?bs' = "xs @ w # (fst c, snd c - unat u) # ys"
  have fl: "freelist st ?bs" and ok: "blocks_ok ?bs" using rep by (auto simp: mm_rep_def)
  note f = freelist_split [OF fl]
  have srt: "sorted_wrt apart ?bs" "sorted_wrt (<) (map fst xs @ fst w # fst c # map fst ys)"
    using ok rep_sorted [OF rep] by (auto simp: blocks_ok_def)
  have m: "mapped st (fst c)" "mapped st a"
    using rep_mapped_free [OF rep, of c] rep_free_bounds [OF rep, of c] u a by (auto simp: mapped_def)
  have gt: "hsize (mem st (fst c)) \<ge> u" "hsize (mem st (fst c)) \<noteq> u" using f u by (auto simp: word_le_nat_alt)
  have uc: "unat (hsize (mem st (fst c)) - u) = snd c - unat u" using f u by (simp add: unat_sub word_le_nat_alt)
  define st' where "st' = st\<lparr>mem := (mem st)(fst c := (mem st (fst c))\<lparr>hsize := hsize (mem st (fst c)) - u\<rparr>,
      a := (mem st a)\<lparr>hsize := u\<rparr>), freeptr := Some (fst w)\<rparr>"
  have ca: "a \<noteq> fst c" using u a by simp
  have a': "a = fst c + unat (hsize (mem st (fst c)) - u)" using uc a by simp
  have call: "malloc_loop st u (fst w) (fst c) = Some (Some (a + 1), st')"
    using m ca gt by (subst malloc_loop.simps) (simp add: mget_def mset_def st'_def Let_def flip: a')
  have an: "a \<notin> fst ` (set xs \<union> {w} \<union> set ys)" and cn: "fst c \<notin> fst ` (set xs \<union> {w} \<union> set ys)"
    using srt u by (auto simp: sorted_wrt_append apart_def a)
  have other: "mem st' p = mem st p" if "p \<in> fst ` (set xs \<union> {w} \<union> set ys)" for p
  proof -
    have "p \<noteq> a" "p \<noteq> fst c" using that an cn by blast+
    then show ?thesis by (simp add: st'_def)
  qed
  have nexts: "hnext (mem st' p) = hnext (mem st p)" for p by (simp add: st'_def)
  have "links st (map fst xs @ [fst w])" "links st (fst w # map fst ((fst c, snd c - unat u) # ys) @ [fst (hd (xs @ [w]))])" using f by auto
  then have "links st' (map fst xs @ [fst w])" "links st' (fst w # map fst ((fst c, snd c - unat u) # ys) @ [fst (hd (xs @ [w]))])"
    using links_frame nexts by blast+
  moreover have "unat (hsize (mem st' (fst b))) = snd b" if "b \<in> set ?bs'" for b
  proof (cases "b \<in> set xs \<union> {w} \<union> set ys")
    case True
    then have "mem st' (fst b) = mem st (fst b)" using other by blast
    with True f show ?thesis by auto
  next
    case False
    then have "b = (fst c, snd c - unat u)" using that by auto
    with ca uc show ?thesis by (simp add: st'_def)
  qed
  ultimately have fl': "freelist st' ?bs'" by (intro freelist_intro) blast+
  have tb: "take_block (xs @ [w]) c ys (unat u) = ?bs'" using u by (simp add: take_block_def)
  have ok': "blocks_ok ?bs'" "fst (hd ?bs') = fst (hd ?bs)"
    using take_block_ok [of "xs @ [w]" c ys "unat u"] ok u tb by auto
  have fu: "bunits (set ?bs') = bunits (set ?bs) - {a..<a + unat u}"
    using bunits_take_block [of "xs @ [w]" c ys "unat u"] srt(1) u tb by (simp add: a)
  have sub: "{a..<a + unat u} \<subseteq> bunits (set ?bs)" using u a by (force simp: bunits_def)
  then have notl: "a \<notin> bunits (Map.graph A)" using rep_tiles(1) [OF rep] u(1) by force
  have h: "fst (hd ?bs) \<notin> {a..<a + unat u}" using srt(2) u a by (cases xs) auto
  have frame: "live_frame A st st'" using rep_node_not_live [OF rep, of c] notl by (auto simp: live_frame_def st'_def)
  show ?thesis using call frame rep_move_to_live [OF rep ok' fl' _ _ _ _ frame fu sub u(1) _ h] ca by (simp add: st'_def)
qed

lemma malloc_takes:
  assumes rep: "mm_rep st bs A" and bs: "bs = xs @ w # c # ys" and u: "0 < unat u" "unat u \<le> snd c"
  shows "\<exists>a st' bs'. malloc_loop st u (fst w) (fst c) = Some (Some (a + 1), st') \<and> mm_rep st' bs' (A(a \<mapsto> unat u)) \<and> A a = None \<and>
    live_frame A st st' \<and> mbrk st' = mbrk st \<and> mlimit st' = mlimit st"
  using malloc_takes_exact [of st xs w c ys A u] malloc_takes_tail [OF rep [unfolded bs] u(1) _ refl] rep u
  unfolding bs by (cases "unat u = snd c") (blast, metis le_neq_implies_less)

subsection \<open>The search of \<open>mm_malloc\<close>\<close>

lemma malloc_loop_skip:
  assumes "links st (prev # qs @ [q])" and "\<forall>p \<in> set qs. mapped st p \<and> hsize (mem st p) < u \<and> freeptr st \<noteq> Some p"
  shows "malloc_loop st u prev (hd (qs @ [q])) = malloc_loop st u (last (prev # qs)) q"
  using assms
proof (induction qs arbitrary: prev)
  case (Cons p qs)
  then have "hnext (mem st p) = hd (qs @ [q])" by (cases qs) auto
  then have "malloc_loop st u prev p = malloc_loop st u p (hd (qs @ [q]))"
    using Cons.prems(2) by (subst malloc_loop.simps) (auto simp: mget_def)
  with Cons show ?case by (auto simp: successively_Cons)
qed simp

text \<open>The ring as the search sees it from the node \<open>b\<close>.\<close>

lemma rep_ring:
  assumes rep: "mm_rep st (us @ b # vs) A"
  shows "links st (fst b # map fst (vs @ us) @ [fst b])"
proof -
  let ?h = "fst (hd (us @ [b]))"
  have "links st (map fst us @ fst b # map fst vs @ [?h])" using rep_links [OF rep] by (cases us) auto
  then have l: "links st (map fst us @ [fst b])" "links st ((fst b # map fst vs) @ [?h])"
    unfolding links_glue [of st "map fst us" "fst b" "map fst vs @ [?h]"] by auto
  have "map fst us @ [fst b] = ?h # tl (map fst us @ [fst b])" by (cases us) auto
  then have "links st ((fst b # map fst vs) @ map fst us @ [fst b])"
    using l links_glue [of st "fst b # map fst vs" ?h "tl (map fst us @ [fst b])"] by metis
  then show ?thesis by simp
qed

lemma small_hsize: "mm_rep st bs A \<Longrightarrow> b \<in> set bs \<Longrightarrow> hsize (mem st (fst b)) < u \<longleftrightarrow> snd b < unat u"
  unfolding mm_rep_def freelist_def by (auto simp: word_less_nat_alt)

lemma rep_distinct: "mm_rep st bs A \<Longrightarrow> distinct (map fst bs)"
  using rep_sorted strict_sorted_iff by blast

lemma init_prefix: "xs @ [x] = pre @ c # post \<Longrightarrow> set pre \<subseteq> set xs"
  by (metis butlast_append butlast_snoc list.distinct(1) set_append sup_ge1)

lemma rep_freeptr: "mm_rep st bs A \<Longrightarrow> \<exists>b \<in> set bs. freeptr st = Some (fst b)"
  by (simp add: mm_rep_def)

lemma malloc_finds:
  assumes rep: "mm_rep st bs A" and f: "freeptr st = Some f" and u: "0 < unat u" and fit: "\<exists>b \<in> set bs. unat u \<le> snd b"
  shows "\<exists>a st' bs'. malloc_loop st u f (hnext (mem st f)) = Some (Some (a + 1), st') \<and> mm_rep st' bs' (A(a \<mapsto> unat u)) \<and>
    A a = None \<and> live_frame A st st' \<and> mbrk st' = mbrk st \<and> mlimit st' = mlimit st"
proof -
  obtain b where "b \<in> set bs" "freeptr st = Some (fst b)" using rep_freeptr [OF rep] by blast
  then obtain us vs where b: "f = fst b" "bs = us @ b # vs" using f split_list [of b bs] by auto
  have ring: "links st (fst b # map fst (vs @ us @ [b]))" using rep_ring [OF rep [unfolded b]] by simp
  have "\<exists>b \<in> set (vs @ us @ [b]). unat u \<le> snd b" using fit b(2) by auto
  then obtain pre c post where c: "vs @ us @ [b] = pre @ c # post" "unat u \<le> snd c" "\<forall>p \<in> set pre. snd p < unat u"
    using split_list_first_prop [of "vs @ us @ [b]" "\<lambda>b. unat u \<le> snd b"] unfolding not_le by blast
  have "set bs = set (vs @ us @ [b])" by (auto simp: b)
  then have cs: "c \<in> set bs" "set pre \<subseteq> set bs" unfolding c(1) by auto
  have pre: "set pre \<subseteq> set (vs @ us)" using init_prefix [of "vs @ us" b pre c post] c(1) by simp
  have nf: "\<forall>p \<in> set pre. fst p \<noteq> fst b" 
  proof -
    have "fst b \<notin> fst ` set (vs @ us)" using rep_distinct [OF rep] by (auto simp: b(2))
    then show ?thesis using pre by (metis image_eqI subsetD)
  qed
  have "links st ((fst b # map fst pre) @ fst c # map fst post)" using ring unfolding c(1) by simp
  then have l: "links st (fst b # map fst pre @ [fst c])"
    unfolding links_glue [of st "fst b # map fst pre" "fst c" "map fst post"] by simp
  have "mapped st (fst p) \<and> hsize (mem st (fst p)) < u \<and> freeptr st \<noteq> Some (fst p)" if "p \<in> set pre" for p
    using c(3) cs(2) nf rep_mapped_free [OF rep, of p] small_hsize [OF rep, of p] f b(1) that by auto
  then have "\<forall>p \<in> set (map fst pre). mapped st p \<and> hsize (mem st p) < u \<and> freeptr st \<noteq> Some p" unfolding set_map by blast
  from malloc_loop_skip [OF l this]
  have skip: "malloc_loop st u f (hd (map fst pre @ [fst c])) = malloc_loop st u (last (fst b # map fst pre)) (fst c)" using b(1) by simp
  have hd: "hnext (mem st f) = hd (map fst pre @ [fst c])" using l b(1) by (cases pre) auto
  obtain w where w: "w \<in> set bs" "fst w = last (fst b # map fst pre)" "hnext (mem st (fst w)) = fst c"
  proof (cases pre rule: rev_cases)
    case Nil
    then show thesis using that [of b] b l by simp
  next
    case (snoc pre' w)
    then show thesis using that [of w] cs(2) l by (auto simp: successively_append_iff successively_Cons)
  qed
  have "c \<noteq> hd bs" using rep c(2) u by (auto simp: mm_rep_def blocks_ok_def)
  then obtain xs ys where "bs = xs @ w # c # ys" using rep_pred [OF rep w(1) cs(1) _ w(3)] by blast
  from malloc_takes [OF rep this u c(2)] w(2) hd skip show ?thesis by simp
qed

subsection \<open>Growing the heap\<close>

lemma sint_units: "unat u < 2 ^ 59 \<Longrightarrow> sint (u * sizeof_Header) div 16 = int (unat u)"
proof -
  assume u: "unat u < 2 ^ 59"
  have "unat (u * sizeof_Header) = unat u * 16"
    using u by (subst unat_mult_lem [THEN iffD1]) (simp_all add: sizeof_Header_def)
  then have "uint (u * sizeof_Header) = int (unat u) * 16" by (metis of_nat_mult of_nat_numeral uint_nat)
  moreover have "signed_take_bit 63 (k * 16) = k * 16" if "0 \<le> k" "k < 2 ^ 59" for k :: int
    using that by (intro signed_take_bit_int_eq_self) auto
  moreover have "int (unat u) < int (2 ^ 59)" using u by (simp only: of_nat_less_iff)
  ultimately show ?thesis by (simp add: sint_uint)
qed

text \<open>New memory as a block that has been allocated and is about to be freed.\<close>

lemma rep_grown:
  assumes rep: "mm_rep st bs A" and n: "0 < n" "mbrk st + n \<le> mlimit st" "unat v = n"
    and st': "st' = st\<lparr>mbrk := mbrk st + n, mem := (mem st)(mbrk st := (mem st (mbrk st))\<lparr>hsize := v\<rparr>)\<rparr>"
  shows "mm_rep st' bs (A(mbrk st \<mapsto> n)) \<and> A (mbrk st) = None \<and> live_frame A st st'"
proof -
  let ?b = "mbrk st" let ?A = "A(?b \<mapsto> n)"
  note t = rep_tiles [OF rep]
  have "fst (hd bs) \<in> {fst (hd bs)..<?b}" unfolding t(2) [symmetric] by blast
  then have hb: "fst (hd bs) < ?b" by simp
  have a: "A ?b = None" using rep_live_bounds [OF rep, of ?b] by (cases "A ?b") auto
  have lu: "bunits (Map.graph ?A) = {?b..<?b + n} \<union> bunits (Map.graph A)" by (rule live_units_insert [of A, OF a])
  have "bunits (Map.graph A) \<union> bunits (set bs) \<subseteq> {fst (hd bs)..<?b}" unfolding t(2) [symmetric] by blast
  then have below: "bunits (Map.graph A) \<subseteq> {..<?b}" "bunits (set bs) \<subseteq> {..<?b}" by auto
  have nodes: "fst b \<noteq> ?b" if "b \<in> set bs" for b using rep_free_bounds [OF rep that] by simp
  have frame: "live_frame A st st'" using below(1) by (auto simp: live_frame_def st')
  have same: "mem st' (fst b) = mem st (fst b)" if "b \<in> set bs" for b using nodes [OF that] by (simp add: st')
  have "links st' (map fst bs @ [fst (hd bs)])" by (rule links_frame [OF rep_links [OF rep]]) (simp add: st')
  moreover have "\<forall>b \<in> set bs. unat (hsize (mem st (fst b))) = snd b" using rep by (simp add: mm_rep_def freelist_def)
  ultimately have "freelist st' bs" using same by (simp add: freelist_def)
  moreover have "0 < t \<and> unat (hsize (mem st' a)) = t" if "?A a = Some t" for a t
  proof (cases "a = ?b")
    case False
    then have "A a = Some t" using that by simp
    then show ?thesis using rep_live_sizes [OF rep] live_address [OF rep] frame by (simp add: live_frame_def)
  qed (use n that in \<open>simp add: st'\<close>)
  moreover have "a + s \<le> b \<or> b + t \<le> a" if "?A a = Some s" "?A b = Some t" "a \<noteq> b" for a b s t
  proof (cases "a = ?b \<or> b = ?b")
    case False
    then have "A a = Some s" "A b = Some t" using that by auto
    then show ?thesis using rep that(3) unfolding mm_rep_def by blast
  qed (use that rep_live_bounds [OF rep, of a s] rep_live_bounds [OF rep, of b t] in auto)
  moreover have "bunits (Map.graph ?A) \<inter> insert (fst (hd bs)) (bunits (set bs)) = {}"
    using t(1) below hb unfolding lu by fastforce
  moreover have "insert (fst (hd bs)) (bunits (set bs)) \<union> bunits (Map.graph ?A) = {fst (hd bs)..<?b + n}"
    unfolding lu Un_left_commute [of _ "{?b..<?b + n}"] t(2) using hb by auto
  ultimately show ?thesis using rep n a frame unfolding mm_rep_def by (simp add: st')
qed

definition room :: "mm \<Rightarrow> nat \<Rightarrow> bool" where
  "room st n \<longleftrightarrow> mbrk st + n \<le> mlimit st"

definition grow_units :: "64 word \<Rightarrow> nat" where
  "grow_units u = max 1024 (unat u)"

lemma extend_heap_rep:
  assumes rep: "mm_rep st bs A" and u: "unat u < 2 ^ 59"
  shows "if room st (grow_units u)
    then \<exists>st' bs'. extend_heap st u = Some (True, st') \<and> mm_rep st' bs' A \<and> live_frame A st st' \<and>
      (\<exists>b \<in> set bs'. grow_units u \<le> snd b) \<and> mbrk st' = mbrk st + grow_units u \<and> mlimit st' = mlimit st
    else extend_heap st u = Some (False, st)"
proof -
  define v where "v = (if u < NALLOC then NALLOC else u)"
  have v: "unat v = grow_units u" "unat v < 2 ^ 59" "0 < grow_units u"
    using u by (auto simp: v_def NALLOC_def grow_units_def word_less_nat_alt split: if_splits)
  have hb: "mstart st \<le> mbrk st" using rep rep_tiles(2) [OF rep] by (auto simp: mm_rep_def atLeastLessThan_def)
  have sb: "sbrk st (sint (v * sizeof_Header)) =
      (if room st (grow_units u) then (Some (mbrk st), st\<lparr>mbrk := mbrk st + grow_units u\<rparr>) else (None, st))"
    using hb v by (auto simp: sbrk_def sint_units room_def Let_def nat_int_add)
  show ?thesis
  proof (cases "room st (grow_units u)")
    case True
    define st1 where "st1 = st\<lparr>mbrk := mbrk st + grow_units u, mem := (mem st)(mbrk st := (mem st (mbrk st))\<lparr>hsize := v\<rparr>)\<rparr>"
    have g: "mm_rep st1 bs (A(mbrk st \<mapsto> grow_units u))" "A (mbrk st) = None" "live_frame A st st1"
      using rep_grown [OF rep v(3) _ v(1) st1_def] True by (auto simp: room_def)
    have "(A(mbrk st \<mapsto> grow_units u))(mbrk st := None) = A" using g(2) by auto
    with mm_free_rep [OF g(1), of "mbrk st" "grow_units u"] obtain st' bs' where
      s: "mm_free st1 (Some (mbrk st + 1)) = Some st'" "mm_rep st' bs' A" "live_frame A st1 st'" "mbrk st' = mbrk st1"
        "mlimit st' = mlimit st1" "\<exists>b \<in> set bs'. grow_units u \<le> snd b" by auto
    have "mset (st\<lparr>mbrk := mbrk st + grow_units u\<rparr>) (mbrk st) (\<lambda>h. h\<lparr>hsize := v\<rparr>) = Some st1"
      using v(3) hb by (simp add: mset_def mapped_def st1_def)
    then have "extend_heap st u = Some (True, st')" using sb True s(1) by (simp add: extend_heap_def flip: v_def)
    moreover have "live_frame A st st'" using g(3) s(3) by (simp add: live_frame_def)
    ultimately show ?thesis using True s(2,4-6) by (auto simp: st1_def)
  next
    case False
    then show ?thesis using sb by (simp add: extend_heap_def flip: v_def)
  qed
qed

subsection \<open>\<open>mm_malloc\<close> keeps the representation\<close>

lemma malloc_no_fit:
  assumes rep: "mm_rep st bs A" and f: "freeptr st = Some f" and none: "\<forall>b \<in> set bs. snd b < unat u"
  shows "malloc_loop st u f (hnext (mem st f)) = do {
       (ok, st) \<leftarrow> extend_heap st u;
       if \<not> ok then Some (None, st)
       else do { ptr \<leftarrow> freeptr st; h \<leftarrow> mget st ptr; malloc_loop st u ptr (hnext h) } }"
proof -
  obtain b where "b \<in> set bs" "freeptr st = Some (fst b)" using rep_freeptr [OF rep] by blast
  then obtain us vs where b: "f = fst b" "bs = us @ b # vs" using f split_list [of b bs] by auto
  have ring: "links st (f # map fst (vs @ us) @ [f])" using rep_ring [OF rep [unfolded b]] by (simp add: b)
  have small: "mapped st (fst c) \<and> hsize (mem st (fst c)) < u" if "c \<in> set bs" for c
    using none that rep_mapped_free [OF rep that] small_hsize [OF rep that] by simp
  have "\<forall>p \<in> set (map fst (vs @ us)). mapped st p \<and> hsize (mem st p) < u \<and> freeptr st \<noteq> Some p"
  proof -
    have nf: "fst b \<notin> fst ` set (vs @ us)" and sub: "set (vs @ us) \<subseteq> set bs"
      using rep_distinct [OF rep] by (auto simp: b(2))
    have "mapped st (fst c) \<and> hsize (mem st (fst c)) < u \<and> freeptr st \<noteq> Some (fst c)" if "c \<in> set (vs @ us)" for c
    proof -
      have "fst c \<noteq> fst b" using nf that by (metis image_eqI)
      then show ?thesis using small [of c] sub that f b(1) by auto
    qed
    then show ?thesis unfolding set_map by blast
  qed
  from malloc_loop_skip [OF ring this]
  have "malloc_loop st u f (hnext (mem st f)) = malloc_loop st u (last (f # map fst (vs @ us))) f"
    using ring by (cases "vs @ us") auto
  moreover have "mapped st f" "\<not> u \<le> hsize (mem st f)" using small [of b] b by auto
  then have "malloc_loop st u prev f = do {
       (ok, st) \<leftarrow> extend_heap st u;
       if \<not> ok then Some (None, st)
       else do { ptr \<leftarrow> freeptr st; h \<leftarrow> mget st ptr; malloc_loop st u ptr (hnext h) } }" for prev
    using f by (subst malloc_loop.simps) (simp add: mget_def)
  ultimately show ?thesis by simp
qed

lemma malloc_search:
  assumes rep: "mm_rep st bs A" and f: "freeptr st = Some f" and u: "0 < unat u" "unat u < 2 ^ 59"
  shows "(\<exists>a st' bs'. malloc_loop st u f (hnext (mem st f)) = Some (Some (a + 1), st') \<and> mm_rep st' bs' (A(a \<mapsto> unat u)) \<and>
      A a = None \<and> live_frame A st st') \<or>
    malloc_loop st u f (hnext (mem st f)) = Some (None, st) \<and> \<not> room st (grow_units u) \<and> (\<forall>b \<in> set bs. snd b < unat u)"
proof (cases "\<exists>b \<in> set bs. unat u \<le> snd b")
  case True
  then show ?thesis using malloc_finds [OF rep f u(1)] by blast
next
  case False
  then have none: "\<forall>b \<in> set bs. snd b < unat u" by auto
  note step = malloc_no_fit [OF rep f none]
  show ?thesis
  proof (cases "room st (grow_units u)")
    case True
    then obtain st1 bs1 where e: "extend_heap st u = Some (True, st1)" "mm_rep st1 bs1 A" "live_frame A st st1"
        "\<exists>b \<in> set bs1. grow_units u \<le> snd b" using extend_heap_rep [OF rep u(2)] by auto
    obtain c where c: "c \<in> set bs1" "freeptr st1 = Some (fst c)" using rep_freeptr [OF e(2)] by blast
    have "\<exists>b \<in> set bs1. unat u \<le> snd b" using e(4) by (auto simp: grow_units_def)
    from malloc_finds [OF e(2) c(2) u(1) this] obtain a st' bs' where
      m: "malloc_loop st1 u (fst c) (hnext (mem st1 (fst c))) = Some (Some (a + 1), st')" "mm_rep st' bs' (A(a \<mapsto> unat u))"
        "A a = None" "live_frame A st1 st'" by blast
    have "live_frame A st st'" using e(3) m(4) by (simp add: live_frame_def)
    moreover have "mget st1 (fst c) = Some (mem st1 (fst c))" using rep_mapped_free [OF e(2) c(1)] by (simp add: mget_def)
    ultimately show ?thesis using m e(1) c(2) step by auto
  next
    case False
    then show ?thesis using extend_heap_rep [OF rep u(2)] step none by simp
  qed
qed

text \<open>Before the first allocation there is no list.\<close>

definition mm_inv :: "mm \<Rightarrow> (nat \<rightharpoonup> nat) \<Rightarrow> bool" where
  "mm_inv st A \<longleftrightarrow> (if freeptr st = None then A = Map.empty \<and> mstart st \<le> mbrk st \<and> mbrk st \<le> mlimit st \<and> mlimit st < 2 ^ 59
     else \<exists>bs. mm_rep st bs A)"

lemma rep_inv: "mm_rep st bs A \<Longrightarrow> mm_inv st A"
  using rep_freeptr [of st bs A] by (auto simp: mm_inv_def)

lemma rep_prologue:
  assumes "mstart st \<le> mbrk st" "mbrk st < mlimit st" "mlimit st < 2 ^ 59"
    and "st1 = st\<lparr>mbrk := mbrk st + 1, freeptr := Some (mbrk st), mem := (mem st)(mbrk st := \<lparr>hnext = mbrk st, hsize = 0\<rparr>)\<rparr>"
  shows "mm_rep st1 [(mbrk st, 0)] Map.empty"
  using assms by (auto simp: mm_rep_def blocks_ok_def freelist_def)

lemma mm_init_rep:
  assumes "mm_inv st A" and "freeptr st = None"
  shows "if room st 1025 then \<exists>st' bs. mm_init st = Some (True, st') \<and> mm_rep st' bs Map.empty \<and> mbrk st' = mbrk st + 1025 \<and> mlimit st' = mlimit st
    else \<exists>st'. mm_init st = Some (False, st') \<and> mm_inv st' Map.empty \<and> mlimit st' = mlimit st \<and> mbrk st \<le> mbrk st'"
proof -
  have inv: "mstart st \<le> mbrk st" "mbrk st \<le> mlimit st" "mlimit st < 2 ^ 59" using assms by (auto simp: mm_inv_def)
  have sb: "sbrk st (sint sizeof_Header) = (if mbrk st < mlimit st then (Some (mbrk st), st\<lparr>mbrk := mbrk st + 1\<rparr>) else (None, st))"
    using inv sint_units [of 1] by (auto simp: sbrk_def Let_def nat_add_distrib)
  define st1 where "st1 = st\<lparr>mbrk := mbrk st + 1, freeptr := Some (mbrk st), mem := (mem st)(mbrk st := \<lparr>hnext = mbrk st, hsize = 0\<rparr>)\<rparr>"
  show ?thesis
  proof (cases "mbrk st < mlimit st")
    case True
    have rep: "mm_rep st1 [(mbrk st, 0)] Map.empty" by (rule rep_prologue [OF inv(1) True inv(3) st1_def])
    have "mset (st\<lparr>mbrk := mbrk st + 1, freeptr := Some (mbrk st)\<rparr>) (mbrk st) (\<lambda>h. \<lparr>hnext = mbrk st, hsize = 0\<rparr>) = Some st1"
      using inv by (simp add: mset_def mapped_def st1_def)
    then have i: "mm_init st = do { (ok, st) \<leftarrow> extend_heap st1 NALLOC;
        if ok then Some (True, st) else Some (False, st\<lparr>freeptr := None\<rparr>) }"
      using sb True by (simp add: mm_init_def)
    have n: "unat NALLOC < 2 ^ 59" "grow_units NALLOC = 1024" "room st1 1024 = room st 1025"
      by (auto simp: NALLOC_def grow_units_def room_def st1_def)
    show ?thesis
    proof (cases "room st 1025")
      case True
      then obtain st' bs' where "extend_heap st1 NALLOC = Some (True, st')" "mm_rep st' bs' Map.empty"
          "mbrk st' = mbrk st1 + 1024" "mlimit st' = mlimit st1"
        using extend_heap_rep [OF rep n(1)] n(2,3) by auto
      with i True show ?thesis by (auto simp: st1_def)
    next
      case False
      with extend_heap_rep [OF rep n(1)] i n(2,3) inv True show ?thesis by (simp add: st1_def mm_inv_def)
    qed
  next
    case False
    then show ?thesis using sb inv assms(2) by (auto simp: mm_init_def room_def mm_inv_def)
  qed
qed

text \<open>The sizes for which the computation of the units does not wrap.\<close>

definition legal_size :: "64 word \<Rightarrow> bool" where
  "legal_size bytes \<longleftrightarrow> 0 < bytes \<and> unat bytes \<le> 2 ^ 63 - 32"

lemma unat_units_for:
  assumes "legal_size bytes"
  shows "unat (units_for bytes) = (unat bytes + 15) div 16 + 1" "unat (units_for bytes) < 2 ^ 59"
proof -
  have b: "unat bytes \<le> 9223372036854775776" using assms by (simp add: legal_size_def)
  have "unat (15 + bytes) = unat bytes + 15" using b by (subst unat_add_lem [THEN iffD1]) simp_all
  moreover have "bytes + sizeof_Header - 1 = 15 + bytes" by (simp add: sizeof_Header_def)
  ultimately have d: "unat ((bytes + sizeof_Header - 1) div sizeof_Header) = (unat bytes + 15) div 16"
    by (simp add: unat_div sizeof_Header_def)
  show u: "unat (units_for bytes) = (unat bytes + 15) div 16 + 1"
    unfolding units_for_def using b d by (subst unat_add_lem [THEN iffD1]) simp_all
  show "unat (units_for bytes) < 2 ^ 59" using b u by simp
qed

lemma mm_malloc_units:
  assumes inv: "mm_inv st A" and pos: "0 < unat (units_for bytes)" "bytes \<noteq> 0" and u: "unat (units_for bytes) < 2 ^ 59"
  shows "(\<exists>a st'. mm_malloc st bytes = Some (Some (a + 1), st') \<and> A a = None \<and> mm_inv st' (A(a \<mapsto> unat (units_for bytes))) \<and>
      live_frame A st st') \<or>
    (\<exists>st'. mm_malloc st bytes = Some (None, st') \<and> mm_inv st' A \<and> live_frame A st st' \<and>
      \<not> room st (1025 + grow_units (units_for bytes)))"
proof -
  have live: "(\<exists>a st'. malloc_loop st (units_for bytes) f (hnext (mem st f)) = Some (Some (a + 1), st') \<and> A a = None \<and>
        mm_inv st' (A(a \<mapsto> unat (units_for bytes))) \<and> live_frame A st st') \<or>
      malloc_loop st (units_for bytes) f (hnext (mem st f)) = Some (None, st) \<and> \<not> room st (grow_units (units_for bytes))"
    if "mm_rep st bs A" "freeptr st = Some f" for st bs A f
    using malloc_search [OF that pos(1) u] rep_inv by blast
  have get: "mget st f = Some (mem st f)" if "mm_rep st bs A" "freeptr st = Some f" for st bs A f
    using rep_freeptr [OF that(1)] rep_mapped_free [OF that(1)] that(2) by (auto simp: mget_def)
  show ?thesis
  proof (cases "freeptr st")
    case (Some f)
    then obtain bs where rep: "mm_rep st bs A" using inv by (auto simp: mm_inv_def)
    have "mm_malloc st bytes = malloc_loop st (units_for bytes) f (hnext (mem st f))"
      using Some pos get [OF rep Some] by (simp add: mm_malloc_def)
    with live [OF rep Some] inv show ?thesis by (fastforce simp: room_def live_frame_def)
  next
    case None
    then have A: "A = Map.empty" using inv by (simp add: mm_inv_def)
    have fr: "live_frame A st st'" for st' by (simp add: live_frame_def A Map.graph_def)
    show ?thesis
    proof (cases "room st 1025")
      case True
      then obtain st1 bs where i: "mm_init st = Some (True, st1)" "mm_rep st1 bs A" "mbrk st1 = mbrk st + 1025" "mlimit st1 = mlimit st"
        using mm_init_rep [OF inv None] by (auto simp: A)
      obtain f where f: "freeptr st1 = Some f" using rep_freeptr [OF i(2)] by blast
      have "mm_malloc st bytes = malloc_loop st1 (units_for bytes) f (hnext (mem st1 f))"
        using None pos i(1) f get [OF i(2) f] by (simp add: mm_malloc_def)
      with live [OF i(2) f] fr rep_inv [OF i(2)] i(3,4) show ?thesis by (fastforce simp: room_def)
    next
      case False
      then obtain st1 where "mm_init st = Some (False, st1)" "mm_inv st1 A" using mm_init_rep [OF inv None] by (auto simp: A)
      then have "mm_malloc st bytes = Some (None, st1)" using None pos by (simp add: mm_malloc_def)
      with \<open>mm_inv st1 A\<close> fr False show ?thesis by (auto simp: room_def)
    qed
  qed
qed

lemma mm_malloc_inv:
  assumes "mm_inv st A" and "legal_size bytes"
  shows "(\<exists>a st'. mm_malloc st bytes = Some (Some (a + 1), st') \<and> A a = None \<and> mm_inv st' (A(a \<mapsto> unat (units_for bytes))) \<and>
      live_frame A st st') \<or>
    (\<exists>st'. mm_malloc st bytes = Some (None, st') \<and> mm_inv st' A \<and> live_frame A st st' \<and>
      \<not> room st (1025 + grow_units (units_for bytes)))"
proof (rule mm_malloc_units [OF assms(1)])
  show "0 < unat (units_for bytes)" using unat_units_for(1) [OF assms(2)] by simp
  show "bytes \<noteq> 0" using assms(2) by (auto simp: legal_size_def)
  show "unat (units_for bytes) < 2 ^ 59" by (rule unat_units_for(2) [OF assms(2)])
qed

subsection \<open>Clients\<close>

text \<open>A client writes the units of its blocks.\<close>

definition mm_put :: "mm \<Rightarrow> nat \<Rightarrow> Header \<Rightarrow> mm option" where
  "mm_put st u c = mset st u (\<lambda>_. c)"

lemma mm_put_rep:
  assumes rep: "mm_rep st bs A" and a: "A a = Some s" and u: "a < u" "u < a + s"
  shows "mm_rep (st\<lparr>mem := (mem st)(u := c)\<rparr>) bs A"
proof -
  let ?st = "st\<lparr>mem := (mem st)(u := c)\<rparr>"
  have live: "u \<in> bunits (Map.graph A)" using bunitsI [of a s "Map.graph A" u] in_graphI [of A a s] a u by auto
  have node: "mem ?st (fst b) = mem st (fst b)" if "b \<in> set bs" for b using rep_node_not_live [OF rep that] live by auto
  have head: "u \<noteq> b" if "A b = Some t" for b t
  proof
    assume "u = b"
    then have "a + s \<le> b \<or> b + t \<le> a" using rep a that u unfolding mm_rep_def by blast
    then show False using \<open>u = b\<close> u by auto
  qed
  have "links ?st (map fst bs @ [fst (hd bs)])"
  proof (rule links_frame [OF rep_links [OF rep]])
    fix p assume "p \<in> set (butlast (map fst bs @ [fst (hd bs)]))"
    then obtain b where "b \<in> set bs" "p = fst b" by auto
    with node show "hnext (mem ?st p) = hnext (mem st p)" by metis
  qed
  then have "freelist ?st bs" using rep node unfolding mm_rep_def freelist_def by simp
  moreover have "\<forall>b t. A b = Some t \<longrightarrow> 0 < t \<and> unat (hsize (mem ?st b)) = t" using rep_live_sizes [OF rep] head by auto
  ultimately show ?thesis using rep unfolding mm_rep_def by simp
qed

datatype ('n, 'c) heap_op = Alloc 'n | Release nat | Put nat 'c

text \<open>A client keeps its live blocks and what it has written to them, and acts on live blocks only.\<close>

definition in_payload :: "(nat \<rightharpoonup> nat) \<Rightarrow> nat \<Rightarrow> bool" where
  "in_payload A u = list_ex (\<lambda>a. case A a of None \<Rightarrow> False | Some s \<Rightarrow> u < a + s) [0..<u]"

definition payload :: "(nat \<rightharpoonup> nat) \<Rightarrow> nat set" where
  "payload A = {u. \<exists>a s. A a = Some s \<and> a < u \<and> u < a + s}"

lemma in_payload_iff: "in_payload A u \<longleftrightarrow> u \<in> payload A"
  unfolding in_payload_def payload_def list_ex_iff by (force split: option.splits)

fun heap_step :: "('s \<Rightarrow> 'n \<Rightarrow> (nat option \<times> 's) option) \<Rightarrow> ('s \<Rightarrow> nat option \<Rightarrow> 's option) \<Rightarrow> ('s \<Rightarrow> nat \<Rightarrow> 'c \<Rightarrow> 's option) \<Rightarrow> ('n \<Rightarrow> nat) \<Rightarrow>
    's \<times> (nat \<rightharpoonup> nat) \<times> (nat \<rightharpoonup> 'c) \<Rightarrow> ('n, 'c) heap_op \<Rightarrow> ('s \<times> (nat \<rightharpoonup> nat) \<times> (nat \<rightharpoonup> 'c)) option" where
  "heap_step alloc release put need (st, A, G) (Alloc n) = do {
     (p, st) \<leftarrow> alloc st n;
     Some (case p of None \<Rightarrow> (st, A, G) | Some p \<Rightarrow> (st, A(p - 1 \<mapsto> need n), G)) }"
| "heap_step alloc release put need (st, A, G) (Release a) =
     (if A a = None then Some (st, A, G) else do { st \<leftarrow> release st (Some (a + 1)); Some (st, A(a := None), \<lambda>u. if in_payload (A(a := None)) u then G u else None) })"
| "heap_step alloc release put need (st, A, G) (Put u c) =
     (if \<not> in_payload A u then Some (st, A, G) else do { st \<leftarrow> put st u c; Some (st, A, G(u \<mapsto> c)) })"

fun heap_run :: "('s \<Rightarrow> 'n \<Rightarrow> (nat option \<times> 's) option) \<Rightarrow> ('s \<Rightarrow> nat option \<Rightarrow> 's option) \<Rightarrow> ('s \<Rightarrow> nat \<Rightarrow> 'c \<Rightarrow> 's option) \<Rightarrow> ('n \<Rightarrow> nat) \<Rightarrow>
    's \<times> (nat \<rightharpoonup> nat) \<times> (nat \<rightharpoonup> 'c) \<Rightarrow> ('n, 'c) heap_op list \<Rightarrow> ('s \<times> (nat \<rightharpoonup> nat) \<times> (nat \<rightharpoonup> 'c)) option" where
  "heap_run alloc release put need w [] = Some w"
| "heap_run alloc release put need w (opn # ops) = do { w \<leftarrow> heap_step alloc release put need w opn; heap_run alloc release put need w ops }"

locale allocator =
  fixes inv :: "'s \<Rightarrow> (nat \<rightharpoonup> nat) \<Rightarrow> bool" and cell :: "'s \<Rightarrow> nat \<Rightarrow> 'c"
    and alloc :: "'s \<Rightarrow> 'n \<Rightarrow> (nat option \<times> 's) option" and release :: "'s \<Rightarrow> nat option \<Rightarrow> 's option" and put :: "'s \<Rightarrow> nat \<Rightarrow> 'c \<Rightarrow> 's option"
    and need :: "'n \<Rightarrow> nat" and legal :: "'n \<Rightarrow> bool"
  assumes disjoint: "inv st A \<Longrightarrow> A a = Some s \<Longrightarrow> A b = Some t \<Longrightarrow> a \<noteq> b \<Longrightarrow> a + s \<le> b \<or> b + t \<le> a"
    and alloc_law: "inv st A \<Longrightarrow> legal n \<Longrightarrow>
      (\<exists>a st'. alloc st n = Some (Some (a + 1), st') \<and> A a = None \<and> inv st' (A(a \<mapsto> need n)) \<and> (\<forall>u \<in> payload A. cell st' u = cell st u)) \<or>
      (\<exists>st'. alloc st n = Some (None, st') \<and> inv st' A \<and> (\<forall>u \<in> payload A. cell st' u = cell st u))"
    and release_law: "inv st A \<Longrightarrow> A a = Some s \<Longrightarrow>
      \<exists>st'. release st (Some (a + 1)) = Some st' \<and> inv st' (A(a := None)) \<and> (\<forall>u \<in> payload (A(a := None)). cell st' u = cell st u)"
    and put_law: "inv st A \<Longrightarrow> u \<in> payload A \<Longrightarrow> \<exists>st'. put st u c = Some st' \<and> inv st' A \<and> cell st' = (cell st)(u := c)"
begin

definition consistent :: "'s \<times> (nat \<rightharpoonup> nat) \<times> (nat \<rightharpoonup> 'c) \<Rightarrow> bool" where
  "consistent w \<longleftrightarrow> (case w of (st, A, G) \<Rightarrow> inv st A \<and> dom G \<subseteq> payload A \<and> (\<forall>u c. G u = Some c \<longrightarrow> cell st u = c))"

lemma payload_grows: "A a = None \<Longrightarrow> payload A \<subseteq> payload (A(a \<mapsto> s))"
  by (fastforce simp: payload_def)

lemma step_consistent:
  assumes "consistent w" and "\<And>n. opn = Alloc n \<Longrightarrow> legal n"
  shows "\<exists>w'. heap_step alloc release put need w opn = Some w' \<and> consistent w'"
proof -
  obtain st A G where w: "w = (st, A, G)" by (cases w)
  have c: "inv st A" "dom G \<subseteq> payload A" "\<forall>u c. G u = Some c \<longrightarrow> cell st u = c" using assms(1) by (auto simp: consistent_def w)
  show ?thesis
  proof (cases opn)
    case (Alloc n)
    from alloc_law [OF c(1) assms(2) [OF Alloc]] show ?thesis
    proof (elim disjE exE conjE)
      fix a st' assume "alloc st n = Some (Some (a + 1), st')" "A a = None" "inv st' (A(a \<mapsto> need n))" "\<forall>u \<in> payload A. cell st' u = cell st u"
      with c payload_grows [of A a "need n"] show ?thesis unfolding Alloc w by (fastforce simp: consistent_def)
    next
      fix st' assume "alloc st n = Some (None, st')" "inv st' A" "\<forall>u \<in> payload A. cell st' u = cell st u"
      with c show ?thesis unfolding Alloc w by (fastforce simp: consistent_def)
    qed
  next
    case (Release a)
    show ?thesis
    proof (cases "A a")
      case None
      then show ?thesis using assms(1) by (simp add: Release w)
    next
      case (Some s)
      from release_law [OF c(1) this] c Some show ?thesis
        by (fastforce simp: Release w consistent_def in_payload_iff split: if_splits)
    qed
  next
    case (Put u d)
    then show ?thesis using put_law [OF c(1), of u d] c by (fastforce simp: w consistent_def in_payload_iff)
  qed
qed

lemma run_consistent:
  assumes "consistent w" and "\<forall>n. Alloc n \<in> set ops \<longrightarrow> legal n"
  shows "\<exists>w'. heap_run alloc release put need w ops = Some w' \<and> consistent w'"
  using assms
proof (induction ops arbitrary: w)
  case (Cons opn ops)
  obtain w1 where "heap_step alloc release put need w opn = Some w1" "consistent w1"
    using step_consistent [OF Cons.prems(1), of opn] Cons.prems(2) by fastforce
  with Cons.IH [of w1] Cons.prems(2) show ?case by simp
qed simp

end

lemma payload_live: "payload A \<subseteq> bunits (Map.graph A)"
  by (fastforce simp: payload_def bunits_def Map.graph_def)

lemma mm_free_inv:
  assumes "mm_inv st A" and "A a = Some s"
  shows "\<exists>st'. mm_free st (Some (a + 1)) = Some st' \<and> mm_inv st' (A(a := None)) \<and> live_frame (A(a := None)) st st'"
proof -
  obtain bs where "mm_rep st bs A" using assms by (auto simp: mm_inv_def split: if_splits)
  from mm_free_rep [OF this assms(2)] show ?thesis using rep_inv by blast
qed

interpretation mm: allocator mm_inv mem mm_malloc mm_free mm_put "\<lambda>bytes. unat (units_for bytes)" legal_size
proof
  fix st A a s b t assume inv: "mm_inv st A" and ab: "A a = Some s" "A b = Some t" "a \<noteq> b"
  then obtain bs where "mm_rep st bs A" by (auto simp: mm_inv_def split: if_splits)
  with ab show "a + s \<le> b \<or> b + t \<le> a" unfolding mm_rep_def by blast
next
  fix st A bytes assume "mm_inv st A" "legal_size bytes"
  from mm_malloc_inv [OF this] payload_live [of A]
  show "(\<exists>a st'. mm_malloc st bytes = Some (Some (a + 1), st') \<and> A a = None \<and> mm_inv st' (A(a \<mapsto> unat (units_for bytes))) \<and>
        (\<forall>u \<in> payload A. mem st' u = mem st u)) \<or>
      (\<exists>st'. mm_malloc st bytes = Some (None, st') \<and> mm_inv st' A \<and> (\<forall>u \<in> payload A. mem st' u = mem st u))"
    unfolding live_frame_def by blast
next
  fix st A a s assume "mm_inv st A" "A a = Some s"
  from mm_free_inv [OF this] payload_live [of "A(a := None)"]
  show "\<exists>st'. mm_free st (Some (a + 1)) = Some st' \<and> mm_inv st' (A(a := None)) \<and> (\<forall>u \<in> payload (A(a := None)). mem st' u = mem st u)"
    unfolding live_frame_def by blast
next
  fix st A u c assume inv: "mm_inv st A" and "u \<in> payload A"
  then obtain a s where a: "A a = Some s" "a < u" "u < a + s" by (auto simp: payload_def)
  with inv obtain bs where rep: "mm_rep st bs A" by (auto simp: mm_inv_def split: if_splits)
  have "mm_inv (st\<lparr>mem := (mem st)(u := c)\<rparr>) A" using rep_inv [OF mm_put_rep [OF rep a]] .
  moreover have "mapped st u" using rep_mapped_live [OF rep a(1)] a by simp
  ultimately show "\<exists>st'. mm_put st u c = Some st' \<and> mm_inv st' A \<and> mem st' = (mem st)(u := c)"
    by (simp add: mm_put_def mset_def)
qed

lemma all_free_single:
  assumes rep: "mm_rep st bs Map.empty" and more: "fst (hd bs) + 1 < mbrk st"
  shows "bs = [(fst (hd bs), 0), (fst (hd bs) + 1, mbrk st - (fst (hd bs) + 1))]"
proof -
  obtain h rest where bs: "bs = (h, 0) # rest" using rep by (cases bs) (auto simp: mm_rep_def blocks_ok_def)
  have tiles: "insert h (bunits (set rest)) = {h..<mbrk st}" using rep_tiles(2) [OF rep] by (simp add: bs Map.graph_def)
  have srt: "sorted_wrt apart bs" "\<forall>b \<in> set rest. 0 < snd b" using rep by (auto simp: mm_rep_def blocks_ok_def bs)
  have covered: "\<exists>b \<in> set rest. fst b \<le> u \<and> u < fst b + snd b" if "h < u" "u < mbrk st" for u
  proof -
    have "u \<in> bunits (set rest)" using tiles that by (metis atLeastLessThan_iff insertE less_imp_le less_irrefl)
    then obtain p s where "(p, s) \<in> set rest" "p \<le> u" "u < p + s" by (rule bunitsE)
    then show ?thesis by (intro bexI [of _ "(p, s)"]) simp_all
  qed
  obtain x ys where rest: "rest = x # ys" using covered [of "h + 1"] more by (cases rest) (auto simp: bs)
  have above: "\<forall>b \<in> set ys. fst x + snd x < fst b" "h < fst x" using srt(1) by (auto simp: bs rest apart_def)
  have x: "fst x = h + 1"
    using covered [of "h + 1"] more above by (fastforce simp: bs rest)
  have bound: "fst b + snd b \<le> mbrk st" "fst b < mbrk st" if "b \<in> set rest" for b using rep_free_bounds [OF rep, of b] that by (auto simp: bs)
  have "ys = []"
  proof (rule ccontr)
    assume "ys \<noteq> []"
    then obtain y zs where y: "ys = y # zs" by (cases ys) auto
    then have "fst x + snd x < mbrk st" "h < fst x + snd x" using above bound [of y] by (auto simp: rest)
    from covered [OF this(2,1)] show False using above by (auto simp: rest)
  qed
  moreover have "fst x + snd x = mbrk st"
  proof (rule ccontr)
    assume "fst x + snd x \<noteq> mbrk st"
    then have "fst x + snd x < mbrk st" "h < fst x + snd x" using bound [of x] above by (auto simp: rest)
    from covered [OF this(2,1)] show False using \<open>ys = []\<close> by (auto simp: rest)
  qed
  ultimately show ?thesis using x by (cases x) (auto simp: bs rest)
qed

subsection \<open>Properties\<close>

definition fresh_heap :: "mm \<Rightarrow> bool" where
  "fresh_heap st \<longleftrightarrow> freeptr st = None \<and> mstart st \<le> mbrk st \<and> mbrk st \<le> mlimit st \<and> mlimit st < 2 ^ 59"

text \<open>C3: whatever sequence of allocations, releases and writes to its own blocks a client performs, every call returns, the
  live blocks are disjoint and inside the heap, and each unit of a live block holds what the client wrote there
  last: neither the allocator nor a write to another block changes it.\<close>

theorem malloc_client_safe:
  assumes "fresh_heap st" and "\<forall>bytes. Alloc bytes \<in> set ops \<longrightarrow> legal_size bytes"
  shows "\<exists>st' A G. heap_run mm_malloc mm_free mm_put (\<lambda>bytes. unat (units_for bytes)) (st, Map.empty, Map.empty) ops = Some (st', A, G) \<and>
    (\<forall>a s b t. A a = Some s \<longrightarrow> A b = Some t \<longrightarrow> a \<noteq> b \<longrightarrow> a + s \<le> b \<or> b + t \<le> a) \<and>
    (\<forall>a s. A a = Some s \<longrightarrow> mstart st' \<le> a \<and> a + s \<le> mbrk st') \<and> (\<forall>u c. G u = Some c \<longrightarrow> mem st' u = c)"
proof -
  have "mm.consistent (st, Map.empty, Map.empty)" using assms(1) by (simp add: mm.consistent_def mm_inv_def fresh_heap_def)
  from mm.run_consistent [OF this assms(2)] obtain st' A G where
    r: "heap_run mm_malloc mm_free mm_put (\<lambda>bytes. unat (units_for bytes)) (st, Map.empty, Map.empty) ops = Some (st', A, G)"
      "mm_inv st' A" "\<forall>u c. G u = Some c \<longrightarrow> mem st' u = c" by (auto simp: mm.consistent_def)
  have "mstart st' \<le> a \<and> a + s \<le> mbrk st'" if a: "A a = Some s" for a s
  proof -
    obtain bs where "mm_rep st' bs A" using r(2) a by (auto simp: mm_inv_def split: if_splits)
    with rep_live_bounds [OF this a] show ?thesis by (simp add: mm_rep_def)
  qed
  with r mm.disjoint [OF r(2)] show ?thesis by blast
qed

definition sample_heap :: mm where
  "sample_heap = \<lparr>mem = (\<lambda>_. \<lparr>hnext = 0, hsize = 0\<rparr>), mstart = 1, mbrk = 1, mlimit = 5000, freeptr = None\<rparr>"

lemma sample_heap_fresh: "fresh_heap sample_heap"
  by (simp add: fresh_heap_def sample_heap_def)

theorem malloc_client_safe_witness:
  "\<exists>st' A G. heap_run mm_malloc mm_free mm_put (\<lambda>bytes. unat (units_for bytes)) (sample_heap, Map.empty, Map.empty)
       [Alloc 100, Put 1020 \<lparr>hnext = 7, hsize = 9\<rparr>, Alloc 20000, Release 1018] = Some (st', A, G) \<and>
     (\<forall>u c. G u = Some c \<longrightarrow> mem st' u = c)"
  using malloc_client_safe [OF sample_heap_fresh, of "[Alloc 100, Put 1020 \<lparr>hnext = 7, hsize = 9\<rparr>, Alloc 20000, Release 1018]"]
  by (fastforce simp: legal_size_def simp del: heap_run.simps)

text \<open>C17: an allocation of a size that does not wrap ends, and its block is new: it starts where no live block
  starts, holds at least the requested bytes and less than a unit more, and the blocks of others keep their
  contents.  It returns NULL only when the heap cannot grow.\<close>

theorem malloc_returns_block:
  assumes "mm_inv st A" and "legal_size bytes"
  shows "\<exists>ptr st'. mm_malloc st bytes = Some (ptr, st') \<and> live_frame A st st' \<and>
    (case ptr of
       None \<Rightarrow> mm_inv st' A \<and> \<not> room st (1025 + grow_units (units_for bytes))
     | Some p \<Rightarrow> \<exists>s. A (p - 1) = None \<and> mm_inv st' (A(p - 1 \<mapsto> s)) \<and> unat bytes \<le> 16 * (s - 1) \<and> 16 * (s - 1) < unat bytes + 16)"
proof -
  have u: "unat bytes \<le> 16 * (unat (units_for bytes) - 1)" "16 * (unat (units_for bytes) - 1) < unat bytes + 16"
    using unat_units_for(1) [OF assms(2)] by simp_all
  from mm_malloc_inv [OF assms] show ?thesis
  proof (elim disjE exE conjE)
    fix a st' assume "mm_malloc st bytes = Some (Some (a + 1), st')" "A a = None" "mm_inv st' (A(a \<mapsto> unat (units_for bytes)))"
      "live_frame A st st'"
    with u show ?thesis by (intro exI [of _ "Some (a + 1)"] exI [of _ st']) auto
  next
    fix st' assume "mm_malloc st bytes = Some (None, st')" "mm_inv st' A" "live_frame A st st'" "\<not> room st (1025 + grow_units (units_for bytes))"
    then show ?thesis by (intro exI [of _ None] exI [of _ st']) auto
  qed
qed

theorem malloc_returns_block_witness:
  "\<exists>p st' s. mm_malloc sample_heap 100 = Some (Some p, st') \<and> mm_inv st' [p - 1 \<mapsto> s] \<and> 100 \<le> 16 * (s - 1)"
proof -
  have "mm_inv sample_heap Map.empty" using sample_heap_fresh by (simp add: mm_inv_def fresh_heap_def)
  moreover have "legal_size 100" by (simp add: legal_size_def)
  moreover have "room sample_heap (1025 + grow_units (units_for 100))"
    by (simp add: room_def sample_heap_def grow_units_def unat_units_for(1) legal_size_def)
  ultimately show ?thesis using malloc_returns_block [of sample_heap Map.empty 100] by (fastforce split: option.splits)
qed

text \<open>C16: prologue, free blocks and live blocks always tile the heap, so no memory is ever lost, and no two free
  blocks are adjacent; once every block has been released the heap is one free block again.\<close>

theorem malloc_tiles_heap:
  assumes "fresh_heap st" and "\<forall>bytes. Alloc bytes \<in> set ops \<longrightarrow> legal_size bytes"
    and "heap_run mm_malloc mm_free mm_put (\<lambda>bytes. unat (units_for bytes)) (st, Map.empty, Map.empty) ops = Some (st', A, G)"
    and "freeptr st' \<noteq> None"
  shows "\<exists>bs. freelist st' bs \<and> blocks_ok bs \<and>
    insert (fst (hd bs)) (bunits (set bs) \<union> bunits (Map.graph A)) = {fst (hd bs)..<mbrk st'} \<and>
    bunits (set bs) \<inter> bunits (Map.graph A) = {} \<and>
    (A = Map.empty \<and> fst (hd bs) + 1 < mbrk st' \<longrightarrow> bs = [(fst (hd bs), 0), (fst (hd bs) + 1, mbrk st' - (fst (hd bs) + 1))])"
proof -
  have "mm.consistent (st, Map.empty, Map.empty)" using assms(1) by (simp add: mm.consistent_def mm_inv_def fresh_heap_def)
  from mm.run_consistent [OF this assms(2)] assms(3) have "mm_inv st' A" by (auto simp: mm.consistent_def)
  then obtain bs where rep: "mm_rep st' bs A" using assms(4) by (auto simp: mm_inv_def)
  have "freelist st' bs" "blocks_ok bs" using rep by (simp_all add: mm_rep_def)
  moreover have "insert (fst (hd bs)) (bunits (set bs) \<union> bunits (Map.graph A)) = {fst (hd bs)..<mbrk st'}"
      "bunits (set bs) \<inter> bunits (Map.graph A) = {}" using rep_tiles [OF rep] by auto
  moreover have "bs = [(fst (hd bs), 0), (fst (hd bs) + 1, mbrk st' - (fst (hd bs) + 1))]" if "A = Map.empty" "fst (hd bs) + 1 < mbrk st'"
    using all_free_single [of st' bs] rep that by simp
  ultimately show ?thesis by blast
qed

theorem malloc_tiles_heap_witness:
  "\<exists>st' A G bs. heap_run mm_malloc mm_free mm_put (\<lambda>bytes. unat (units_for bytes)) (sample_heap, Map.empty, Map.empty)
     [Alloc 100, Release 1018] = Some (st', A, G) \<and> freelist st' bs \<and> blocks_ok bs"
proof -
  let ?run = "heap_run mm_malloc mm_free mm_put (\<lambda>bytes. unat (units_for bytes)) (sample_heap, Map.empty, Map.empty) [Alloc 100, Release 1018]"
  have "map_option (\<lambda>w. freeptr (fst w)) ?run = Some (Some 2)" by code_simp
  then obtain st' A G where r: "?run = Some (st', A, G)" "freeptr st' \<noteq> None" by auto
  have "\<forall>bytes. Alloc bytes \<in> set [Alloc 100, Release 1018 :: (64 word, Header) heap_op] \<longrightarrow> legal_size bytes" by (simp add: legal_size_def)
  from malloc_tiles_heap [OF sample_heap_fresh this r] r(1) show ?thesis by blast
qed

text \<open>C40: the computation of the units wraps: a request for almost \<^verbatim>\<open>SIZE_MAX\<close> bytes succeeds and returns a block that is a header
  only, without a byte for the client.\<close>

theorem malloc_size_wraps:
  assumes "mm_inv st A" and "2 ^ 64 - 15 \<le> unat bytes" and "room st 2049"
  shows "\<exists>a st'. mm_malloc st bytes = Some (Some (a + 1), st') \<and> mm_inv st' (A(a \<mapsto> 1))"
proof -
  have "unat bytes < 2 ^ LENGTH(64)" by (rule unsigned_less)
  then have "(15 + unat bytes) mod 2 ^ 64 < 15" using assms(2) by (subst le_mod_geq) auto
  moreover have "unat (15 + bytes) = (15 + unat bytes) mod 2 ^ 64" by (simp add: unat_word_ariths)
  ultimately have "unat (15 + bytes) div 16 = 0" by simp
  then have "unat ((bytes + sizeof_Header - 1) div sizeof_Header) = 0" by (simp add: unat_div sizeof_Header_def)
  then have u: "units_for bytes = 1" unfolding units_for_def unsigned_eq_0_iff by simp
  have "bytes \<noteq> 0" using assms(2) by auto
  with mm_malloc_units [OF assms(1), of bytes] u assms(3) show ?thesis by (auto simp: grow_units_def)
qed

theorem malloc_size_wraps_witness:
  "\<exists>a st'. mm_malloc sample_heap (- 1) = Some (Some (a + 1), st') \<and> mm_inv st' [a \<mapsto> 1]"
proof -
  have "mm_inv sample_heap Map.empty" using sample_heap_fresh by (simp add: mm_inv_def fresh_heap_def)
  moreover have "2 ^ 64 - 15 \<le> unat (- 1 :: 64 word)" "room sample_heap 2049"
    by (simp_all add: unsigned_minus_1_eq_mask mask_eq_exp_minus_1 room_def sample_heap_def)
  ultimately show ?thesis by (rule malloc_size_wraps)
qed

text \<open>A shrinking \<^verbatim>\<open>mm_realloc\<close> frees the rest of the block without setting its size, so the size is read from the data of the
  client: here a later allocation returns a block (units 1018 to 1025) that overlaps a live one (units 1021 to 1025).\<close>

theorem realloc_shrink_overlaps:
  "do {
     (q, st) \<leftarrow> mm_malloc sample_heap 64;
     (p, st) \<leftarrow> mm_malloc st 64;
     st \<leftarrow> mm_put st 1018 \<lparr>hnext = 0, hsize = 8\<rparr>;
     (p', st) \<leftarrow> mm_realloc st p 16;
     (r, st) \<leftarrow> mm_malloc st 112;
     Some (q, p, p', r)
   } = Some (Some 1022, Some 1017, Some 1017, Some 1019)"
  by code_simp

text \<open>A growing \<^verbatim>\<open>mm_realloc\<close> copies as many bytes as the new block has, also those behind the end of the old block: growing
  the last block of the heap reads outside of it, which is undefined.\<close>

lemma realloc_grow_overreads:
  "do { (p, st) \<leftarrow> mm_malloc sample_heap 16; mm_realloc st p 1000 } = None"
  by code_simp

end
