(* ===== verification/Tokenizer.thy ===== *)
theory Tokenizer
  imports C_String
begin

text \<open>
  The tokenizer of \<^verbatim>\<open>shell/tokenizer.c\<close>: words separated by white space, with single and double quotes and a
  backslash that takes the next character as it is, also inside quotes.

  The word under construction lives in a static buffer of 4096 bytes; a line whose word fills it ends the
  process by \<^verbatim>\<open>abort\<close>, which is the value \<open>None\<close> of the model.  Memory for the words is assumed to suffice.
\<close>

datatype mode = MODE_NORMAL | MODE_SQUOTE | MODE_DQUOTE

record tokens =
  tokens_length :: nat
  tokens_vec :: "string list"
  buffers_length :: nat
  buffers_vec :: "string list"

definition n_max :: nat where
  "n_max = 4096"

text \<open>\<^verbatim>\<open>strncpy\<close> of \<open>n + 1\<close> bytes from the buffer, whose byte \<open>n\<close> has just been set to NUL.\<close>

definition copy_word :: "string \<Rightarrow> string" where
  "copy_word token = cstr token"

definition vector_push :: "tokens \<Rightarrow> string \<Rightarrow> tokens" where
  "vector_push ts w = ts\<lparr>tokens_vec := take (tokens_length ts) (tokens_vec ts) @ [w], tokens_length := tokens_length ts + 1\<rparr>"

definition end_word :: "string \<Rightarrow> tokens \<Rightarrow> tokens" where
  "end_word token ts = (if token = [] then ts else vector_push ts (copy_word token))"

text \<open>The body of the loop for the character \<open>c\<close> in front of \<open>cs\<close>: the new mode, whether the next character is
  consumed as well, the part of the buffer that is in use, and the tokens.\<close>

definition escaped :: "mode \<Rightarrow> string \<Rightarrow> string \<Rightarrow> tokens \<Rightarrow> mode \<times> bool \<times> string \<times> tokens" where
  "escaped mode cs token ts = (case cs of [] \<Rightarrow> (mode, False, token, ts) | d # ds \<Rightarrow> (mode, True, token @ [d], ts))"

definition tok_char :: "mode \<Rightarrow> char \<Rightarrow> string \<Rightarrow> string \<Rightarrow> tokens \<Rightarrow> mode \<times> bool \<times> string \<times> tokens" where
  "tok_char mode c cs token ts = (case mode of
     MODE_NORMAL \<Rightarrow>
       if c = CHR 0x27 then (MODE_SQUOTE, False, token, ts)
       else if c = CHR 0x22 then (MODE_DQUOTE, False, token, ts)
       else if c = CHR 0x5C then escaped mode cs token ts
       else if is_space c then (mode, False, [], end_word token ts)
       else (mode, False, token @ [c], ts)
   | MODE_SQUOTE \<Rightarrow>
       if c = CHR 0x27 then (MODE_NORMAL, False, token, ts)
       else if c = CHR 0x5C then escaped mode cs token ts
       else (mode, False, token @ [c], ts)
   | MODE_DQUOTE \<Rightarrow>
       if c = CHR 0x22 then (MODE_NORMAL, False, token, ts)
       else if c = CHR 0x5C then escaped mode cs token ts
       else (mode, False, token @ [c], ts))"

fun tok_loop :: "mode \<Rightarrow> string \<Rightarrow> string \<Rightarrow> tokens \<Rightarrow> (string \<times> tokens) option" where
  "tok_loop mode [] token ts = Some (token, ts)"
| "tok_loop mode (c # cs) token ts =
     (case tok_char mode c cs token ts of (mode, skip, token, ts) \<Rightarrow>
        if length token + 1 \<ge> n_max then None
        else tok_loop mode (if skip then tl cs else cs) token ts)"

definition tokenize :: "string option \<Rightarrow> tokens option option" where
  "tokenize line = (case line of
     None \<Rightarrow> Some None
   | Some line \<Rightarrow> do {
       (token, ts) \<leftarrow> tok_loop MODE_NORMAL (cstr line) [] \<lparr>tokens_length = 0, tokens_vec = [], buffers_length = 0, buffers_vec = []\<rparr>;
       Some (Some (end_word token ts))
     })"

definition tokens_get_length :: "tokens option \<Rightarrow> nat" where
  "tokens_get_length ts = (case ts of None \<Rightarrow> 0 | Some ts \<Rightarrow> tokens_length ts)"

definition tokens_get_token :: "tokens option \<Rightarrow> nat \<Rightarrow> string option" where
  "tokens_get_token ts n = (case ts of
     None \<Rightarrow> None
   | Some ts \<Rightarrow> if n \<ge> tokens_length ts then None else Some (tokens_vec ts ! n))"

text \<open>The blocks of memory a tokenized line owns, and the ones \<^verbatim>\<open>tokens_destroy\<close> frees, in its order.\<close>

datatype tokens_block = B_tokens | B_token nat | B_buffer nat | B_vector

definition tokens_blocks :: "tokens \<Rightarrow> tokens_block list" where
  "tokens_blocks ts = B_tokens # (if tokens_length ts = 0 then [] else [B_vector]) @ map B_token [0..<tokens_length ts]"

definition tokens_destroy :: "tokens option \<Rightarrow> tokens_block list" where
  "tokens_destroy ts = (case ts of
     None \<Rightarrow> []
   | Some ts \<Rightarrow> map B_token [0..<tokens_length ts] @ map B_buffer [0..<buffers_length ts] @ [B_tokens])"

subsection \<open>What the words are\<close>

lemma is_space_special: "is_space c \<Longrightarrow> c \<noteq> NUL \<and> c \<noteq> CHR 0x27 \<and> c \<noteq> CHR 0x22 \<and> c \<noteq> CHR 0x5C"
  by (auto simp: is_space_def)

definition word_ok :: "string \<Rightarrow> bool" where
  "word_ok w \<longleftrightarrow> w \<noteq> [] \<and> cstring w \<and> length w + 1 < n_max"

definition tok_ok :: "tokens \<Rightarrow> bool" where
  "tok_ok ts \<longleftrightarrow> tokens_length ts = length (tokens_vec ts) \<and> buffers_length ts = 0 \<and> buffers_vec ts = [] \<and>
     list_all word_ok (tokens_vec ts)"

abbreviation no_tokens :: tokens where
  "no_tokens \<equiv> \<lparr>tokens_length = 0, tokens_vec = [], buffers_length = 0, buffers_vec = []\<rparr>"

text \<open>The tokens that hold a list of words.\<close>

definition words_tokens :: "string list \<Rightarrow> tokens" where
  "words_tokens ws = \<lparr>tokens_length = length ws, tokens_vec = ws, buffers_length = 0, buffers_vec = []\<rparr>"

lemma words_tokens_Nil [simp]: "words_tokens [] = no_tokens"
  by (simp add: words_tokens_def)

lemma end_word_words:
  "cstring token \<Longrightarrow> end_word token (words_tokens ws) = words_tokens (ws @ (if token = [] then [] else [token]))"
  by (simp add: end_word_def vector_push_def copy_word_def words_tokens_def)

lemma tok_ok_words [simp]: "tok_ok (words_tokens ws) = list_all word_ok ws"
  by (simp add: tok_ok_def words_tokens_def)

lemma tok_ok_end_word:
  "cstring token \<Longrightarrow> length token + 1 < n_max \<Longrightarrow> list_all word_ok ws \<Longrightarrow> tok_ok (end_word token (words_tokens ws))"
  by (simp add: end_word_words word_ok_def)

lemma tok_char_words:
  assumes "cstring (c # cs)" and "cstring token" and "tok_char mode c cs token (words_tokens ws) = (mode', skip, token', ts')"
  shows "cstring token' \<and> (ts' = words_tokens ws \<or> token \<noteq> [] \<and> ts' = words_tokens (ws @ [token]))"
proof (cases "mode = MODE_NORMAL \<and> is_space c")
  case True
  then show ?thesis using assms by (auto simp: tok_char_def is_space_def end_word_words split: if_splits)
next
  case False
  then show ?thesis using assms
    by (auto simp: tok_char_def escaped_def split: mode.splits if_splits list.splits)
qed

lemma tok_loop_words:
  assumes "cstring cs" and "cstring token" and "length token + 1 < n_max" and "list_all word_ok ws"
    and "tok_loop mode cs token (words_tokens ws) = Some (token', ts')"
  shows "\<exists>ws'. ts' = words_tokens ws' \<and> cstring token' \<and> length token' + 1 < n_max \<and> list_all word_ok ws'"
  using assms
proof (induction "length cs" arbitrary: mode cs token ws rule: less_induct)
  case less
  show ?case
  proof (cases cs)
    case Nil
    then show ?thesis using less.prems by auto
  next
    case (Cons c cs')
    obtain mode1 skip token1 ts1 where t: "tok_char mode c cs' token (words_tokens ws) = (mode1, skip, token1, ts1)"
      by (cases "tok_char mode c cs' token (words_tokens ws)")
    have t1: "cstring token1" "ts1 = words_tokens ws \<or> token \<noteq> [] \<and> ts1 = words_tokens (ws @ [token])"
      using tok_char_words [of c cs' token mode ws] t less.prems(1,2) Cons by auto
    then obtain ws1 where ws1: "ts1 = words_tokens ws1" "list_all word_ok ws1" using less.prems(2-4) by (auto simp: word_ok_def)
    let ?cs = "if skip then tl cs' else cs'"
    have "cstring ?cs" "length ?cs < length cs" using less.prems(1) Cons by (cases cs'; auto)+
    with less.hyps [of ?cs token1 ws1 mode1] less.prems(5) t t1(1) ws1 Cons show ?thesis by (simp split: if_splits)
  qed
qed

subsection \<open>Reading back quoted words\<close>

text \<open>A word in single quotes, with a backslash before each quote and backslash.\<close>

definition quote_char :: "char \<Rightarrow> string" where
  "quote_char c = (if c = CHR 0x27 \<or> c = CHR 0x5C then [CHR 0x5C, c] else [c])"

definition quote :: "string \<Rightarrow> string" where
  "quote w = CHR 0x27 # concat (map quote_char w) @ [CHR 0x27]"

definition quote_line :: "string list \<Rightarrow> string" where
  "quote_line ws = concat (map (\<lambda>w. quote w @ '' '') ws)"

lemma tok_loop_quoted:
  "length token + length w + 1 < n_max \<Longrightarrow>
   tok_loop MODE_SQUOTE (concat (map quote_char w) @ rest) token ts = tok_loop MODE_SQUOTE rest (token @ w) ts"
proof (induction w arbitrary: token)
  case (Cons c w)
  have "tok_loop MODE_SQUOTE (quote_char c @ cs) token ts = tok_loop MODE_SQUOTE cs (token @ [c]) ts" for cs
    using Cons.prems by (simp add: quote_char_def tok_char_def escaped_def)
  with Cons.IH [of "token @ [c]"] Cons.prems show ?case by simp
qed simp

lemma tok_loop_quote:
  assumes "word_ok w"
  shows "tok_loop MODE_NORMAL (quote w @ CHR '' '' # rest) [] (words_tokens ws) = tok_loop MODE_NORMAL rest [] (words_tokens (ws @ [w]))"
proof -
  note w = assms [unfolded word_ok_def]
  have "tok_loop MODE_NORMAL (quote w @ CHR '' '' # rest) [] (words_tokens ws) =
      tok_loop MODE_SQUOTE (concat (map quote_char w) @ CHR 0x27 # CHR '' '' # rest) [] (words_tokens ws)"
    by (simp add: quote_def tok_char_def n_max_def)
  also have "\<dots> = tok_loop MODE_SQUOTE (CHR 0x27 # CHR '' '' # rest) w (words_tokens ws)"
    using tok_loop_quoted [of "[]" w] w by simp
  also have "\<dots> = tok_loop MODE_NORMAL rest [] (words_tokens (ws @ [w]))"
    using w by (simp add: tok_char_def is_space_def end_word_words n_max_def)
  finally show ?thesis .
qed

lemma cstring_quote: "cstring w \<Longrightarrow> cstring (quote w)"
  by (auto simp: quote_def quote_char_def cstring_def)

lemma cstring_line: "list_all word_ok ws \<Longrightarrow> cstring (quote_line ws)"
  by (induction ws) (simp_all add: quote_line_def word_ok_def cstring_quote)

lemma tok_loop_line:
  "list_all word_ok vs \<Longrightarrow>
   tok_loop MODE_NORMAL (quote_line vs) [] (words_tokens ws) = Some ([], words_tokens (ws @ vs))"
proof (induction vs arbitrary: ws)
  case (Cons w vs)
  then show ?case using tok_loop_quote [of w "quote_line vs" ws] by (simp add: quote_line_def)
qed (simp add: quote_line_def)

lemma tokenize_line:
  "list_all word_ok ws \<Longrightarrow> tokenize (Some (quote_line ws)) = Some (Some (words_tokens ws))"
  using tok_loop_line [of ws "[]"] by (simp add: tokenize_def end_word_def cstring_line)

subsection \<open>Lines without quotes\<close>

text \<open>The reference: cut at white space and drop what is empty.\<close>

fun split_words :: "string \<Rightarrow> string \<Rightarrow> string list" where
  "split_words w [] = (if w = [] then [] else [w])"
| "split_words w (c # cs) = (if is_space c then (if w = [] then [] else [w]) @ split_words [] cs else split_words (w @ [c]) cs)"

definition plain :: "char \<Rightarrow> bool" where
  "plain c \<longleftrightarrow> c \<noteq> NUL \<and> c \<noteq> CHR 0x27 \<and> c \<noteq> CHR 0x22 \<and> c \<noteq> CHR 0x5C"

lemma split_words_length: "\<forall>v \<in> set (split_words w cs). length v + 1 < n_max \<Longrightarrow> w \<noteq> [] \<Longrightarrow> length w + 1 < n_max"
proof (induction w cs rule: split_words.induct)
  case (2 w c cs)
  then show ?case by (cases "is_space c") auto
qed auto

lemma tok_loop_plain:
  assumes "list_all plain cs" and "cstring token" and "\<forall>w \<in> set (split_words token cs). length w + 1 < n_max"
  shows "\<exists>token' ws'. tok_loop MODE_NORMAL cs token (words_tokens ws) = Some (token', words_tokens ws') \<and>
    cstring token' \<and> ws' @ (if token' = [] then [] else [token']) = ws @ split_words token cs"
  using assms
proof (induction token cs arbitrary: ws rule: split_words.induct)
  case (2 w c cs)
  show ?case
  proof (cases "is_space c")
    case True
    then show ?thesis using 2(1) [OF True, of "ws @ (if w = [] then [] else [w])"] 2(3-5)
      by (auto simp: tok_char_def plain_def end_word_words n_max_def split: if_splits)
  next
    case False
    have "length (w @ [c]) + 1 < n_max" using split_words_length [of "w @ [c]" cs] 2(5) False by simp
    then show ?thesis using 2(2) [OF False, of ws] 2(3-5) False by (auto simp: tok_char_def plain_def)
  qed
qed auto

lemma tok_loop_blank: "list_all is_space line \<Longrightarrow> tok_loop MODE_NORMAL line [] ts = Some ([], ts)"
proof (induction line)
  case (Cons c line)
  then show ?case using is_space_special [of c] by (simp add: tok_char_def end_word_def n_max_def)
qed simp

lemma tokenize_blank: "list_all is_space line \<Longrightarrow> tokenize (Some line) = Some (Some no_tokens)"
proof -
  assume *: "list_all is_space line"
  then have "cstring line" using is_space_special by (auto simp: cstring_def list_all_iff)
  then show ?thesis using tok_loop_blank [OF *] by (simp add: tokenize_def end_word_def)
qed

subsection \<open>Properties\<close>


text \<open>C25: quoting can express every argument: words of at most 4094 characters that are put in single quotes, with a backslash
  before quotes and backslashes, come back unchanged and in order.\<close>

theorem tokenize_quoted:
  assumes "list_all word_ok ws"
  shows "tokenize (Some (quote_line ws)) = Some (Some (words_tokens ws))"
  using assms by (rule tokenize_line)

theorem tokenize_quoted_witness:
  "tokenize (Some (quote ''a b'' @ '' '' @ quote [CHR 0x27, CHR 0x5C] @ '' '')) = Some (Some (words_tokens [''a b'', [CHR 0x27, CHR 0x5C]]))"
  using tokenize_quoted [of "[''a b'', [CHR 0x27, CHR 0x5C]]"] by (simp add: word_ok_def n_max_def quote_line_def)

text \<open>A line without quotes and backslashes is cut at white space, as the reference function does.\<close>

lemma tokenize_plain:
  assumes "list_all plain line" and "\<forall>w \<in> set (split_words [] line). length w + 1 < n_max"
  shows "tokenize (Some line) = Some (Some (words_tokens (split_words [] line)))"
proof -
  obtain token ws where t: "tok_loop MODE_NORMAL line [] no_tokens = Some (token, words_tokens ws)" "cstring token"
      "ws @ (if token = [] then [] else [token]) = split_words [] line"
    using tok_loop_plain [OF assms(1) _ assms(2), of "[]"] by auto
  moreover have "cstring line" using assms(1) by (auto simp: cstring_def plain_def list_all_iff)
  ultimately show ?thesis by (simp add: tokenize_def end_word_words [OF t(2)] t(3))
qed

lemma tokenize_plain_witness:
  "tokenize (Some ''cat  a.txt > b'') = Some (Some (words_tokens [''cat'', ''a.txt'', ''>'', ''b'']))"
  using tokenize_plain [of "''cat  a.txt > b''"] by (simp add: plain_def is_space_def n_max_def)

text \<open>After a line with a word \<^verbatim>\<open>tokens_destroy\<close> has freed the words and the structure once each, and the vector of pointers
  is lost.\<close>

lemma tokens_destroy_leaks_vector:
  assumes "tok_ok t" and "tokens_length t \<noteq> 0"
  shows "distinct (tokens_destroy (Some t))" and "set (tokens_blocks t) - set (tokens_destroy (Some t)) = {B_vector}"
  using assms by (auto simp: tokens_destroy_def tokens_blocks_def tok_ok_def distinct_map inj_on_def)

end
