(* ===== verification/Shell.thy ===== *)
theory Shell
  imports Tokenizer Posix_Files
begin

text \<open>
  The shell of \<^verbatim>\<open>shell/shell.c\<close>: built-in commands, look-up of programs along \<^verbatim>\<open>$PATH\<close>, redirection of standard
  input or output, and the loop that reads and runs lines.

  The state is the descriptor table of the shell process, its working directory, the file system, what
  it printed, its signal dispositions and the programs it ran.  What lies outside the program is an
  argument \<open>os\<close>: the environment, directory listings, resolution of path names, whether \<^verbatim>\<open>fork\<close>
  succeeds, how many bytes a block of \<^verbatim>\<open>malloc\<close> really holds, and what an executed program does
  to the file system.  The programs are assumed not to consume the shell's own input.  The value \<open>None\<close> of
  a step is undefined behaviour or an abort: the process may die there.
\<close>

subsection \<open>Descriptors\<close>

datatype ofile = Console nat | Rd string | Wr string | Dir string

text \<open>Index \<open>i\<close> of the table is descriptor \<open>i\<close>; its length is the limit of the process.\<close>

type_synonym fdtab = "ofile option list"

fun alloc_fd :: "ofile \<Rightarrow> fdtab \<Rightarrow> (nat \<times> fdtab) option" where
  "alloc_fd d [] = None"
| "alloc_fd d (None # t) = Some (0, Some d # t)"
| "alloc_fd d (Some e # t) = map_option (\<lambda>(i, t'). (Suc i, Some e # t')) (alloc_fd d t)"

definition fd_get :: "fdtab \<Rightarrow> nat option \<Rightarrow> ofile option" where
  "fd_get t fd = (case fd of None \<Rightarrow> None | Some i \<Rightarrow> if i < length t then t ! i else None)"

text \<open>A failed call returns \<open>-1\<close>, here \<open>None\<close>, and later calls on that descriptor fail without effect.\<close>

definition open_fd :: "ofile \<Rightarrow> fdtab \<Rightarrow> nat option \<times> fdtab" where
  "open_fd d t = (case alloc_fd d t of None \<Rightarrow> (None, t) | Some (i, t') \<Rightarrow> (Some i, t'))"

definition dup :: "nat \<Rightarrow> fdtab \<Rightarrow> nat option \<times> fdtab" where
  "dup fd t = (case fd_get t (Some fd) of None \<Rightarrow> (None, t) | Some d \<Rightarrow> open_fd d t)"

definition dup2 :: "nat option \<Rightarrow> nat \<Rightarrow> fdtab \<Rightarrow> bool \<times> fdtab" where
  "dup2 old fd t = (case fd_get t old of None \<Rightarrow> (False, t) | Some d \<Rightarrow> (True, t[fd := Some d]))"

definition close_fd :: "nat option \<Rightarrow> fdtab \<Rightarrow> fdtab" where
  "close_fd fd t = (case fd of None \<Rightarrow> t | Some i \<Rightarrow> t[i := None])"

subsection \<open>State\<close>

datatype sig = SIGINT | SIGQUIT | SIGTSTP | SIGTTIN | SIGTTOU
datatype disposition = SIG_DFL | SIG_IGN

text \<open>A program image as \<^verbatim>\<open>execv\<close> receives it; the descriptors are the ones the child has at the
  \<^verbatim>\<open>fork\<close>, of which directory streams are closed on exec.\<close>

record child =
  c_path :: string
  c_argv :: "string list"
  c_fds :: fdtab
  c_sigs :: "sig \<Rightarrow> disposition"
  c_cwd :: string

record shell =
  fds :: fdtab
  cwd :: string
  sfs :: fs
  printed :: "string list"
  errors :: "string list"
  sigs :: "sig \<Rightarrow> disposition"
  runs :: "child list"
  forks :: nat
  line_num :: nat
  shell_is_interactive :: bool

record os =
  PATH :: "string option"
  listing :: "fs \<Rightarrow> string \<Rightarrow> string \<Rightarrow> string list option"
  abs_path :: "string \<Rightarrow> string \<Rightarrow> string"
  chdir_os :: "fs \<Rightarrow> string \<Rightarrow> string \<Rightarrow> string option"
  fork_ok :: "nat \<Rightarrow> bool"
  exec_os :: "child \<Rightarrow> fs \<Rightarrow> fs option"
  usable :: "nat \<Rightarrow> nat"

definition print :: "string \<Rightarrow> shell \<Rightarrow> shell" where
  "print msg s = s\<lparr>printed := printed s @ [msg]\<rparr>"

definition perror :: "string \<Rightarrow> shell \<Rightarrow> shell" where
  "perror msg s = s\<lparr>errors := errors s @ [msg]\<rparr>"

subsection \<open>Redirection\<close>

datatype io_type = INPUT | OUTPUT

record io_redirection_info =
  is_io_re :: bool
  input_or_output :: io_type

text \<open>The field the code leaves uninitialised holds some value \<open>u\<close>.\<close>

fun redirection_loop :: "io_type \<Rightarrow> nat \<Rightarrow> nat \<Rightarrow> string list \<Rightarrow> io_redirection_info \<times> bool" where
  "redirection_loop u n i [] = (\<lparr>is_io_re = False, input_or_output = u\<rparr>, False)"
| "redirection_loop u n i (w # ws) =
     (if w = ''<'' \<or> w = ''>'' then
        if int i \<noteq> int n - 2 \<or> i = 0 then (\<lparr>is_io_re = True, input_or_output = u\<rparr>, True)
        else if w = ''<'' then (\<lparr>is_io_re = True, input_or_output = INPUT\<rparr>, False)
        else (\<lparr>is_io_re = True, input_or_output = OUTPUT\<rparr>, False)
      else redirection_loop u n (i + 1) ws)"

definition get_redirection_info :: "io_type \<Rightarrow> tokens \<Rightarrow> shell \<Rightarrow> io_redirection_info \<times> shell" where
  "get_redirection_info u ts s =
     (case redirection_loop u (tokens_get_length (Some ts)) 0 (tokens_vec ts) of
        (info, bad) \<Rightarrow> (info, if bad then perror ''shell: IO redirection syntax error'' s else s))"

definition do_io_redirection :: "os \<Rightarrow> io_redirection_info \<Rightarrow> tokens \<Rightarrow> shell \<Rightarrow> nat option \<times> shell" where
  "do_io_redirection os info ts s =
     (case tokens_get_token (Some ts) (tokens_get_length (Some ts) - 1) of
        None \<Rightarrow> (None, perror [] s)
      | Some file_name \<Rightarrow>
          let p = abs_path os (cwd s) file_name in
          if input_or_output info = OUTPUT then
            (if \<not> can_create (sfs s) p then (None, perror file_name s)
             else case open_fd (Wr p) (fds s) of
               (None, t) \<Rightarrow> (None, perror file_name s)
             | (Some fd, t) \<Rightarrow>
                 let s = s\<lparr>fds := t, sfs := write_file (sfs s) p []\<rparr> in
                 case dup2 (Some fd) 1 (fds s) of
                   (False, t) \<Rightarrow> (None, perror ''dup2 error '' s)
                 | (True, t) \<Rightarrow> (Some fd, s\<lparr>fds := t\<rparr>))
          else
            (if denied (sfs s) p \<or> \<not> stat (sfs s) p then (None, perror file_name s)
             else case open_fd (Rd p) (fds s) of
               (None, t) \<Rightarrow> (None, perror file_name s)
             | (Some fd, t) \<Rightarrow>
                 let s = s\<lparr>fds := t\<rparr> in
                 case dup2 (Some fd) 0 (fds s) of
                   (False, t) \<Rightarrow> (None, perror ''dup2 error '' s)
                 | (True, t) \<Rightarrow> (Some fd, s\<lparr>fds := t\<rparr>)))"

subsection \<open>Programs along the path\<close>

text \<open>\<^verbatim>\<open>strtok\<close> with the delimiter \<open>:\<close> gives the non-empty pieces.\<close>

fun strtok_colon :: "string \<Rightarrow> string \<Rightarrow> string list" where
  "strtok_colon w [] = (if w = [] then [] else [w])"
| "strtok_colon w (c # cs) =
     (if c = CHR '':'' then (if w = [] then [] else [w]) @ strtok_colon [] cs else strtok_colon (w @ [c]) cs)"

text \<open>The array has room for 4096 pointers of 8 bytes.  \<open>None\<close>: the terminating NULL is written beyond the
  block.  \<open>Some None\<close>: the result is NULL.\<close>

definition parse_path_env :: "os \<Rightarrow> string \<Rightarrow> shell \<Rightarrow> (string list option \<times> shell) option" where
  "parse_path_env os path_env s =
     (let pathes = strtok_colon [] path_env in
      if length pathes > 4096 then Some (None, perror ''$PATH too long to parse'' s)
      else if 8 * (length pathes + 1) > usable os (8 * 4096) then None
      else Some (Some pathes, s))"

text \<open>The directory in which the program is found stays open.  \<open>None\<close>: the path does not fit in the block
  that was allocated for it.\<close>

fun resolve_path :: "os \<Rightarrow> string \<Rightarrow> string list \<Rightarrow> shell \<Rightarrow> (string option \<times> shell) option" where
  "resolve_path os path [] s = Some (None, s)"
| "resolve_path os path (dir # pathes) s =
     (case listing os (sfs s) (cwd s) dir of
        None \<Rightarrow> resolve_path os path pathes s
      | Some names \<Rightarrow>
          case open_fd (Dir dir) (fds s) of
            (None, t) \<Rightarrow> resolve_path os path pathes s
          | (Some fd, t) \<Rightarrow>
              if path \<in> set names then
                (if length dir + 1 + length path + 1 > usable os (length path + 1 + length path + 1) then None
                 else Some (Some (dir @ ''/'' @ path), s\<lparr>fds := t\<rparr>))
              else resolve_path os path pathes (s\<lparr>fds := close_fd (Some fd) t\<rparr>))"

text \<open>The look-up of a name without a slash: the program to execute, \<open>path\<close> itself when nothing is found.\<close>

definition find_program :: "os \<Rightarrow> string \<Rightarrow> shell \<Rightarrow> (string \<times> shell) option" where
  "find_program os path s =
     (if strchr path (CHR ''/'') \<noteq> None then Some (path, s)
      else case PATH os of
        None \<Rightarrow> Some (path, s)
      | Some env \<Rightarrow> do {
          (pathes, s) \<leftarrow> parse_path_env os env s;
          pathes \<leftarrow> pathes;
          (tmp, s) \<leftarrow> resolve_path os path pathes s;
          Some (case tmp of None \<Rightarrow> path | Some p \<Rightarrow> p, s)
        })"

subsection \<open>Running a program\<close>

text \<open>\<^verbatim>\<open>fork\<close>, the child up to \<^verbatim>\<open>execv\<close>, and \<^verbatim>\<open>wait\<close>.\<close>

definition fork_exec :: "os \<Rightarrow> string \<Rightarrow> string list \<Rightarrow> shell \<Rightarrow> shell" where
  "fork_exec os path argv s =
     (let s = s\<lparr>forks := forks s + 1\<rparr> in
      if \<not> fork_ok os (forks s) then perror ''fork: '' s
      else
        let c = \<lparr>c_path = path, c_argv = argv, c_fds = fds s, c_sigs = (\<lambda>_. SIG_DFL), c_cwd = cwd s\<rparr> in
        case exec_os os c (sfs s) of
          None \<Rightarrow> perror ''execv: '' s
        | Some fs \<Rightarrow> s\<lparr>sfs := fs, runs := runs s @ [c]\<rparr>)"

text \<open>The end of \<^verbatim>\<open>Execv\<close>: the redirection is taken back.\<close>

definition undo_redirection :: "io_redirection_info \<Rightarrow> nat option \<Rightarrow> nat option \<Rightarrow> nat option \<Rightarrow> shell \<Rightarrow> shell" where
  "undo_redirection info stdout_copy stdin_copy fd s =
     (if is_io_re info then
        let t = close_fd fd (fds s) in
        if input_or_output info = OUTPUT then s\<lparr>fds := snd (dup2 stdout_copy 1 t)\<rparr>
        else s\<lparr>fds := snd (dup2 stdin_copy 0 t)\<rparr>
      else s)"

text \<open>With less than two words before the redirection is taken off, NULL is written before the block of \<^verbatim>\<open>argv\<close>.\<close>

definition Execv_program ::
  "os \<Rightarrow> io_redirection_info \<Rightarrow> nat option \<Rightarrow> nat option \<Rightarrow> string \<Rightarrow> tokens \<Rightarrow> shell \<Rightarrow> shell option" where
  "Execv_program os info stdout_copy stdin_copy path ts s =
     (let args = int (tokens_get_length (Some ts));
          (fd, s) = (if is_io_re info then do_io_redirection os info ts s else (None, s));
          args = (if is_io_re info then args - 2 else args)
      in if args < 0 then None
         else Some (undo_redirection info stdout_copy stdin_copy fd
                     (fork_exec os path (take (nat args) (tokens_vec ts)) s)))"

definition Execv :: "os \<Rightarrow> io_type \<Rightarrow> tokens \<Rightarrow> shell \<Rightarrow> shell option" where
  "Execv os u ts s =
     (let (stdout_copy, t) = dup 1 (fds s);
          (stdin_copy, t) = dup 0 t;
          (info, s) = get_redirection_info u ts (s\<lparr>fds := t\<rparr>)
      in do {
        path \<leftarrow> tokens_get_token (Some ts) 0;
        (path, s) \<leftarrow> find_program os path s;
        Execv_program os info stdout_copy stdin_copy path ts s
      })"

subsection \<open>Built-in commands and the loop\<close>

datatype builtin = cmd_help | cmd_exit | cmd_pwd | cmd_cd

definition cmd_table :: "(builtin \<times> string \<times> string) list" where
  "cmd_table =
     [(cmd_help, ''?'', ''show this help menu''),
      (cmd_exit, ''exit'', ''exit the command shell''),
      (cmd_pwd, ''pwd'', ''prints the current working directory''),
      (cmd_cd, ''cd'', ''changes the current working directory to the specified directory'')]"

fun lookup_loop :: "(builtin \<times> string \<times> string) list \<Rightarrow> nat \<Rightarrow> string \<Rightarrow> nat option" where
  "lookup_loop [] i cmd = None"
| "lookup_loop ((f, name, doc) # tab) i cmd = (if name = cmd then Some i else lookup_loop tab (i + 1) cmd)"

definition lookup :: "string option \<Rightarrow> nat option" where
  "lookup cmd = (case cmd of None \<Rightarrow> None | Some cmd \<Rightarrow> lookup_loop cmd_table 0 cmd)"

definition newline :: string where
  "newline = [CHR 0x0A]"

definition run_cmd_help :: "shell \<Rightarrow> shell" where
  "run_cmd_help s = fold (\<lambda>(f, cmd, doc). print (cmd @ '' - '' @ doc @ newline)) cmd_table s"

definition run_cmd_pwd :: "shell \<Rightarrow> shell" where
  "run_cmd_pwd s = (if length (cwd s) + 1 \<le> 4096 then print (cwd s @ newline) s else perror ''pwd: '' s)"

definition run_cmd_cd :: "os \<Rightarrow> tokens \<Rightarrow> shell \<Rightarrow> shell" where
  "run_cmd_cd os ts s =
     (case tokens_get_token (Some ts) 1 of
        None \<Rightarrow> perror ''cd: '' s
      | Some path \<Rightarrow> case chdir_os os (sfs s) (cwd s) path of
          None \<Rightarrow> perror ''cd: '' s
        | Some d \<Rightarrow> s\<lparr>cwd := d\<rparr>)"

text \<open>A built-in command; the first component says that the process exits.\<close>

definition run_builtin :: "os \<Rightarrow> builtin \<Rightarrow> tokens \<Rightarrow> shell \<Rightarrow> bool \<times> shell" where
  "run_builtin os f ts s = (case f of
     cmd_help \<Rightarrow> (False, run_cmd_help s)
   | cmd_exit \<Rightarrow> (True, s)
   | cmd_pwd \<Rightarrow> (False, run_cmd_pwd s)
   | cmd_cd \<Rightarrow> (False, run_cmd_cd os ts s))"

text \<open>While another process group is in the foreground the shell stops itself; \<open>fg\<close> are the answers of
  \<^verbatim>\<open>tcgetpgrp\<close> that it sees.  \<open>None\<close>: it is still stopped when the answers end.\<close>

fun wait_foreground :: "int \<Rightarrow> int list \<Rightarrow> unit option" where
  "wait_foreground pgrp [] = None"
| "wait_foreground pgrp (g # fg) = (if g \<noteq> pgrp then wait_foreground pgrp fg else Some ())"

definition init_shell :: "bool \<Rightarrow> int \<Rightarrow> int list \<Rightarrow> shell \<Rightarrow> shell option" where
  "init_shell isatty pgrp fg s =
     (let s = s\<lparr>shell_is_interactive := isatty\<rparr> in
      if isatty then do {
        wait_foreground pgrp fg;
        Some (s\<lparr>sigs := (\<lambda>_. SIG_IGN)\<rparr>)
      }
      else Some s)"

definition prompt :: "shell \<Rightarrow> shell" where
  "prompt s = (if shell_is_interactive s then print (dec (line_num s) @ '': '') s else s)"

text \<open>The body of the loop for one line: whether the process exits, and the state.\<close>

definition shell_line :: "os \<Rightarrow> io_type \<Rightarrow> string \<Rightarrow> shell \<Rightarrow> (bool \<times> shell) option" where
  "shell_line os u line s = do {
     tokens \<leftarrow> tokenize (Some line);
     ts \<leftarrow> tokens;
     (exited, s) \<leftarrow> (case lookup (tokens_get_token (Some ts) 0) of
         Some fundex \<Rightarrow> Some (run_builtin os (fst (cmd_table ! fundex)) ts s)
       | None \<Rightarrow> map_option (\<lambda>s. (False, s)) (Execv os u ts s));
     Some (exited, if exited then s
       else if shell_is_interactive s then prompt (s\<lparr>line_num := line_num s + 1\<rparr>) else s)
   }"

text \<open>\<^verbatim>\<open>fgets\<close> with room for 4095 characters.\<close>

fun fgets_line :: "nat \<Rightarrow> string \<Rightarrow> string \<times> string" where
  "fgets_line 0 input = ([], input)"
| "fgets_line (Suc n) [] = ([], [])"
| "fgets_line (Suc n) (c # input) =
     (if c = CHR 0x0A then ([c], input) else apfst ((#) c) (fgets_line n input))"

lemma fgets_line_length: "length (snd (fgets_line n input)) \<le> length input"
  by (induction n input rule: fgets_line.induct) (auto simp: le_SucI)

lemma fgets_line_append: "fst (fgets_line n input) @ snd (fgets_line n input) = input"
  by (induction n input rule: fgets_line.induct) auto

lemma fgets_line_less:
  assumes "input \<noteq> []" and "0 < n"
  shows "length (snd (fgets_line n input)) < length input"
proof -
  obtain c cs m where "input = c # cs" "n = Suc m" using assms by (cases input; cases n) auto
  then show ?thesis using fgets_line_length [of m cs] by simp
qed

function shell_loop :: "os \<Rightarrow> io_type \<Rightarrow> string \<Rightarrow> shell \<Rightarrow> shell option" where
  "shell_loop os u input s =
     (if input = [] then Some s
      else case fgets_line 4095 input of (line, rest) \<Rightarrow>
        case shell_line os u line s of
          None \<Rightarrow> None
        | Some (True, s) \<Rightarrow> Some s
        | Some (False, s) \<Rightarrow> shell_loop os u rest s)"
  by pat_completeness auto
termination
proof (relation "measure (\<lambda>(os, u, input, s). length input)")
  fix input :: string and line rest
  assume "input \<noteq> []" "(line, rest) = fgets_line 4095 input"
  then have "length rest < length input" using fgets_line_less [of input 4095] by (metis snd_conv zero_less_numeral)
  then show "((os, u, rest, s'), (os, u, input, s)) \<in> measure (\<lambda>(os, u, input, s). length input)" for os u s s'
    by simp
qed simp

declare shell_loop.simps [simp del]

definition shell_main :: "os \<Rightarrow> io_type \<Rightarrow> bool \<Rightarrow> int \<Rightarrow> int list \<Rightarrow> string \<Rightarrow> shell \<Rightarrow> shell option" where
  "shell_main os u isatty pgrp fg input s = do {
     s \<leftarrow> init_shell isatty pgrp fg s;
     shell_loop os u input (prompt (s\<lparr>line_num := 0\<rparr>))
   }"

subsection \<open>Descriptor tables\<close>

lemma alloc_fd_Some:
  "alloc_fd d t = Some (i, t') \<Longrightarrow> i < length t \<and> t ! i = None \<and> (\<forall>j < i. t ! j \<noteq> None) \<and> t' = t[i := Some d]"
proof (induction d t arbitrary: i t' rule: alloc_fd.induct)
  case (3 d e t)
  from 3(2) obtain k t1 where k: "alloc_fd d t = Some (k, t1)" "i = Suc k" "t' = Some e # t1" by auto
  from 3(1) [OF k(1)] k show ?case by (auto simp: nth_Cons split: nat.splits)
qed auto

definition full :: "fdtab \<Rightarrow> bool" where
  "full t \<longleftrightarrow> None \<notin> set t"

lemma alloc_fd_None: "alloc_fd d t = None \<longleftrightarrow> full t"
  by (induction d t rule: alloc_fd.induct) (auto simp: full_def)

text \<open>A table with the entries of another and perhaps more.\<close>

definition extends :: "fdtab \<Rightarrow> fdtab \<Rightarrow> bool" where
  "extends t t' \<longleftrightarrow> length t' = length t \<and> (\<forall>i < length t. t ! i \<noteq> None \<longrightarrow> t' ! i = t ! i)"

lemma extends_refl [simp]: "extends t t"
  by (simp add: extends_def)

lemma extends_trans [trans]: "extends t t' \<Longrightarrow> extends t' t'' \<Longrightarrow> extends t t''"
  by (simp add: extends_def)

lemma extends_update: "t ! i = None \<Longrightarrow> extends t (t[i := e])"
  by (cases "i < length t") (auto simp: extends_def nth_list_update)

lemma extends_full: "extends t t' \<Longrightarrow> full t \<Longrightarrow> t' = t"
  by (auto simp: extends_def full_def in_set_conv_nth intro!: nth_equalityI)

lemma extends_fd_get: "extends t t' \<Longrightarrow> fd_get t fd = Some d \<Longrightarrow> fd_get t' fd = Some d"
  by (auto simp: extends_def fd_get_def split: option.splits if_splits)

lemma open_fd_cases:
  obtains "full t" "open_fd d t = (None, t)"
  | i where "i < length t" "t ! i = None" "open_fd d t = (Some i, t[i := Some d])"
proof (cases "alloc_fd d t")
  case None
  then show ?thesis using that(1) alloc_fd_None [of d t] by (simp add: open_fd_def)
next
  case (Some r)
  then obtain i t' where r: "alloc_fd d t = Some (i, t')" by (cases r) auto
  show ?thesis using that(2) [of i] alloc_fd_Some [OF r] r by (simp add: open_fd_def)
qed

lemma open_fd_extends: "extends t (snd (open_fd d t))"
  by (cases rule: open_fd_cases [of t d]) (auto intro: extends_update)

lemma open_fd_get: "open_fd d t = (Some i, t') \<Longrightarrow> fd_get t' (Some i) = Some d"
  by (cases rule: open_fd_cases [of t d]) (auto simp: fd_get_def)

lemma dup_extends: "extends t (snd (dup fd t))"
  by (simp add: dup_def open_fd_extends split: option.splits)

lemma dup_get: "dup fd t = (Some i, t') \<Longrightarrow> fd_get t' (Some i) = fd_get t (Some fd)"
  by (auto simp: dup_def dest: open_fd_get split: option.splits)

lemma dup_None: "dup fd t = (None, t') \<Longrightarrow> fd_get t (Some fd) \<noteq> None \<Longrightarrow> full t \<and> t' = t"
  by (cases rule: open_fd_cases [of t "the (fd_get t (Some fd))"]) (auto simp: dup_def)

definition open_count :: "fdtab \<Rightarrow> nat" where
  "open_count t = length (filter (\<lambda>e. e \<noteq> None) t)"

lemma open_count_le: "open_count t \<le> length t"
  by (simp add: open_count_def)

lemma open_count_full: "open_count t = length t \<longleftrightarrow> full t"
proof (induction t)
  case (Cons e t)
  then show ?case using open_count_le [of t]
    by (cases e) (simp_all add: open_count_def full_def not_le [THEN iffD1] less_imp_neq le_imp_less_Suc)
qed (simp add: open_count_def full_def)

lemma open_count_update: "i < length t \<Longrightarrow> t ! i = None \<Longrightarrow> open_count (t[i := Some d]) = open_count t + 1"
  by (induction t arbitrary: i) (auto simp: open_count_def nth_Cons split: nat.splits)

lemma open_count_extends: "extends t t' \<Longrightarrow> open_count t \<le> open_count t'"
proof (induction t t' rule: list_induct2')
  case (4 e t e' t')
  then have "extends t t'" "e \<noteq> None \<longrightarrow> e' = e" by (fastforce simp: extends_def)+
  with 4 show ?case by (auto simp: open_count_def)
qed (auto simp: extends_def open_count_def)

lemma dup_count:
  "fd_get t (Some fd) \<noteq> None \<Longrightarrow> min (length t) (open_count t + 1) \<le> open_count (snd (dup fd t))"
  by (cases rule: open_fd_cases [of t "the (fd_get t (Some fd))"])
    (auto simp: dup_def open_count_update open_count_full [THEN iffD2])

lemma dup_count_le: "open_count (snd (dup fd t)) \<le> open_count t + 1"
  by (cases rule: open_fd_cases [of t "the (fd_get t (Some fd))"])
    (auto simp: dup_def open_count_update split: option.splits)

subsection \<open>Running a program keeps the standard streams\<close>

definition std_fds :: "fdtab \<Rightarrow> bool" where
  "std_fds t \<longleftrightarrow> 3 \<le> length t \<and> (\<forall>i < 3. t ! i = Some (Console i))"

lemma std_fds_conv: "std_fds t \<longleftrightarrow> (\<exists>r. t = Some (Console 0) # Some (Console 1) # Some (Console 2) # r)"
proof
  assume t: "std_fds t"
  then obtain a b c r where r: "t = a # b # c # r" by (auto simp: std_fds_def numeral_eq_Suc Suc_le_length_iff)
  moreover have "t ! 0 = Some (Console 0)" "t ! 1 = Some (Console 1)" "t ! 2 = Some (Console 2)"
    using t by (simp_all add: std_fds_def)
  ultimately show "\<exists>r. t = Some (Console 0) # Some (Console 1) # Some (Console 2) # r" by simp
qed (auto simp: std_fds_def less_Suc_eq numeral_eq_Suc)

lemma std_fds_extends: "std_fds t \<Longrightarrow> extends t t' \<Longrightarrow> std_fds t'"
  by (auto simp: std_fds_def extends_def)

lemma std_fds_get: "std_fds t \<Longrightarrow> i < 3 \<Longrightarrow> fd_get t (Some i) = Some (Console i)"
  by (simp add: std_fds_def fd_get_def)

lemma perror_simps [simp]:
  "fds (perror m s) = fds s" "cwd (perror m s) = cwd s" "sfs (perror m s) = sfs s" "runs (perror m s) = runs s"
  "sigs (perror m s) = sigs s" "printed (perror m s) = printed s" "forks (perror m s) = forks s"
  by (simp_all add: perror_def)

lemma print_simps [simp]:
  "fds (print m s) = fds s" "cwd (print m s) = cwd s" "sfs (print m s) = sfs s" "runs (print m s) = runs s"
  "sigs (print m s) = sigs s" "errors (print m s) = errors s" "forks (print m s) = forks s"
  by (simp_all add: print_def)

text \<open>What the look-up of a program may change.\<close>

definition only_opens :: "shell \<Rightarrow> shell \<Rightarrow> bool" where
  "only_opens s s' \<longleftrightarrow> extends (fds s) (fds s') \<and> runs s' = runs s \<and> cwd s' = cwd s \<and> sfs s' = sfs s \<and>
     sigs s' = sigs s \<and> printed s' = printed s \<and> forks s' = forks s"

lemma only_opens_refl [simp]: "only_opens s s"
  by (simp add: only_opens_def)

lemma only_opens_perror [simp]: "only_opens s (perror m s)"
  by (simp add: only_opens_def)

lemma only_opens_fds: "extends (fds s) t \<Longrightarrow> only_opens s (s\<lparr>fds := t\<rparr>)"
  by (simp add: only_opens_def)

lemma only_opens_trans [trans]: "only_opens s s' \<Longrightarrow> only_opens s' s'' \<Longrightarrow> only_opens s s''"
  by (auto simp: only_opens_def dest: extends_trans)

lemma resolve_path_only_opens: "resolve_path os path ds s = Some (r, s') \<Longrightarrow> only_opens s s'"
proof (induction ds arbitrary: s)
  case (Cons dir ds)
  show ?case
  proof (cases "listing os (sfs s) (cwd s) dir")
    case None
    then show ?thesis using Cons by simp
  next
    case (Some names)
    show ?thesis
    proof (cases rule: open_fd_cases [of "fds s" "Dir dir"])
      case 1
      then show ?thesis using Cons Some by simp
    next
      case (2 i)
      then have "only_opens s (s\<lparr>fds := (fds s)[i := Some (Dir dir)]\<rparr>)" "only_opens s (s\<lparr>fds := (fds s)[i := None]\<rparr>)"
        by (auto intro: only_opens_fds extends_update)
      with 2 Some Cons.prems Cons.IH [of "s\<lparr>fds := (fds s)[i := None]\<rparr>"] show ?thesis
        by (auto simp: close_fd_def split: if_splits intro: only_opens_trans)
    qed
  qed
qed simp

lemma find_program_only_opens: "find_program os path s = Some (r, s') \<Longrightarrow> only_opens s s'"
  by (auto simp: find_program_def parse_path_env_def Let_def bind_eq_Some_conv
      dest!: resolve_path_only_opens split: if_splits option.splits)

lemma get_redirection_info_only_opens: "get_redirection_info u ts s = (info, s') \<Longrightarrow> only_opens s s' \<and> fds s' = fds s"
  by (auto simp: get_redirection_info_def split: prod.splits if_splits)

text \<open>Redirection either leaves the descriptors alone or fills a free one and the standard one.\<close>

definition redirected :: "io_type \<Rightarrow> string \<Rightarrow> nat \<Rightarrow> fdtab \<Rightarrow> fdtab" where
  "redirected io p i t = (case io of OUTPUT \<Rightarrow> t[i := Some (Wr p), 1 := Some (Wr p)] | INPUT \<Rightarrow> t[i := Some (Rd p), 0 := Some (Rd p)])"

lemma do_io_redirection_cases:
  assumes "do_io_redirection os info ts s = (fd, s')"
  shows "runs s' = runs s \<and> cwd s' = cwd s \<and> sigs s' = sigs s \<and>
    (fd = None \<and> fds s' = fds s \<or>
     (\<exists>i p. fd = Some i \<and> i < length (fds s) \<and> fds s ! i = None \<and> fds s' = redirected (input_or_output info) p i (fds s)))"
proof (cases "tokens_get_token (Some ts) (tokens_get_length (Some ts) - 1)")
  case None
  then show ?thesis using assms by (auto simp: do_io_redirection_def)
next
  case (Some f)
  let ?p = "abs_path os (cwd s) f"
  let ?d = "case input_or_output info of OUTPUT \<Rightarrow> Wr ?p | INPUT \<Rightarrow> Rd ?p"
  show ?thesis
  proof (cases rule: open_fd_cases [of "fds s" ?d])
    case 1
    then show ?thesis using assms Some
      by (cases "input_or_output info") (auto simp: do_io_redirection_def Let_def split: if_splits)
  next
    case (2 i)
    then show ?thesis using assms Some
      by (cases "input_or_output info")
        (auto simp: do_io_redirection_def Let_def dup2_def fd_get_def redirected_def split: if_splits)
  qed
qed

text \<open>Undoing it: the table is as it was.\<close>

lemma three_le: "3 \<le> i \<longleftrightarrow> (\<exists>k. i = Suc (Suc (Suc k)))"
  by presburger

lemma std_fds_free: "std_fds t \<Longrightarrow> t ! i = None \<Longrightarrow> 3 \<le> i"
  by (rule ccontr) (auto simp: std_fds_def)

lemma dup_fresh: "dup fd t = (Some j, t') \<Longrightarrow> t ! j = None"
  by (cases rule: open_fd_cases [of t "the (fd_get t (Some fd))"]) (auto simp: dup_def split: option.splits)

abbreviation stream :: "io_type \<Rightarrow> nat" where
  "stream io \<equiv> (case io of OUTPUT \<Rightarrow> 1 | INPUT \<Rightarrow> 0)"

lemma redirected_restored:
  assumes "std_fds t" and "i < length t" and "t ! i = None"
    and "fd_get t (Some j) = Some (Console (stream io))" and "3 \<le> j"
  shows "snd (dup2 (Some j) (stream io) (close_fd (Some i) (redirected io p i t))) = t"
proof -
  obtain r where r: "t = Some (Console 0) # Some (Console 1) # Some (Console 2) # r" using assms(1) by (auto simp: std_fds_conv)
  obtain k l where k: "i = Suc (Suc (Suc k))" and l: "j = Suc (Suc (Suc l))"
    using std_fds_free [OF assms(1,3)] assms(5) by (auto simp: three_le)
  have "k \<noteq> l" "r[k := None] = r" using assms(2-4) r k l by (auto simp: fd_get_def list_update_same_conv split: if_splits)
  then show ?thesis using assms(4) r k l
    by (cases io) (auto simp: redirected_def close_fd_def dup2_def fd_get_def split: if_splits)
qed

text \<open>The descriptors a program is started with.\<close>

definition child_ok :: "child \<Rightarrow> bool" where
  "child_ok c \<longleftrightarrow> 3 \<le> length (c_fds c) \<and> c_fds c ! 2 = Some (Console 2) \<and>
     (c_fds c ! 0 = Some (Console 0) \<and> (c_fds c ! 1 = Some (Console 1) \<or> (\<exists>p. c_fds c ! 1 = Some (Wr p))) \<or>
      c_fds c ! 1 = Some (Console 1) \<and> (\<exists>p. c_fds c ! 0 = Some (Rd p))) \<and>
     c_sigs c = (\<lambda>_. SIG_DFL)"

text \<open>The program that one line may have started.\<close>

definition at_most_one_run :: "fdtab \<Rightarrow> shell \<Rightarrow> shell \<Rightarrow> bool" where
  "at_most_one_run t s s' \<longleftrightarrow>
     (runs s' = runs s \<or> (\<exists>c. runs s' = runs s @ [c] \<and> c_fds c = t \<and> c_sigs c = (\<lambda>_. SIG_DFL)))"

lemma fork_exec_run: "fds (fork_exec os path argv s) = fds s \<and> at_most_one_run (fds s) s (fork_exec os path argv s)"
  by (simp add: fork_exec_def at_most_one_run_def Let_def split: option.splits)

lemma child_ok_std: "std_fds (c_fds c) \<Longrightarrow> c_sigs c = (\<lambda>_. SIG_DFL) \<Longrightarrow> child_ok c"
  by (simp add: std_fds_def child_ok_def)

lemma child_ok_redirected:
  "std_fds t \<Longrightarrow> t ! i = None \<Longrightarrow> c_fds c = redirected io p i t \<Longrightarrow> c_sigs c = (\<lambda>_. SIG_DFL) \<Longrightarrow> child_ok c"
  using std_fds_free [of t i]
  by (cases io) (auto simp: std_fds_conv child_ok_def redirected_def three_le numeral_2_eq_2)

text \<open>A copy of a standard stream: it is there unless the table is full.\<close>

definition is_copy :: "nat \<Rightarrow> nat option \<Rightarrow> fdtab \<Rightarrow> bool" where
  "is_copy n copy t \<longleftrightarrow> copy = None \<and> full t \<or> (\<exists>j. copy = Some j \<and> 3 \<le> j \<and> fd_get t copy = Some (Console n))"

lemma dup_is_copy:
  assumes "std_fds t" and "n < 3" and "dup n t = (copy, t')"
  shows "is_copy n copy t'"
proof (cases copy)
  case None
  then show ?thesis using dup_None [of n t] assms std_fds_get [OF assms(1,2)] by (simp add: is_copy_def)
next
  case (Some j)
  then show ?thesis using dup_get [of n t j] dup_fresh [of n t j] std_fds_free [OF assms(1), of j] assms std_fds_get [OF assms(1,2)]
    by (simp add: is_copy_def)
qed

lemma is_copy_extends: "is_copy n copy t \<Longrightarrow> extends t t' \<Longrightarrow> is_copy n copy t'"
  using extends_full [of t t'] extends_fd_get [of t t'] by (auto simp: is_copy_def)

lemma redirection_undone:
  assumes "std_fds t" and "is_copy (stream io) copy t" and "i < length t" and "t ! i = None"
  shows "snd (dup2 copy (stream io) (close_fd (Some i) (redirected io p i t))) = t"
proof -
  have "\<not> full t" using assms(3,4) nth_mem [of i t] by (auto simp: full_def)
  then obtain j where "copy = Some j" "3 \<le> j" "fd_get t (Some j) = Some (Console (stream io))"
    using assms(2) by (auto simp: is_copy_def)
  then show ?thesis using redirected_restored [OF assms(1,3,4)] by simp
qed

lemma no_redirection_undone:
  assumes "std_fds t" and "is_copy (stream io) copy t"
  shows "snd (dup2 copy (stream io) t) = t"
proof -
  have "t[stream io := Some (Console (stream io))] = t" using assms(1) by (cases io) (auto simp: std_fds_conv)
  then show ?thesis using assms(2) by (cases copy) (auto simp: is_copy_def dup2_def fd_get_def)
qed

lemma Execv_program_streams:
  assumes std: "std_fds (fds s)" and copies: "is_copy 1 oc (fds s)" "is_copy 0 ic (fds s)"
    and "Execv_program os info oc ic path ts s = Some s'"
  shows "fds s' = fds s \<and> (runs s' = runs s \<or> (\<exists>c. runs s' = runs s @ [c] \<and> child_ok c))"
proof -
  let ?copy = "case input_or_output info of OUTPUT \<Rightarrow> oc | INPUT \<Rightarrow> ic"
  have copy: "is_copy (stream (input_or_output info)) ?copy (fds s)" using copies by (cases "input_or_output info") auto
  obtain fd s3 where r: "(if is_io_re info then do_io_redirection os info ts s else (None, s)) = (fd, s3)"
    by (cases "if is_io_re info then do_io_redirection os info ts s else (None, s)")
  obtain argv where s': "s' = undo_redirection info oc ic fd (fork_exec os path argv s3)"
    using assms(4) r by (auto simp: Execv_program_def Let_def split: if_splits)
  let ?s4 = "fork_exec os path argv s3"
  have undo: "fds s' = (if is_io_re info then snd (dup2 ?copy
      (stream (input_or_output info)) (close_fd fd (fds s3))) else fds s3)" "runs s' = runs ?s4"
    using s' fork_exec_run [of os path argv s3]
    by (auto simp: undo_redirection_def Let_def split: io_type.splits)
  note run = fork_exec_run [of os path argv s3, unfolded at_most_one_run_def]
  consider (plain) "fds s3 = fds s" "runs s3 = runs s" "fd = None"
    | (redirected) i p where "is_io_re info" "fd = Some i" "i < length (fds s)" "fds s ! i = None"
        "fds s3 = redirected (input_or_output info) p i (fds s)" "runs s3 = runs s"
    using r do_io_redirection_cases [of os info ts s fd s3] by (auto split: if_splits)
  then show ?thesis
  proof cases
    case plain
    then show ?thesis using undo run no_redirection_undone [OF std copy] child_ok_std std by (auto simp: close_fd_def)
  next
    case redirected
    then show ?thesis using undo run redirection_undone [OF std copy] child_ok_redirected [OF std] by auto
  qed
qed

lemma Execv_streams:
  assumes "std_fds (fds s)" and "Execv os u ts s = Some s'"
  shows "extends (fds s) (fds s') \<and> min (length (fds s)) (open_count (fds s) + 2) \<le> open_count (fds s') \<and>
    (runs s' = runs s \<or> (\<exists>c. runs s' = runs s @ [c] \<and> child_ok c))"
proof -
  obtain oc t1 where t1: "dup 1 (fds s) = (oc, t1)" by fastforce
  obtain ic t2 where t2: "dup 0 t1 = (ic, t2)" by fastforce
  obtain info s1 where s1: "get_redirection_info u ts (s\<lparr>fds := t2\<rparr>) = (info, s1)" by fastforce
  obtain p path s2 where s2: "find_program os p s1 = Some (path, s2)" and x: "Execv_program os info oc ic path ts s2 = Some s'"
    using assms(2) t1 t2 s1 by (auto simp: Execv_def bind_eq_Some_conv)
  have e: "extends (fds s) t1" "extends t1 t2" using dup_extends [of "fds s" 1] dup_extends [of t1 0] t1 t2 by auto
  have e2: "extends t2 (fds s2)" "runs s2 = runs s"
    using get_redirection_info_only_opens [OF s1] find_program_only_opens [OF s2] by (auto simp: only_opens_def)
  have std: "std_fds t1" "std_fds (fds s2)" using assms(1) e e2 std_fds_extends by blast+
  have c: "is_copy 1 oc (fds s2)" "is_copy 0 ic (fds s2)"
    using dup_is_copy [OF assms(1) _ t1] dup_is_copy [OF std(1) _ t2] is_copy_extends e(2) e2(1)
    by (meson extends_trans one_less_numeral_iff semiring_norm(77) zero_less_numeral)+
  have "min (length (fds s)) (open_count (fds s) + 1) \<le> open_count t1" "min (length t1) (open_count t1 + 1) \<le> open_count t2"
    using dup_count [of "fds s" 1] dup_count [of t1 0] t1 t2 std_fds_get [OF assms(1), of 1] std_fds_get [OF std(1), of 0] by auto
  moreover have "length t1 = length (fds s)" using e(1) by (simp add: extends_def)
  ultimately have "min (length (fds s)) (open_count (fds s) + 2) \<le> open_count (fds s2)"
    using open_count_extends [OF e2(1)] by linarith
  moreover have "extends (fds s) (fds s2)" using e e2(1) extends_trans by blast
  ultimately show ?thesis using Execv_program_streams [OF std(2) c x] e2(2) by simp
qed

subsection \<open>Sessions\<close>

definition shell_inv :: "nat \<Rightarrow> shell \<Rightarrow> bool" where
  "shell_inv n s \<longleftrightarrow> std_fds (fds s) \<and> length (fds s) = n \<and> list_all child_ok (runs s) \<and>
     min n (3 + 2 * length (runs s)) \<le> open_count (fds s)"

lemma shell_inv_init: "std_fds (fds s) \<Longrightarrow> runs s = [] \<Longrightarrow> shell_inv (length (fds s)) s"
  by (auto simp: shell_inv_def std_fds_conv open_count_def)

lemma Execv_inv:
  assumes "shell_inv n s" and "Execv os u ts s = Some s'"
  shows "shell_inv n s'"
proof -
  have s: "std_fds (fds s)" using assms(1) by (simp add: shell_inv_def)
  note x = Execv_streams [OF s assms(2)]
  have l: "length (fds s') = length (fds s)" using x by (auto simp: extends_def)
  have "open_count (fds s) \<le> length (fds s)" by (rule open_count_le)
  then show ?thesis using assms(1) x l std_fds_extends [OF s] by (auto simp: shell_inv_def)
qed

lemma prompt_simps [simp]: "fds (prompt s) = fds s" "runs (prompt s) = runs s"
  by (simp_all add: prompt_def)

lemma run_cmd_help_simps [simp]: "fds (run_cmd_help s) = fds s" "runs (run_cmd_help s) = runs s"
  by (simp_all add: run_cmd_help_def cmd_table_def)

lemma run_builtin_frame: "run_builtin os f ts s = (b, s') \<Longrightarrow> fds s' = fds s \<and> runs s' = runs s"
  by (cases f) (auto simp: run_builtin_def run_cmd_pwd_def run_cmd_cd_def split: option.splits if_splits)

lemma shell_line_inv:
  assumes "shell_inv n s" and "shell_line os u line s = Some (b, s')"
  shows "shell_inv n s'"
proof -
  obtain ts s1 where "(case lookup (tokens_get_token (Some ts) 0) of
         Some fundex \<Rightarrow> Some (run_builtin os (fst (cmd_table ! fundex)) ts s)
       | None \<Rightarrow> map_option (\<lambda>s. (False, s)) (Execv os u ts s)) = Some (b, s1)"
      and s': "fds s' = fds s1" "runs s' = runs s1"
    using assms(2) by (fastforce simp: shell_line_def bind_eq_Some_conv split: if_splits)
  then consider "Execv os u ts s = Some s1" | f where "run_builtin os f ts s = (b, s1)" by (auto split: option.splits)
  then have "shell_inv n s1"
  proof cases
    case 1
    then show ?thesis using assms(1) by (rule Execv_inv [rotated])
  next
    case (2 f)
    then show ?thesis using assms(1) run_builtin_frame [OF 2] by (simp add: shell_inv_def)
  qed
  then show ?thesis using s' by (simp add: shell_inv_def)
qed

lemma shell_loop_inv:
  "shell_inv n s \<Longrightarrow> shell_loop os u input s = Some s' \<Longrightarrow> shell_inv n s'"
proof (induction os u input s rule: shell_loop.induct)
  case (1 os u input s)
  show ?case
  proof (cases "input = []")
    case True
    then show ?thesis using 1(2,3) by (simp add: shell_loop.simps)
  next
    case False
    obtain line rest where l: "fgets_line 4095 input = (line, rest)" by fastforce
    obtain b s1 where s1: "shell_line os u line s = Some (b, s1)"
      using 1(3) False l by (auto simp: shell_loop.simps [of os u input] split: option.splits)
    have "shell_inv n s1" using shell_line_inv [OF 1(2) s1] .
    then show ?thesis using 1(1) [OF False l [symmetric] s1, of b s1] 1(3) False l s1
      by (cases b) (auto simp: shell_loop.simps [of os u input])
  qed
qed

lemma init_shell_frame: "init_shell isatty pgrp fg s = Some s' \<Longrightarrow> fds s' = fds s \<and> runs s' = runs s"
  by (auto simp: init_shell_def Let_def bind_eq_Some_conv split: if_splits)

lemma shell_main_inv:
  assumes "std_fds (fds s)" and "runs s = []" and "shell_main os u isatty pgrp fg input s = Some s'"
  shows "shell_inv (length (fds s)) s'"
proof -
  obtain s1 where s1: "init_shell isatty pgrp fg s = Some s1" "shell_loop os u input (prompt (s1\<lparr>line_num := 0\<rparr>)) = Some s'"
    using assms(3) by (auto simp: shell_main_def bind_eq_Some_conv)
  have "shell_inv (length (fds s)) (prompt (s1\<lparr>line_num := 0\<rparr>))"
    using shell_inv_init [OF assms(1,2)] init_shell_frame [OF s1(1)] by (simp add: shell_inv_def)
  then show ?thesis using s1(2) by (rule shell_loop_inv)
qed

subsection \<open>A command with its output redirected\<close>

lemma redirection_loop_append:
  "''<'' \<notin> set ws \<Longrightarrow> ''>'' \<notin> set ws \<Longrightarrow> redirection_loop u n i (ws @ r) = redirection_loop u n (i + length ws) r"
  by (induction ws arbitrary: i) auto

text \<open>The words of a command with its output redirected to \<open>f\<close>.\<close>

definition output_to :: "string list \<Rightarrow> string \<Rightarrow> string list" where
  "output_to ws f = ws @ [''>'', f]"

definition simple_command :: "string list \<Rightarrow> bool" where
  "simple_command ws \<longleftrightarrow> ws \<noteq> [] \<and> ''<'' \<notin> set ws \<and> ''>'' \<notin> set ws \<and> CHR ''/'' \<in> set (hd ws)"

lemma get_redirection_info_output:
  "simple_command ws \<Longrightarrow>
   get_redirection_info u (words_tokens (output_to ws f)) s = (\<lparr>is_io_re = True, input_or_output = OUTPUT\<rparr>, s)"
  by (simp add: simple_command_def get_redirection_info_def words_tokens_def tokens_get_length_def output_to_def
      redirection_loop_append)

lemma find_program_slash: "simple_command ws \<Longrightarrow> find_program os (hd ws) s = Some (hd ws, s)"
  by (simp add: simple_command_def find_program_def strchr_None_iff)

lemma tokens_output:
  assumes "simple_command ws"
  shows "tokens_get_token (Some (words_tokens (output_to ws f))) 0 = Some (hd ws)"
    and "tokens_get_token (Some (words_tokens (output_to ws f))) (Suc (length ws)) = Some f"
    and "tokens_get_length (Some (words_tokens (output_to ws f))) = length ws + 2"
    and "take (length ws) (tokens_vec (words_tokens (output_to ws f))) = ws"
  using assms by (auto simp: simple_command_def tokens_get_token_def tokens_get_length_def words_tokens_def output_to_def nth_append hd_conv_nth)

lemma Execv_output:
  assumes "simple_command ws" and "dup 1 (fds s) = (oc, t1)" and "dup 0 t1 = (ic, t2)"
  shows "Execv os u (words_tokens (output_to ws f)) s =
    (case do_io_redirection os \<lparr>is_io_re = True, input_or_output = OUTPUT\<rparr> (words_tokens (output_to ws f)) (s\<lparr>fds := t2\<rparr>) of
       (fd, s3) \<Rightarrow> Some (undo_redirection \<lparr>is_io_re = True, input_or_output = OUTPUT\<rparr> oc ic fd (fork_exec os (hd ws) ws s3)))"
  using assms(2,3)
  by (simp add: Execv_def get_redirection_info_output [OF assms(1)] tokens_output [OF assms(1)]
      find_program_slash [OF assms(1)] Execv_program_def Let_def split: prod.splits)

text \<open>With room for three descriptors the program gets the file.\<close>

lemma Execv_output_redirected:
  assumes std: "std_fds (fds s)" and room: "open_count (fds s) + 3 \<le> length (fds s)" and "simple_command ws"
    and "can_create (sfs s) (abs_path os (cwd s) f)"
  shows "\<exists>t i. std_fds t \<and> t ! i = None \<and> i < length t \<and>
    Execv os u (words_tokens (output_to ws f)) s =
      Some ((fork_exec os (hd ws) ws
        (s\<lparr>fds := redirected OUTPUT (abs_path os (cwd s) f) i t, sfs := write_file (sfs s) (abs_path os (cwd s) f) []\<rparr>))\<lparr>fds := t\<rparr>)"
proof -
  let ?p = "abs_path os (cwd s) f"
  obtain oc t1 where t1: "dup 1 (fds s) = (oc, t1)" by fastforce
  obtain ic t2 where t2: "dup 0 t1 = (ic, t2)" by fastforce
  have e: "extends (fds s) t1" "extends t1 t2" using dup_extends [of "fds s" 1] dup_extends [of t1 0] t1 t2 by auto
  then have std1: "std_fds t1" "std_fds t2" using std std_fds_extends by blast+
  have c: "is_copy 1 oc t2" using dup_is_copy [OF std _ t1] is_copy_extends e(2) by simp
  have "length t2 = length (fds s)" using e by (simp add: extends_def)
  moreover have "open_count t2 \<le> open_count (fds s) + 2" using dup_count_le [of 1 "fds s"] dup_count_le [of 0 t1] t1 t2 by simp
  ultimately have nf: "\<not> full t2" using room by (auto simp flip: open_count_full)
  obtain i where i: "i < length t2" "t2 ! i = None" "open_fd (Wr ?p) t2 = (Some i, t2[i := Some (Wr ?p)])"
    using nf by (cases rule: open_fd_cases [of t2 "Wr ?p"]) auto
  have "do_io_redirection os \<lparr>is_io_re = True, input_or_output = OUTPUT\<rparr> (words_tokens (output_to ws f)) (s\<lparr>fds := t2\<rparr>) =
      (Some i, s\<lparr>fds := redirected OUTPUT ?p i t2, sfs := write_file (sfs s) ?p []\<rparr>)"
    using i assms(4) by (simp add: do_io_redirection_def tokens_output [OF assms(3)] Let_def dup2_def fd_get_def redirected_def)
  then show ?thesis using i std1(2) redirection_undone [OF std1(2), of OUTPUT oc i ?p] c fork_exec_run
    by (intro exI [of _ t2] exI [of _ i]) (simp add: Execv_output [OF assms(3) t1 t2] undo_redirection_def Let_def)
qed

text \<open>With a full table it keeps the terminal.\<close>

lemma dup_full: "full t \<Longrightarrow> dup fd t = (None, t)"
  by (simp add: dup_def open_fd_def alloc_fd_None [THEN iffD2] split: option.splits)

lemma Execv_output_full:
  assumes "full (fds s)" and "simple_command ws"
  shows "Execv os u (words_tokens (output_to ws f)) s = Some (fork_exec os (hd ws) ws (perror f s))"
proof -
  have "do_io_redirection os \<lparr>is_io_re = True, input_or_output = OUTPUT\<rparr> (words_tokens (output_to ws f)) s = (None, perror f s)"
    using assms(1) by (simp add: do_io_redirection_def tokens_output [OF assms(2)] Let_def open_fd_def alloc_fd_None [THEN iffD2])
  then show ?thesis
    using Execv_output [OF assms(2) dup_full [OF assms(1)] dup_full [OF assms(1)]]
    by (simp add: undo_redirection_def close_fd_def dup2_def fd_get_def Let_def)
qed

subsection \<open>Two look-ups that go wrong\<close>

text \<open>The block for the path of a program is sized by its name twice instead of its directory and its name: when the block
  is no larger than asked for, a program in a directory with a longer name is written beyond it.\<close>

lemma resolve_path_overflow:
  assumes "listing os (sfs s) (cwd s) dir = Some names" and "path \<in> set names" and "length path < length dir"
    and "\<not> full (fds s)" and "usable os = id"
  shows "resolve_path os path (dir # pathes) s = None"
  using assms by (cases rule: open_fd_cases [of "fds s" "Dir dir"]) auto

text \<open>After a syntax error the command still runs, without its last two words, and the last word is opened.\<close>

lemma syntax_error_still_runs:
  "get_redirection_info u (words_tokens [''/p'', ''>'', ''a'', ''b'']) s =
     (\<lparr>is_io_re = True, input_or_output = u\<rparr>, perror ''shell: IO redirection syntax error'' s)"
  by (simp add: get_redirection_info_def words_tokens_def tokens_get_length_def)

subsection \<open>Lines\<close>

lemma lookup_slash: "CHR ''/'' \<in> set w \<Longrightarrow> lookup (Some w) = None"
  by (auto simp: lookup_def cmd_table_def)

lemma shell_line_output:
  assumes "simple_command ws" and "list_all word_ok ws" and "word_ok f"
  shows "shell_line os u (quote_line (output_to ws f)) s =
    map_option (\<lambda>s. (False, if shell_is_interactive s then prompt (s\<lparr>line_num := line_num s + 1\<rparr>) else s))
      (Execv os u (words_tokens (output_to ws f)) s)"
proof -
  have "tokenize (Some (quote_line (output_to ws f))) = Some (Some (words_tokens (output_to ws f)))"
    using assms(2,3) by (intro tokenize_line) (simp add: output_to_def word_ok_def n_max_def)
  then show ?thesis using assms(1) lookup_slash [of "hd ws"]
    by (cases "Execv os u (words_tokens (output_to ws f)) s")
      (simp_all add: shell_line_def tokens_output [OF assms(1)] simple_command_def)
qed

subsection \<open>Properties\<close>

text \<open>C19: over a whole session, whatever its lines, programs and failures are, the shell's own standard input, output and
  error stay what they were, and every program is started with the shell's standard error, default signal handling, and
  at most one of standard input and output redirected, to a file opened for that direction.\<close>

theorem shell_session_streams:
  assumes "std_fds (fds s)" and "runs s = []" and "shell_main os u isatty pgrp fg input s = Some s'"
  shows "std_fds (fds s') \<and> list_all child_ok (runs s')"
  using shell_main_inv [OF assms] by (simp add: shell_inv_def)

text \<open>A system for the witnesses: \<^verbatim>\<open>/d\<close> is the only directory, and every program writes one line to its standard output when
  that is a file.\<close>

definition demo_fs :: fs where
  "demo_fs = \<lparr>dirs = (\<lambda>d. d = ''/d''), files = (\<lambda>_. None), denied = (\<lambda>_. False)\<rparr>"

definition demo_run :: "child \<Rightarrow> fs \<Rightarrow> fs" where
  "demo_run c fs = (case c_fds c ! 1 of Some (Wr p) \<Rightarrow> write_file fs p ''done'' | _ \<Rightarrow> fs)"

definition demo_os :: os where
  "demo_os = \<lparr>PATH = None, listing = (\<lambda>_ _ _. None), abs_path = (\<lambda>d p. d @ ''/'' @ p), chdir_os = (\<lambda>_ _ _. None),
     fork_ok = (\<lambda>_. True), exec_os = (\<lambda>c fs. Some (demo_run c fs)), usable = id\<rparr>"

definition demo_shell :: "nat \<Rightarrow> shell" where
  "demo_shell n = \<lparr>fds = [Some (Console 0), Some (Console 1), Some (Console 2)] @ replicate n None, cwd = ''/d'', sfs = demo_fs,
     printed = [], errors = [], sigs = (\<lambda>_. SIG_DFL), runs = [], forks = 0, line_num = 0, shell_is_interactive = False\<rparr>"

lemmas demo_simps = demo_os_def demo_shell_def demo_fs_def std_fds_conv

lemmas shell_eval = shell_main_def init_shell_def prompt_def shell_loop.simps shell_line_def tokenize_def tok_char_def end_word_def
  vector_push_def copy_word_def lookup_def cmd_table_def tokens_get_token_def tokens_get_length_def Execv_def Execv_program_def
  dup_def open_fd_def fd_get_def get_redirection_info_def find_program_def strchr_def fork_exec_def undo_redirection_def
  n_max_def is_space_def cstr_def newline_def Let_def

definition demo_line :: string where
  "demo_line = ''/p'' @ newline"

lemma demo_session:
  "\<exists>s. shell_main demo_os INPUT False 0 [] demo_line (demo_shell 2) = Some s \<and> length (runs s) = 1"
  by (auto simp: demo_line_def demo_os_def demo_shell_def shell_eval numeral_eq_Suc)

theorem shell_session_streams_witness:
  "\<exists>s. shell_main demo_os INPUT False 0 [] demo_line (demo_shell 2) = Some s \<and> length (runs s) = 1 \<and>
     std_fds (fds s) \<and> list_all child_ok (runs s)"
proof -
  obtain s where s: "shell_main demo_os INPUT False 0 [] demo_line (demo_shell 2) = Some s" "length (runs s) = 1"
    using demo_session by blast
  then show ?thesis using shell_session_streams [OF _ _ s(1)] by (auto simp: demo_simps)
qed

text \<open>C22: a line that gives a program by its path, with arguments and the output redirected to a file that can be created,
  runs that program once with exactly those arguments and the emptied file as its standard output; its effect on the file
  system is the only one besides, and the shell's own output is restored.\<close>

theorem shell_redirects_output:
  assumes "std_fds (fds s)" and "open_count (fds s) + 3 \<le> length (fds s)"
    and "simple_command ws" and "list_all word_ok ws" and "word_ok f"
    and "can_create (sfs s) (abs_path os (cwd s) f)" and "fork_ok os (forks s + 1)"
    and "\<forall>c. c_path c = hd ws \<longrightarrow> c_argv c = ws \<longrightarrow> exec_os os c (write_file (sfs s) (abs_path os (cwd s) f) []) = Some (run c)"
  shows "\<exists>s' c. shell_line os u (quote_line (output_to ws f)) s = Some (False, s') \<and>
    runs s' = runs s @ [c] \<and> c_path c = hd ws \<and> c_argv c = ws \<and> c_cwd c = cwd s \<and>
    c_fds c ! 1 = Some (Wr (abs_path os (cwd s) f)) \<and> c_fds c ! 0 = Some (Console 0) \<and> c_fds c ! 2 = Some (Console 2) \<and>
    sfs s' = run c \<and> std_fds (fds s')"
proof -
  let ?p = "abs_path os (cwd s) f"
  obtain t i where t: "std_fds t" "t ! i = None" "i < length t" and
    x: "Execv os u (words_tokens (output_to ws f)) s = Some ((fork_exec os (hd ws) ws
        (s\<lparr>fds := redirected OUTPUT ?p i t, sfs := write_file (sfs s) ?p []\<rparr>))\<lparr>fds := t\<rparr>)"
    using Execv_output_redirected [OF assms(1-3,6)] by blast
  have "redirected OUTPUT ?p i t ! 1 = Some (Wr ?p) \<and> redirected OUTPUT ?p i t ! 0 = Some (Console 0) \<and>
      redirected OUTPUT ?p i t ! 2 = Some (Console 2)"
    using t(1) std_fds_free [OF t(1,2)] by (auto simp: std_fds_conv redirected_def three_le numeral_2_eq_2)
  then show ?thesis using t(1) assms(7,8)
    by (simp add: shell_line_output [OF assms(3-5)] x fork_exec_def Let_def prompt_def)
qed

theorem shell_redirects_output_witness:
  "\<exists>s' c. shell_line demo_os INPUT (quote_line (output_to [''/p'', ''a b''] ''o'')) (demo_shell 3) = Some (False, s') \<and>
    runs s' = [c] \<and> c_argv c = [''/p'', ''a b''] \<and> c_fds c ! 1 = Some (Wr ''/d/o'')"
proof -
  have "can_create (sfs (demo_shell 3)) (abs_path demo_os (cwd (demo_shell 3)) ''o'')"
    by (simp add: demo_simps can_create_def parent_def)
  then show ?thesis
    using shell_redirects_output [of "demo_shell 3" "[''/p'', ''a b'']" "''o''" demo_os
        "\<lambda>c. demo_run c (write_file demo_fs ''/d/o'' [])" INPUT]
    by (fastforce simp: demo_os_def demo_shell_def std_fds_conv open_count_def simple_command_def word_ok_def n_max_def)
qed

text \<open>Each program the shell starts costs two descriptors of the shell for good.  Once the programs it has run have used
  up the limit of the process, a command whose output is redirected still runs, with the terminal as its standard
  output, and no file is created.\<close>

theorem shell_exhausts_descriptors:
  assumes "std_fds (fds s0)" and "runs s0 = []" and "shell_main os u isatty pgrp fg input s0 = Some s"
    and "length (fds s0) \<le> 3 + 2 * length (runs s)" and "simple_command ws" and "fork_ok os (forks s + 1)"
    and "\<forall>c. c_path c = hd ws \<longrightarrow> c_argv c = ws \<longrightarrow> exec_os os c (sfs s) = Some (run c)"
  shows "\<exists>s' c. Execv os u (words_tokens (output_to ws f)) s = Some s' \<and> runs s' = runs s @ [c] \<and> c_argv c = ws \<and>
    c_fds c ! 1 = Some (Console 1) \<and> sfs s' = run c"
proof -
  note inv = shell_main_inv [OF assms(1-3), unfolded shell_inv_def]
  then have "open_count (fds s) = length (fds s)" using open_count_le [of "fds s"] assms(4) by auto
  then have "full (fds s)" by (simp add: open_count_full)
  then show ?thesis using inv assms(6,7)
    by (simp add: Execv_output_full [OF _ assms(5)] fork_exec_def Let_def std_fds_def)
qed

theorem shell_exhausts_descriptors_witness:
  "\<exists>s s' c. shell_main demo_os INPUT False 0 [] demo_line (demo_shell 2) = Some s \<and>
    Execv demo_os INPUT (words_tokens (output_to [''/p''] ''o'')) s = Some s' \<and> runs s' = runs s @ [c] \<and> c_fds c ! 1 = Some (Console 1)"
proof -
  obtain s where s: "shell_main demo_os INPUT False 0 [] demo_line (demo_shell 2) = Some s" "length (runs s) = 1"
    using demo_session by blast
  have "std_fds (fds (demo_shell 2))" "runs (demo_shell 2) = []" "length (fds (demo_shell 2)) \<le> 3 + 2 * length (runs s)"
    using s(2) by (simp_all add: demo_simps)
  then show ?thesis
    using shell_exhausts_descriptors [OF _ _ s(1), of "[''/p'']" "\<lambda>c. demo_run c (sfs s)" "''o''"] s(1)
    by (fastforce simp: demo_os_def simple_command_def)
qed

text \<open>An empty or blank line is undefined behaviour: the shell looks for a slash in the name of a program that is NULL.\<close>

lemma shell_blank_line_crashes:
  assumes "list_all is_space line"
  shows "shell_line os u line s = None"
  using tokenize_blank [OF assms]
  by (simp add: shell_line_def tokens_get_token_def lookup_def Execv_def split: prod.splits)

lemma shell_blank_line_crashes_witness: "shell_line demo_os INPUT newline (demo_shell 2) = None"
  by (rule shell_blank_line_crashes) (simp add: newline_def is_space_def)

end
