(* ===== verification/Robust_IO.thy ===== *)
theory Robust_IO
  imports C_String
begin

text \<open>
  The buffered reader and the writer of \<^verbatim>\<open>httpserver/src/yng_request.c\<close> (\<^verbatim>\<open>rio_readinitb\<close>, \<^verbatim>\<open>rio_read\<close>,
  \<^verbatim>\<open>rio_readlineb\<close>, \<^verbatim>\<open>rio_writen\<close>).

  What the successive calls of \<^verbatim>\<open>read\<close> on the socket return is a list of events; when the list ends the peer has
  closed the connection.  The main result is that the lines read depend on the bytes only, not on how
  they are cut into packets nor on interruptions.
\<close>

datatype read_event = Data "char list" | Interrupted | Failed

text \<open>\<open>rio_rest\<close> are the bytes of the internal buffer from \<^verbatim>\<open>rio_bufptr\<close> on.\<close>

record rio_t =
  rio_fd :: int
  rio_cnt :: int
  rio_rest :: "char list"

definition RIO_BUFSIZE :: nat where
  "RIO_BUFSIZE = 8192"

definition rio_readinitb :: "int \<Rightarrow> rio_t" where
  "rio_readinitb fd = \<lparr>rio_fd = fd, rio_cnt = 0, rio_rest = []\<rparr>"

text \<open>The loop that refills the buffer; \<open>Some rc\<close> is an early return.  A packet larger than the buffer is taken in
  parts.\<close>

fun rio_refill :: "rio_t \<Rightarrow> read_event list \<Rightarrow> int option \<times> rio_t \<times> read_event list" where
  "rio_refill rp [] = (if rio_cnt rp \<le> 0 then (Some 0, rp\<lparr>rio_cnt := 0\<rparr>, []) else (None, rp, []))"
| "rio_refill rp (e # es) =
     (if rio_cnt rp \<le> 0 then
        case e of
          Interrupted \<Rightarrow> rio_refill (rp\<lparr>rio_cnt := -1\<rparr>) es
        | Failed \<Rightarrow> (Some (-1), rp\<lparr>rio_cnt := -1\<rparr>, es)
        | Data bs \<Rightarrow>
            if bs = [] then (Some 0, rp\<lparr>rio_cnt := 0\<rparr>, es)
            else (None, rp\<lparr>rio_cnt := int (length (take RIO_BUFSIZE bs)), rio_rest := take RIO_BUFSIZE bs\<rparr>,
                  if drop RIO_BUFSIZE bs = [] then es else Data (drop RIO_BUFSIZE bs) # es)
      else (None, rp, e # es))"

definition rio_read :: "rio_t \<Rightarrow> nat \<Rightarrow> read_event list \<Rightarrow> int \<times> char list \<times> rio_t \<times> read_event list" where
  "rio_read rp n es = (case rio_refill rp es of
     (Some rc, rp, es) \<Rightarrow> (rc, [], rp, es)
   | (None, rp, es) \<Rightarrow>
       let cnt = (if rio_cnt rp < int n then nat (rio_cnt rp) else n) in
       (int cnt, take cnt (rio_rest rp), rp\<lparr>rio_rest := drop cnt (rio_rest rp), rio_cnt := rio_cnt rp - int cnt\<rparr>, es))"

text \<open>A user buffer is the list of its leading bytes that have been written.\<close>

definition overwrite :: "char list \<Rightarrow> char list \<Rightarrow> char list" where
  "overwrite bs buf = bs @ drop (length bs) buf"

text \<open>The loop with \<open>k\<close> characters left, \<open>acc\<close> read so far.\<close>

fun readlineb_loop :: "nat \<Rightarrow> char list \<Rightarrow> rio_t \<Rightarrow> char list \<Rightarrow> read_event list \<Rightarrow> int \<times> char list \<times> rio_t \<times> read_event list" where
  "readlineb_loop 0 acc rp buf es = (int (length acc) + 1, overwrite (acc @ [NUL]) buf, rp, es)"
| "readlineb_loop (Suc k) acc rp buf es =
     (case rio_read rp 1 es of (rc, bs, rp, es) \<Rightarrow>
        if rc = 1 then
          (if hd bs = CHR 0x0A then (int (length acc) + 1, overwrite (acc @ bs @ [NUL]) buf, rp, es)
           else readlineb_loop k (acc @ bs) rp buf es)
        else if rc = 0 then
          (if acc = [] then (0, buf, rp, es)
           else (int (length acc) + 1, overwrite (acc @ [NUL]) buf, rp, es))
        else (-1, overwrite acc buf, rp, es))"

definition rio_readlineb :: "rio_t \<Rightarrow> char list \<Rightarrow> nat \<Rightarrow> read_event list \<Rightarrow> int \<times> char list \<times> rio_t \<times> read_event list" where
  "rio_readlineb rp usrbuf maxlen es = readlineb_loop (maxlen - 1) [] rp usrbuf es"

text \<open>The successive results of \<^verbatim>\<open>write\<close> are an argument; the result is the return value and the bytes that went out.\<close>

fun writen_loop :: "int list \<Rightarrow> char list \<Rightarrow> char list \<Rightarrow> int \<Rightarrow> (int \<times> char list) option" where
  "writen_loop ws sent [] n = Some (n, sent)"
| "writen_loop [] sent bufp n = None"
| "writen_loop (w # ws) sent bufp n =
     (if w \<le> 0 then Some (-1, sent) else writen_loop ws (sent @ take (nat w) bufp) (drop (nat w) bufp) n)"

definition rio_writen :: "int list \<Rightarrow> char list \<Rightarrow> (int \<times> char list) option" where
  "rio_writen ws usrbuf = writen_loop ws [] usrbuf (int (length usrbuf))"

subsection \<open>The reader delivers the stream\<close>

definition rio_ok :: "rio_t \<Rightarrow> bool" where
  "rio_ok rp \<longleftrightarrow> rio_cnt rp \<le> int (length (rio_rest rp))"

fun bytes :: "read_event list \<Rightarrow> char list" where
  "bytes [] = []"
| "bytes (Data bs # es) = bs @ bytes es"
| "bytes (e # es) = bytes es"

text \<open>Events of a connection without errors: no failing read, and the end of file only at the end.\<close>

definition healthy :: "read_event list \<Rightarrow> bool" where
  "healthy es \<longleftrightarrow> Failed \<notin> set es \<and> Data [] \<notin> set es"

definition unread :: "rio_t \<Rightarrow> read_event list \<Rightarrow> char list" where
  "unread rp es = take (nat (rio_cnt rp)) (rio_rest rp) @ bytes es"

lemma rio_refill_spec:
  assumes "rio_ok rp" and "healthy es" and "rio_refill rp es = (r, rp', es')"
  shows "rio_ok rp' \<and> healthy es' \<and> unread rp' es' = unread rp es \<and>
    (if unread rp es = [] then r = Some 0 else r = None \<and> 0 < rio_cnt rp')"
  using assms
proof (induction rp es rule: rio_refill.induct)
  case (1 rp)
  then show ?case by (auto simp: unread_def rio_ok_def split: if_splits)
next
  case (2 rp e es)
  show ?case
  proof (cases "rio_cnt rp \<le> 0")
    case False
    then show ?thesis using 2(2-4) by (auto simp: unread_def rio_ok_def)
  next
    case True
    show ?thesis
    proof (cases e)
      case (Data bs)
      have "RIO_BUFSIZE \<noteq> 0" by (simp add: RIO_BUFSIZE_def)
      then show ?thesis using 2(2-4) True Data
        by (auto simp: unread_def rio_ok_def healthy_def min_def split: if_splits)
    next
      case Interrupted
      then show ?thesis using 2(1) [OF True] 2(2-4) True by (auto simp: unread_def rio_ok_def healthy_def)
    next
      case Failed
      then show ?thesis using 2(3) by (simp add: healthy_def)
    qed
  qed
qed

lemma rio_read_1_spec:
  assumes "rio_ok rp" and "healthy es"
  shows "case unread rp es of
      [] \<Rightarrow> (\<exists>rp' es'. rio_read rp 1 es = (0, [], rp', es') \<and> rio_ok rp' \<and> healthy es' \<and> unread rp' es' = [])
    | c # s \<Rightarrow> (\<exists>rp' es'. rio_read rp 1 es = (1, [c], rp', es') \<and> rio_ok rp' \<and> healthy es' \<and> unread rp' es' = s)"
proof -
  obtain r rp' es' where r: "rio_refill rp es = (r, rp', es')" by (cases "rio_refill rp es")
  note spec = rio_refill_spec [OF assms r]
  show ?thesis
  proof (cases "unread rp es")
    case Nil
    then show ?thesis using spec r by (auto simp: rio_read_def)
  next
    case (Cons c s)
    then have p: "r = None" "0 < rio_cnt rp'" "rio_ok rp'" "unread rp' es' = c # s" using spec by auto
    obtain m where m: "nat (rio_cnt rp') = Suc m" using p(2) by (metis Suc_pred' zero_less_nat_eq)
    then obtain x xs where x: "rio_rest rp' = x # xs" using p(2,3) by (cases "rio_rest rp'") (auto simp: rio_ok_def)
    have "nat (rio_cnt rp' - 1) = m" using m by simp
    then show ?thesis using Cons p r x m spec by (auto simp: rio_read_def unread_def rio_ok_def Let_def)
  qed
qed

text \<open>The reference: the line of at most \<open>k\<close> characters at the front of a stream.\<close>

fun line_of :: "nat \<Rightarrow> char list \<Rightarrow> char list" where
  "line_of 0 s = []"
| "line_of (Suc k) [] = []"
| "line_of (Suc k) (c # s) = c # (if c = CHR 0x0A then [] else line_of k s)"

definition line_result :: "char list \<Rightarrow> int" where
  "line_result l = (if l \<noteq> [] \<and> last l = CHR 0x0A then int (length l) else int (length l) + 1)"

lemma last_neq: "c \<notin> set l \<Longrightarrow> l \<noteq> [] \<Longrightarrow> last l \<noteq> c"
  using last_in_set by metis

lemma line_result_cut: "CHR 0x0A \<notin> set l \<Longrightarrow> line_result l = int (length l) + 1"
  by (cases "l = []") (auto simp: line_result_def dest: last_neq)

lemma line_of_lf: "CHR 0x0A \<notin> set l \<Longrightarrow> length l < k \<Longrightarrow> line_of k (l @ CHR 0x0A # r) = l @ [CHR 0x0A]"
proof (induction l arbitrary: k)
  case Nil
  then show ?case by (cases k) auto
next
  case (Cons c l)
  then show ?case by (cases k) auto
qed

lemma line_of_take: "CHR 0x0A \<notin> set (take k s) \<Longrightarrow> line_of k s = take k s"
  by (induction k s rule: line_of.induct) auto

lemma readlineb_loop_spec:
  assumes "rio_ok rp" and "healthy es" and "CHR 0x0A \<notin> set acc" and "acc \<noteq> [] \<or> unread rp es \<noteq> [] \<or> k = 0"
  shows "\<exists>rp' es'. readlineb_loop k acc rp buf es =
      (line_result (acc @ line_of k (unread rp es)), overwrite (acc @ line_of k (unread rp es) @ [NUL]) buf, rp', es') \<and>
    rio_ok rp' \<and> healthy es' \<and> unread rp' es' = drop (length (line_of k (unread rp es))) (unread rp es)"
  using assms
proof (induction k arbitrary: acc rp es)
  case 0
  then show ?case by (simp add: line_result_cut)
next
  case (Suc k)
  show ?case
  proof (cases "unread rp es")
    case Nil
    then show ?thesis using rio_read_1_spec [OF Suc.prems(1,2)] Suc.prems(3,4) by (auto simp: line_result_cut)
  next
    case (Cons c s)
    then obtain rp' es' where r: "rio_read rp 1 es = (1, [c], rp', es')" "rio_ok rp'" "healthy es'" "unread rp' es' = s"
      using rio_read_1_spec [OF Suc.prems(1,2)] by auto
    show ?thesis
    proof (cases "c = CHR 0x0A")
      case True
      then show ?thesis using r Cons by (auto simp: line_result_def)
    next
      case False
      then show ?thesis using Suc.IH [OF r(2,3), of "acc @ [c]"] Suc.prems(3) r Cons by simp
    qed
  qed
qed

lemma rio_readlineb_eof:
  assumes "rio_ok rp" and "healthy es" and "unread rp es = []" and "1 < maxlen"
  shows "\<exists>rp' es'. rio_readlineb rp buf maxlen es = (0, buf, rp', es') \<and> rio_ok rp' \<and> healthy es' \<and> unread rp' es' = []"
proof -
  obtain k where "maxlen - 1 = Suc k" using assms(4) by (cases "maxlen - 1") auto
  then show ?thesis using rio_read_1_spec [OF assms(1,2)] assms(3) by (auto simp: rio_readlineb_def)
qed

lemma rio_readlineb_line:
  assumes "rio_ok rp" and "healthy es" and "unread rp es = s" and "s \<noteq> []"
  shows "\<exists>rp' es'. rio_readlineb rp buf maxlen es =
      (line_result (line_of (maxlen - 1) s), overwrite (line_of (maxlen - 1) s @ [NUL]) buf, rp', es') \<and>
    rio_ok rp' \<and> healthy es' \<and> unread rp' es' = drop (length (line_of (maxlen - 1) s)) s"
  using readlineb_loop_spec [OF assms(1,2), of "[]" "maxlen - 1" buf] assms(3,4) by (simp add: rio_readlineb_def)

subsection \<open>The interface to a line reader\<close>

text \<open>What the request handler relies on: a source of lines with a state that says what is still to come.\<close>

locale line_reader =
  fixes ready :: "'s \<Rightarrow> bool"
    and pending :: "'s \<Rightarrow> char list"
    and getline :: "'s \<Rightarrow> char list \<Rightarrow> nat \<Rightarrow> int \<times> char list \<times> 's"
  assumes getline_line: "ready s \<Longrightarrow> pending s \<noteq> [] \<Longrightarrow>
      \<exists>s'. getline s buf n = (line_result (line_of (n - 1) (pending s)), overwrite (line_of (n - 1) (pending s) @ [NUL]) buf, s') \<and>
        ready s' \<and> pending s' = drop (length (line_of (n - 1) (pending s))) (pending s)"
    and getline_eof: "ready s \<Longrightarrow> pending s = [] \<Longrightarrow> 1 < n \<Longrightarrow>
      \<exists>s'. getline s buf n = (0, buf, s') \<and> ready s' \<and> pending s' = []"
begin

text \<open>A complete line.\<close>

lemma getline_lf:
  assumes "ready s" and "pending s = l @ CHR 0x0A # r" and "CHR 0x0A \<notin> set l" and "length l + 1 < n"
  shows "\<exists>s'. getline s buf n = (int (length l) + 1, overwrite ((l @ [CHR 0x0A]) @ [NUL]) buf, s') \<and> ready s' \<and> pending s' = r"
proof -
  have "line_of (n - 1) (l @ CHR 0x0A # r) = l @ [CHR 0x0A]" using assms(3,4) by (intro line_of_lf) auto
  then show ?thesis using getline_line [OF assms(1), of buf n] assms(2) by (auto simp: line_result_def)
qed

text \<open>A line that does not end within the buffer or before the end of the input.\<close>

lemma getline_cut:
  assumes "ready s" and "pending s \<noteq> []" and "CHR 0x0A \<notin> set (take (n - 1) (pending s))" and "l = take (n - 1) (pending s)" and "1 < n"
  shows "\<exists>s'. getline s buf n = (int (length l) + 1, overwrite (l @ [NUL]) buf, s') \<and> ready s' \<and> pending s' = drop (length l) (pending s)"
proof -
  have "l \<noteq> []" "CHR 0x0A \<notin> set l" using assms(2-5) by auto
  then have "line_result l = int (length l) + 1" using line_result_cut by blast
  then show ?thesis using getline_line [OF assms(1,2), of buf n] line_of_take [OF assms(3)] assms(4) by simp
qed

end

text \<open>The buffered reader on a healthy connection is one; its state is the reader with the events to come.\<close>

abbreviation rio_ready :: "rio_t \<times> read_event list \<Rightarrow> bool" where
  "rio_ready s \<equiv> rio_ok (fst s) \<and> healthy (snd s)"

abbreviation rio_pending :: "rio_t \<times> read_event list \<Rightarrow> char list" where
  "rio_pending s \<equiv> unread (fst s) (snd s)"

abbreviation rio_getline :: "rio_t \<times> read_event list \<Rightarrow> char list \<Rightarrow> nat \<Rightarrow> int \<times> char list \<times> rio_t \<times> read_event list" where
  "rio_getline s buf n \<equiv> rio_readlineb (fst s) buf n (snd s)"

interpretation rio: line_reader rio_ready rio_pending rio_getline
proof
  show "\<exists>s'. rio_getline s buf n =
      (line_result (line_of (n - 1) (rio_pending s)), overwrite (line_of (n - 1) (rio_pending s) @ [NUL]) buf, s') \<and>
      rio_ready s' \<and> rio_pending s' = drop (length (line_of (n - 1) (rio_pending s))) (rio_pending s)"
    if "rio_ready s" and "rio_pending s \<noteq> []" for s buf n
    using rio_readlineb_line [OF conjunct1 [OF that(1)] conjunct2 [OF that(1)] refl that(2), of buf n] by auto
  show "\<exists>s'. rio_getline s buf n = (0, buf, s') \<and> rio_ready s' \<and> rio_pending s' = []"
    if "rio_ready s" and "rio_pending s = []" and "1 < n" for s buf n
    using rio_readlineb_eof [OF conjunct1 [OF that(1)] conjunct2 [OF that(1)] that(2,3), of buf] by auto
qed

subsection \<open>Reading ends\<close>

text \<open>Whatever the connection does, a line other than the end of file uses up some of what is left of it.\<close>

fun event_size :: "read_event \<Rightarrow> nat" where
  "event_size (Data bs) = length bs + 1"
| "event_size _ = 1"

definition left :: "rio_t \<Rightarrow> read_event list \<Rightarrow> nat" where
  "left rp es = nat (rio_cnt rp) + sum_list (map event_size es)"

lemma rio_refill_left:
  "rio_refill rp es = (r, rp', es') \<Longrightarrow>
   left rp' es' \<le> left rp es \<and> (case r of None \<Rightarrow> 0 < rio_cnt rp' | Some rc \<Rightarrow> rc = 0 \<or> rc = -1 \<and> left rp' es' < left rp es)"
proof (induction rp es arbitrary: r rp' es' rule: rio_refill.induct)
  case (2 rp e es)
  show ?case
  proof (cases "rio_cnt rp \<le> 0")
    case True
    show ?thesis
    proof (cases e)
      case (Data bs)
      have "0 < RIO_BUFSIZE" by (simp add: RIO_BUFSIZE_def)
      then show ?thesis using 2(2) True Data by (auto simp: left_def split: if_splits)
    next
      case Interrupted
      have l: "left (rp\<lparr>rio_cnt := -1\<rparr>) es < left rp (e # es)" using True Interrupted by (simp add: left_def)
      show ?thesis using 2(1) [OF True Interrupted] 2(2) True Interrupted l by (auto split: option.splits)
    next
      case Failed
      then show ?thesis using 2(2) True by (auto simp: left_def)
    qed
  qed (use 2(2) in \<open>auto simp: left_def\<close>)
qed (auto simp: left_def split: if_splits)

lemma rio_read_left:
  assumes "rio_read rp 1 es = (rc, bs, rp', es')"
  shows "left rp' es' \<le> left rp es \<and> (rc \<noteq> 0 \<longrightarrow> left rp' es' < left rp es)"
proof -
  obtain r rp1 es1 where r: "rio_refill rp es = (r, rp1, es1)" by (cases "rio_refill rp es")
  then show ?thesis using rio_refill_left [OF r] assms
    by (auto simp: rio_read_def left_def Let_def split: option.splits if_splits)
qed

lemma readlineb_loop_left:
  "readlineb_loop k acc rp buf es = (rc, buf', rp', es') \<Longrightarrow>
   left rp' es' \<le> left rp es \<and> (acc = [] \<and> 0 < k \<and> rc \<noteq> 0 \<longrightarrow> left rp' es' < left rp es)"
proof (induction k arbitrary: acc rp es)
  case (Suc k)
  obtain r bs rp1 es1 where r: "rio_read rp 1 es = (r, bs, rp1, es1)" by (cases "rio_read rp 1 es")
  note l = rio_read_left [OF r]
  show ?case
  proof (cases "r = 1 \<and> hd bs \<noteq> CHR 0x0A")
    case True
    then have "left rp' es' \<le> left rp1 es1" using Suc.IH [of "acc @ bs" rp1 es1] Suc.prems r by simp
    then show ?thesis using l True by simp
  next
    case False
    then show ?thesis using l Suc.prems r by (auto split: if_splits)
  qed
qed simp

lemma rio_readlineb_left:
  "rio_readlineb rp buf maxlen es = (rc, buf', rp', es') \<Longrightarrow> 1 < maxlen \<Longrightarrow> rc \<noteq> 0 \<Longrightarrow> left rp' es' < left rp es"
  using readlineb_loop_left [of "maxlen - 1" "[]" rp buf es rc buf' rp' es'] by (simp add: rio_readlineb_def)

subsection \<open>Writing\<close>

lemma writen_loop_ok:
  "list_all (\<lambda>w. 0 < w) ws \<Longrightarrow> int (length bufp) \<le> sum_list ws \<Longrightarrow> writen_loop ws sent bufp n = Some (n, sent @ bufp)"
proof (induction ws sent bufp n rule: writen_loop.induct)
  case (3 w ws sent b bufp n)
  have "0 \<le> sum_list ws" using 3(2) by (intro sum_list_nonneg) (auto simp: list_all_iff)
  then have "int (length (drop (nat w) (b # bufp))) \<le> sum_list ws"
    using 3(2,3) by (cases "nat w \<le> Suc (length bufp)") (auto simp: of_nat_diff)
  then show ?case using 3 by (simp del: drop_Cons' take_Cons')
qed auto

lemma rio_writen_all:
  "list_all (\<lambda>w. 0 < w) ws \<Longrightarrow> int (length buf) \<le> sum_list ws \<Longrightarrow> rio_writen ws buf = Some (int (length buf), buf)"
  by (simp add: rio_writen_def writen_loop_ok)

subsection \<open>Properties\<close>

text \<open>C21: reading a line from a healthy connection depends only on the bytes that are still to come, not on how they arrive or on
  interruptions: it stores the line the reference function takes off their front, and leaves the rest.  The return value
  is the length of a complete line, one more for a line cut off by the end of the input or of the buffer, and 0 at the end.\<close>

theorem rio_readlineb_reads_lines:
  assumes "rio_ok rp" and "healthy es" and "1 < maxlen" and "l = line_of (maxlen - 1) (unread rp es)"
  shows "\<exists>rp' es'. rio_readlineb rp buf maxlen es =
      (if unread rp es = [] then (0, buf, rp', es') else (line_result l, overwrite (l @ [NUL]) buf, rp', es')) \<and>
    rio_ok rp' \<and> healthy es' \<and> unread rp' es' = drop (length l) (unread rp es)"
  using rio.getline_line [of "(rp, es)" buf maxlen] rio.getline_eof [of "(rp, es)" maxlen buf] assms
  by (cases "unread rp es = []") auto

theorem rio_readlineb_reads_lines_witness:
  "\<exists>rp' es'. rio_readlineb (rio_readinitb 4) [] 1024 [Data ''a'', Interrupted, Data (''b'' @ [CHR 0x0A] @ ''c'')] =
      (3, ''ab'' @ [CHR 0x0A, NUL], rp', es') \<and> unread rp' es' = ''c''"
proof -
  let ?es = "[Data ''a'', Interrupted, Data (''b'' @ [CHR 0x0A] @ ''c'')]"
  have u: "unread (rio_readinitb 4) ?es = ''ab'' @ CHR 0x0A # ''c''" by (simp add: unread_def rio_readinitb_def)
  have l: "line_of (1024 - 1) (''ab'' @ CHR 0x0A # ''c'') = ''ab'' @ [CHR 0x0A]" by (simp add: numeral_eq_Suc)
  show ?thesis
    using rio_readlineb_reads_lines [of "rio_readinitb 4" ?es 1024 "''ab'' @ [CHR 0x0A]" "[]"] u l
    by (auto simp: rio_ok_def rio_readinitb_def healthy_def line_result_def overwrite_def)
qed

end
