(* ===== verification/Young_Server.thy ===== *)
theory Young_Server
  imports Robust_IO
begin

text \<open>
  The HTTP server, \<^verbatim>\<open>httpserver/src/yng_request.c\<close>, \<^verbatim>\<open>yng_connection.c\<close>, \<^verbatim>\<open>yng_util.c\<close> and \<^verbatim>\<open>young.c\<close>: reading a
  request, choosing between a static file, a CGI program and an error, and the response.

  The file system, \<^verbatim>\<open>fork\<close>, \<^verbatim>\<open>execve\<close> and the order in which parent and child write are an argument \<open>web\<close>.  A
  response is the list of blocks that are handed to \<^const>\<open>rio_writen\<close>, whose result the server ignores.
  \<open>None\<close> is undefined behaviour: a read of an unset buffer, a write beyond a buffer.  Headers are built with
  \<^verbatim>\<open>sprintf(buf, "%s...", buf)\<close>, taken to append, as the C library in use does.
\<close>

subsection \<open>Buffers and messages\<close>

abbreviation crlf :: string where
  "crlf \<equiv> [CHR 0x0D, CHR 0x0A]"

text \<open>A string and its terminator in a buffer of \<open>n\<close> bytes.\<close>

definition fit :: "nat \<Rightarrow> string \<Rightarrow> string option" where
  "fit n s = (if length s < n then Some s else None)"

definition yng_http_get_response_message :: "int \<Rightarrow> string" where
  "yng_http_get_response_message status_code =
     (case map_of [(100, ''Continue''), (200, ''OK''), (301, ''Moved Permanently''), (302, ''Found''), (304, ''Not Modified''),
        (400, ''Bad Request''), (401, ''Unauthorized''), (403, ''Forbidden''), (404, ''Not Found''),
        (405, ''Method Not Allowed'')] status_code of
        Some m \<Rightarrow> m
      | None \<Rightarrow> ''Internal Server Error'')"

definition yng_http_start_response :: "nat \<Rightarrow> int \<Rightarrow> string option" where
  "yng_http_start_response n status_code =
     fit n (''HTTP/1.0 '' @ sprint_int status_code @ '' '' @ yng_http_get_response_message status_code @ crlf)"

definition yng_http_send_header :: "nat \<Rightarrow> string \<Rightarrow> string \<Rightarrow> string \<Rightarrow> string option" where
  "yng_http_send_header n buf key value = fit n (buf @ key @ '': '' @ value @ crlf)"

definition yng_http_end_headers :: "nat \<Rightarrow> string \<Rightarrow> string option" where
  "yng_http_end_headers n buf = fit n (buf @ crlf)"

definition strrchr :: "string \<Rightarrow> char \<Rightarrow> string option" where
  "strrchr s c = (if c \<in> set s then Some (c # rev (takeWhile (\<lambda>x. x \<noteq> c) (rev s))) else None)"

definition yng_http_get_mime_type :: "string \<Rightarrow> string" where
  "yng_http_get_mime_type file_name =
     (case strrchr file_name (CHR ''.'') of
        None \<Rightarrow> ''text/plain''
      | Some file_extension \<Rightarrow>
          if file_extension = ''.html'' \<or> file_extension = ''.htm'' then ''text/html''
          else if file_extension = ''.jpg'' \<or> file_extension = ''.jpeg'' then ''image/jpeg''
          else if file_extension = ''.png'' then ''image/png''
          else if file_extension = ''.css'' then ''text/css''
          else if file_extension = ''.js'' then ''application/javascript''
          else if file_extension = ''.pdf'' then ''application/pdf''
          else ''text/plain'')"

definition yng_http_client_error_body :: "nat \<Rightarrow> string \<Rightarrow> int \<Rightarrow> string \<Rightarrow> string \<Rightarrow> string option" where
  "yng_http_client_error_body n cause errnum shortmsg longmsg = do {
     buf \<leftarrow> fit n ''<html><title>Young Error</title>'';
     buf \<leftarrow> fit n (buf @ ''<body><p>'' @ sprint_int errnum @ '': '' @ shortmsg @ ''</p>'');
     buf \<leftarrow> fit n (buf @ ''<p>'' @ longmsg @ '': '' @ cause @ ''</p>'');
     fit n (buf @ ''<hr><em>Young Web Server</em></body></html>'')
   }"

definition yng_http_send_error :: "string \<Rightarrow> int \<Rightarrow> string \<Rightarrow> string \<Rightarrow> string list option" where
  "yng_http_send_error cause errnum shortmsg longmsg = do {
     body \<leftarrow> yng_http_client_error_body 8192 cause errnum shortmsg longmsg;
     buf \<leftarrow> yng_http_start_response 1024 errnum;
     buf \<leftarrow> yng_http_send_header 1024 buf ''Server'' ''Young Web Server'';
     len \<leftarrow> fit 16 (dec (length body));
     buf \<leftarrow> yng_http_send_header 1024 buf ''Content-length'' len;
     buf \<leftarrow> yng_http_send_header 1024 buf ''Content-type'' ''text/html'';
     buf \<leftarrow> yng_http_end_headers 1024 buf;
     Some [buf, body]
   }"

definition bad_request :: "string list option" where
  "bad_request = yng_http_send_error ''malformed request'' 400 ''Bad request'' ''You sent a malformed request''"

definition unimplemented :: "string list option" where
  "unimplemented = yng_http_send_error ''you sent an unimplemented method'' 501 ''Not Implemented''
     ''Young has not implemented the requested method''"

definition not_found :: "string list option" where
  "not_found = yng_http_send_error ''requested file not found'' 404 ''Not Found'' ''Young can't find the requested file''"

definition forbidden :: "string list option" where
  "forbidden = yng_http_send_error ''you are not allowed'' 403 ''Forbidden'' ''Young couldn't handle the request''"

definition internal_server_error :: "string list option" where
  "internal_server_error = yng_http_send_error ''Sorry, Young encounters an error'' 500 ''Internal Server Error''
     ''Young encounters an error that prevents it from servicing the request''"

subsection \<open>Serving\<close>

record stat_t =
  st_exec :: bool
  st_reg :: bool
  st_rusr :: bool
  st_size :: int

text \<open>\<open>writes_of\<close> gives the blocks a CGI program writes to its standard output, \<open>None\<close> when \<^verbatim>\<open>execve\<close> fails.  The parent writes
  its header after \<open>parent_after\<close> blocks of the child.\<close>

record web =
  stat_of :: "string \<Rightarrow> stat_t option"
  contents :: "string \<Rightarrow> char list option"
  fork_succeeds :: bool
  dup2_succeeds :: bool
  writes_of :: "string \<Rightarrow> string \<Rightarrow> string list option"
  parent_after :: nat

text \<open>\<open>Exited\<close>: the process, with all its connections, ends.\<close>

datatype outcome = Served "string list" | Exited "string list"

text \<open>The size is passed as an \<^verbatim>\<open>int\<close>.  A negative one makes \<^verbatim>\<open>mmap\<close> and then \<^verbatim>\<open>write\<close> fail, and no body is sent.\<close>

definition serve_static :: "web \<Rightarrow> string \<Rightarrow> int \<Rightarrow> outcome option" where
  "serve_static web filename filesize = do {
     let filetype = yng_http_get_mime_type filename;
     buf \<leftarrow> yng_http_start_response 1024 200;
     buf \<leftarrow> yng_http_send_header 1024 buf ''Server'' ''Young Web Server'';
     len \<leftarrow> fit 128 (sprint_int filesize);
     buf \<leftarrow> yng_http_send_header 1024 buf ''Content-length'' len;
     buf \<leftarrow> yng_http_send_header 1024 buf ''Content-type'' filetype;
     buf \<leftarrow> yng_http_end_headers 1024 buf;
     Some (case contents web filename of
         None \<Rightarrow> Exited [buf]
       | Some bs \<Rightarrow> Served (if filesize \<le> 0 then [buf] else [buf, take (nat filesize) bs]))
   }"

text \<open>Both processes run the code between \<^verbatim>\<open>fork\<close> and the test for the child.\<close>

definition serve_dynamic :: "web \<Rightarrow> string \<Rightarrow> string \<Rightarrow> outcome option" where
  "serve_dynamic web filename query_string =
     (if \<not> fork_succeeds web then map_option Served internal_server_error
      else do {
        buf \<leftarrow> yng_http_start_response 1024 200;
        buf \<leftarrow> yng_http_send_header 1024 buf ''Server'' ''Young Web Server'';
        child \<leftarrow>
          (if \<not> dup2_succeeds web then internal_server_error
           else case writes_of web filename query_string of
             None \<Rightarrow> internal_server_error
           | Some out \<Rightarrow> Some out);
        let child = buf # child;
        Some (Served (take (parent_after web) child @ [buf] @ drop (parent_after web) child))
      })"

subsection \<open>The request\<close>

text \<open>At most \<open>n\<close> characters up to white space.\<close>

fun scan_word :: "nat \<Rightarrow> char list \<Rightarrow> char list" where
  "scan_word 0 l = []"
| "scan_word (Suc n) [] = []"
| "scan_word (Suc n) (c # l) = (if is_space c then [] else c # scan_word n l)"

definition lower :: "char \<Rightarrow> char" where
  "lower c = (if 65 \<le> (of_char c :: nat) \<and> (of_char c :: nat) \<le> 90 then char_of ((of_char c :: nat) + 32) else c)"

definition strcasecmp_eq :: "string \<Rightarrow> string \<Rightarrow> bool" where
  "strcasecmp_eq s t \<longleftrightarrow> map lower s = map lower t"

text \<open>\<^verbatim>\<open>printf("%s", buf)\<close> needs a terminator among the bytes that are set.\<close>

definition read_cstr :: "char list \<Rightarrow> string option" where
  "read_cstr buf = (if NUL \<in> set buf then Some (cstr buf) else None)"

text \<open>The loop over the header lines; the result is the state of the reader after it.\<close>

function read_headers :: "rio_t \<Rightarrow> char list \<Rightarrow> read_event list \<Rightarrow> (rio_t \<times> read_event list) option" where
  "read_headers rp header_buf es =
     (case rio_readlineb rp header_buf 1024 es of (numchars, buf, rp', es') \<Rightarrow>
        case read_cstr buf of
          None \<Rightarrow> None
        | Some s \<Rightarrow> if numchars \<noteq> 0 \<and> s \<noteq> crlf then read_headers rp' buf es' else Some (rp', es'))"
  by pat_completeness auto
termination
  by (relation "measure (\<lambda>(rp, buf, es). left rp es)") (auto dest!: rio_readlineb_left [OF sym])

declare read_headers.simps [simp del]

text \<open>What the request line asks for.\<close>

datatype parsed = Malformed | Unsupported | Request string string bool

definition parse_request :: "char list \<Rightarrow> parsed" where
  "parse_request line =
     (let method = scan_word 255 line; rest = drop (length method) line in
      if rest = [] then Malformed
      else if \<not> strcasecmp_eq (cstr method) ''GET'' then Unsupported
      else
        let rest = dropWhile (\<lambda>c. c = CHR '' '') rest; url = scan_word 511 rest in
        if drop (length url) rest = [] then Malformed
        else
          let url = cstr url; q = dropWhile (\<lambda>c. c \<noteq> CHR ''?'') url in
          Request (takeWhile (\<lambda>c. c \<noteq> CHR ''?'') url) (drop 1 q) (q \<noteq> []))"

text \<open>The path, in its buffer of 512 bytes.\<close>

definition request_path :: "string \<Rightarrow> string option" where
  "request_path url = do {
     path \<leftarrow> fit 512 (CHR ''.'' # url);
     if last path = CHR ''/'' then fit 512 (path @ ''index.html'') else Some path
   }"

definition serve_path :: "web \<Rightarrow> string \<Rightarrow> string \<Rightarrow> bool \<Rightarrow> outcome option" where
  "serve_path web path query_string cgi =
     (case stat_of web path of
        None \<Rightarrow> map_option Served not_found
      | Some st \<Rightarrow>
          let cgi = (cgi \<or> st_exec st) in
          if \<not> cgi then
            if \<not> st_reg st \<or> \<not> st_rusr st then map_option Served forbidden
            else serve_static web path (to_int (st_size st))
          else serve_dynamic web path query_string)"

definition yng_serve_connection :: "web \<Rightarrow> int \<Rightarrow> read_event list \<Rightarrow> outcome option" where
  "yng_serve_connection web connect_sockfd es =
     (let rio = rio_readinitb connect_sockfd in
      case rio_readlineb rio [] 1024 es of (numchars, request_line, rio, es) \<Rightarrow> do {
        read_cstr request_line;
        if numchars < 0 then None
        else if numchars = 0 \<or> request_line ! nat (numchars - 1) \<noteq> CHR 0x0A then map_option Served bad_request
        else case parse_request (take (nat numchars) request_line) of
          Malformed \<Rightarrow> map_option Served bad_request
        | Unsupported \<Rightarrow> map_option Served unimplemented
        | Request url query_string cgi \<Rightarrow> do {
            read_headers rio [] es;
            path \<leftarrow> request_path url;
            serve_path web path query_string cgi
          }
      })"

subsection \<open>Listening and accepting\<close>

text \<open>What the calls return for one candidate address.\<close>

record addrinfo =
  ai_socket :: int
  ai_setsockopt_ok :: bool
  ai_bind_ok :: bool
  ai_close_ok :: bool

text \<open>\<open>None\<close>: the process exits with an error.  The loop gives the bound socket, if any, and the sockets it closed.\<close>

fun bind_loop :: "addrinfo list \<Rightarrow> int list \<Rightarrow> (int option \<times> int list) option" where
  "bind_loop [] closed = Some (None, closed)"
| "bind_loop (p # ps) closed =
     (if ai_socket p < 0 then bind_loop ps closed
      else if \<not> ai_setsockopt_ok p then None
      else if ai_bind_ok p then Some (Some (ai_socket p), closed)
      else if \<not> ai_close_ok p then None
      else bind_loop ps (closed @ [ai_socket p]))"

definition yng_open_listening_sockets :: "addrinfo list option \<Rightarrow> bool \<Rightarrow> int option" where
  "yng_open_listening_sockets result listen_ok = do {
     result \<leftarrow> result;
     (p, closed) \<leftarrow> bind_loop result [];
     listen_sockfd \<leftarrow> p;
     if \<not> listen_ok then None else Some listen_sockfd
   }"

text \<open>A socket address: the family, the result of \<^verbatim>\<open>inet_ntop\<close> and the port.  \<open>None\<close> for the name: the process exits.\<close>

datatype sockaddr = AF_INET "string option" nat | AF_INET6 "string option" nat | AF_OTHER

definition yng_getname :: "sockaddr option \<Rightarrow> string option" where
  "yng_getname addr = do {
     localaddr \<leftarrow> addr;
     (ntop, port) \<leftarrow> (case localaddr of AF_INET a p \<Rightarrow> Some (a, p) | AF_INET6 a p \<Rightarrow> Some (a, p) | AF_OTHER \<Rightarrow> None);
     a \<leftarrow> ntop;
     let strptr = ''('' @ a;
     Some (if port \<noteq> 0 then strptr @ take 19 ('', '' @ dec port @ '')'') else strptr)
   }"

text \<open>The two callers pass \<^verbatim>\<open>getsockname\<close> or \<^verbatim>\<open>getpeername\<close>, here its result, and exit as well when there is no name.\<close>

definition yng_getsockname :: "(int \<Rightarrow> sockaddr option) \<Rightarrow> int \<Rightarrow> string option" where
  "yng_getsockname getsockname sockfd = yng_getname (getsockname sockfd)"

definition yng_getpeername :: "(int \<Rightarrow> sockaddr option) \<Rightarrow> int \<Rightarrow> string option" where
  "yng_getpeername getpeername sockfd = yng_getname (getpeername sockfd)"

text \<open>A connection as \<^verbatim>\<open>accept\<close> returns it: its descriptor, its peer as \<^verbatim>\<open>getpeername\<close> finds it, whether a thread can be
  started, and its input.\<close>

record conn =
  conn_fd :: int
  conn_peer :: "sockaddr option"
  conn_thread :: bool
  conn_events :: "read_event list"

text \<open>The thread: the response and whether the process goes on.  The descriptor is closed after it.\<close>

definition thread :: "web \<Rightarrow> conn \<Rightarrow> (string list \<times> bool) option" where
  "thread web c = map_option (\<lambda>r. case r of Served bs \<Rightarrow> (bs, True) | Exited bs \<Rightarrow> (bs, False))
     (yng_serve_connection web (conn_fd c) (conn_events c))"

text \<open>The accept loop over the connections that arrive, with the responses so far; the truth value says that the
  server still accepts.  Threads share nothing but the files, so each is run when it is started.\<close>

fun young_loop :: "web \<Rightarrow> conn list \<Rightarrow> (int \<times> string list) list \<Rightarrow> ((int \<times> string list) list \<times> bool) option" where
  "young_loop web [] served = Some (served, True)"
| "young_loop web (c # cs) served =
     (if conn_fd c < 0 then Some (served, False)
      else if yng_getpeername (\<lambda>_. conn_peer c) (conn_fd c) = None then Some (served, False)
      else if \<not> conn_thread c then young_loop web cs served
      else do {
        (bs, alive) \<leftarrow> thread web c;
        let served = served @ [(conn_fd c, bs)];
        if alive then young_loop web cs served else Some (served, False)
      })"

definition young_main ::
  "string list \<Rightarrow> (string \<Rightarrow> addrinfo list option) \<Rightarrow> bool \<Rightarrow> (int \<Rightarrow> sockaddr option) \<Rightarrow> web \<Rightarrow> conn list \<Rightarrow>
   ((int \<times> string list) list \<times> bool) option" where
  "young_main argv getaddrinfo listen_ok sockname web cs =
     (case argv of
        [prog, port] \<Rightarrow>
          (case yng_open_listening_sockets (getaddrinfo port) listen_ok of
             None \<Rightarrow> Some ([], False)
           | Some fd \<Rightarrow> if yng_getsockname sockname fd = None then Some ([], False) else young_loop web cs [])
      | _ \<Rightarrow> Some ([], False))"

text \<open>The listening socket is the first that can be bound, and every socket opened before it has been closed.\<close>

lemma bind_loop_first:
  "bind_loop ps closed = Some (Some fd, closed') \<Longrightarrow>
   \<exists>qs p rs. ps = qs @ p # rs \<and> fd = ai_socket p \<and> 0 \<le> fd \<and> ai_bind_ok p \<and> list_all (\<lambda>q. ai_socket q < 0 \<or> \<not> ai_bind_ok q) qs \<and>
     closed' = closed @ map ai_socket (filter (\<lambda>q. 0 \<le> ai_socket q) qs)"
proof (induction ps closed rule: bind_loop.induct)
  case (2 p ps closed)
  consider (unopened) "ai_socket p < 0" | (bound) "0 \<le> ai_socket p" "ai_bind_ok p" | (unbound) "0 \<le> ai_socket p" "\<not> ai_bind_ok p" by linarith
  then show ?case
  proof cases
    case unopened
    then obtain qs q rs where "ps = qs @ q # rs \<and> fd = ai_socket q \<and> 0 \<le> fd \<and> ai_bind_ok q \<and>
        list_all (\<lambda>q. ai_socket q < 0 \<or> \<not> ai_bind_ok q) qs \<and> closed' = closed @ map ai_socket (filter (\<lambda>q. 0 \<le> ai_socket q) qs)"
      using 2 by auto
    with unopened show ?thesis by (intro exI [of _ "p # qs"] exI [of _ q] exI [of _ rs]) auto
  next
    case bound
    with 2(3) show ?thesis by (intro exI [of _ "[]"] exI [of _ p] exI [of _ ps]) (auto split: if_splits)
  next
    case unbound
    then obtain qs q rs where "ps = qs @ q # rs \<and> fd = ai_socket q \<and> 0 \<le> fd \<and> ai_bind_ok q \<and>
        list_all (\<lambda>q. ai_socket q < 0 \<or> \<not> ai_bind_ok q) qs \<and>
        closed' = (closed @ [ai_socket p]) @ map ai_socket (filter (\<lambda>q. 0 \<le> ai_socket q) qs)"
      using 2 by (auto split: if_splits)
    with unbound show ?thesis by (intro exI [of _ "p # qs"] exI [of _ q] exI [of _ rs]) auto
  qed
qed simp

text \<open>As long as peers are known, threads start and no file disappears, every connection is answered, in the order of
  arrival, and the server goes on.\<close>

definition conn_ok :: "web \<Rightarrow> conn \<Rightarrow> string list \<Rightarrow> bool" where
  "conn_ok web c bs \<longleftrightarrow> 0 \<le> conn_fd c \<and> yng_getname (conn_peer c) \<noteq> None \<and> conn_thread c \<and>
     yng_serve_connection web (conn_fd c) (conn_events c) = Some (Served bs)"

lemma young_loop_all:
  "list_all2 (conn_ok web) cs bss \<Longrightarrow>
   young_loop web cs served = Some (served @ zip (map conn_fd cs) bss, True)"
  by (induction cs bss arbitrary: served rule: list_all2_induct) (auto simp: conn_ok_def thread_def yng_getpeername_def not_less)

text \<open>A client that is gone before \<^verbatim>\<open>getpeername\<close> is called ends the server, and with it every later connection.\<close>

lemma young_peer_gone: "conn_peer c = None \<Longrightarrow> young_loop web (c # cs) served = Some (served, False)"
  by (simp add: yng_getpeername_def yng_getname_def)

subsection \<open>Requests as they arrive\<close>

definition http_get :: "string \<Rightarrow> string list \<Rightarrow> string" where
  "http_get url hs = ''GET '' @ url @ '' HTTP/1.0'' @ crlf @ concat (map (\<lambda>h. h @ crlf) hs) @ crlf"

text \<open>The headers of a request: non-empty lines that fit the buffer.\<close>

definition header_ok :: "string \<Rightarrow> bool" where
  "header_ok h \<longleftrightarrow> h \<noteq> [] \<and> CHR 0x0A \<notin> set h \<and> cstring h \<and> length h \<le> 1021"

definition url_ok :: "string \<Rightarrow> bool" where
  "url_ok url \<longleftrightarrow> cstring url \<and> list_all (\<lambda>c. \<not> is_space c \<and> c \<noteq> CHR ''?'') url"

lemma overwrite_read: "cstring l \<Longrightarrow> read_cstr (overwrite (l @ [NUL]) buf) = Some l"
  by (auto simp: read_cstr_def overwrite_def cstr_def cstring_def takeWhile_append intro!: takeWhile_eq_all_conv [THEN iffD2])

text \<open>One line that ends with a line feed, from a healthy connection.\<close>

lemma rio_readlineb_lf:
  assumes "rio_ok rp" and "healthy es" and "unread rp es = l @ CHR 0x0A # r" and "CHR 0x0A \<notin> set l" and "length l \<le> 1022"
  shows "\<exists>rp' es'. rio_readlineb rp buf 1024 es = (int (length l) + 1, overwrite ((l @ [CHR 0x0A]) @ [NUL]) buf, rp', es') \<and>
    rio_ok rp' \<and> healthy es' \<and> unread rp' es' = r"
  using rio.getline_lf [of "(rp, es)" l r 1024 buf] assms by auto

lemma read_headers_ok:
  assumes "rio_ok rp" and "healthy es" and "list_all header_ok hs"
    and "unread rp es = concat (map (\<lambda>h. h @ crlf) hs) @ crlf @ r"
  shows "\<exists>x. read_headers rp buf es = Some x"
  using assms
proof (induction hs arbitrary: rp buf es)
  case Nil
  then obtain rp' es' where "rio_readlineb rp buf 1024 es = (2, overwrite (crlf @ [NUL]) buf, rp', es')"
    using rio_readlineb_lf [of rp es "[CHR 0x0D]" r buf] by auto
  then show ?case using overwrite_read [of crlf buf] by (simp add: read_headers.simps [of rp buf es])
next
  case (Cons h hs)
  then have h: "h \<noteq> []" "CHR 0x0A \<notin> set h" "cstring h" "length h \<le> 1021" by (auto simp: header_ok_def)
  let ?l = "h @ [CHR 0x0D]"
  obtain rp' es' where l: "rio_readlineb rp buf 1024 es = (int (length ?l) + 1, overwrite ((?l @ [CHR 0x0A]) @ [NUL]) buf, rp', es')"
    "rio_ok rp'" "healthy es'" "unread rp' es' = concat (map (\<lambda>h. h @ crlf) hs) @ crlf @ r"
    using rio_readlineb_lf [OF Cons.prems(1,2), of ?l "concat (map (\<lambda>h. h @ crlf) hs) @ crlf @ r" buf] Cons.prems(4) h
    by auto
  have "read_cstr (overwrite ((?l @ [CHR 0x0A]) @ [NUL]) buf) = Some (?l @ [CHR 0x0A])" using h(3) by (intro overwrite_read) simp
  then show ?case using l h(1) Cons.IH [OF l(2,3) _ l(4)] Cons.prems(3) by (simp add: read_headers.simps [of rp buf es])
qed

lemma scan_word_space: "list_all (\<lambda>c. \<not> is_space c) w \<Longrightarrow> is_space c \<Longrightarrow> scan_word n (w @ c # r) = take n w"
proof (induction w arbitrary: n)
  case Nil
  then show ?case by (cases n) auto
next
  case (Cons d w)
  then show ?case by (cases n) auto
qed

lemma is_space_blank [simp]: "is_space (CHR '' '')" "\<not> is_space (CHR ''G'')" "\<not> is_space (CHR ''E'')" "\<not> is_space (CHR ''T'')"
  by (simp_all add: is_space_def)

text \<open>Everything from the question mark on is the query.\<close>

lemma parse_get:
  assumes "cstring url" and "list_all (\<lambda>c. \<not> is_space c) url" and "url \<noteq> []"
  shows "parse_request (''GET '' @ url @ '' HTTP/1.0'' @ crlf) =
    Request (takeWhile (\<lambda>c. c \<noteq> CHR ''?'') (take 511 url)) (drop 1 (dropWhile (\<lambda>c. c \<noteq> CHR ''?'') (take 511 url)))
      (CHR ''?'' \<in> set (take 511 url))"
proof -
  let ?r = "'' HTTP/1.0'' @ crlf"
  have m: "scan_word 255 (''GET'' @ CHR '' '' # url @ ?r) = ''GET''" by (subst scan_word_space) simp_all
  have d: "dropWhile (\<lambda>c. c = CHR '' '') (CHR '' '' # url @ ?r) = url @ ?r" using assms(2,3) by (cases url) auto
  have u: "scan_word 511 (url @ ?r) = take 511 url" using scan_word_space [OF assms(2), of "CHR '' ''" 511] by simp
  have c: "cstr (take 511 url) = take 511 url" using assms(1) by (intro cstr_cstring) (auto simp: cstring_def dest: in_set_takeD)
  have q: "dropWhile (\<lambda>c. c \<noteq> CHR ''?'') s \<noteq> [] \<longleftrightarrow> CHR ''?'' \<in> set s" for s :: string by (auto simp: dropWhile_eq_Nil_conv)
  have e: "cstr ''GET'' = ''GET''" by (simp add: cstr_def)
  show ?thesis using m d u unfolding parse_request_def Let_def
    by (simp add: c e q strcasecmp_eq_def del: dropWhile_eq_Nil_conv)
qed

text \<open>The server after a delivered request line.\<close>

lemma serve_line:
  assumes "healthy es" and "bytes es = l @ CHR 0x0A # r" and "CHR 0x0A \<notin> set l" and "cstring l" and "length l \<le> 1022"
  obtains rp' es' where "rio_ok rp'" "healthy es'" "unread rp' es' = r"
    "yng_serve_connection web fd es = (case parse_request (l @ [CHR 0x0A]) of
       Malformed \<Rightarrow> map_option Served bad_request
     | Unsupported \<Rightarrow> map_option Served unimplemented
     | Request url query_string cgi \<Rightarrow> do {
         read_headers rp' [] es';
         path \<leftarrow> request_path url;
         serve_path web path query_string cgi
       })"
proof -
  have "rio_ok (rio_readinitb fd)" "unread (rio_readinitb fd) es = l @ CHR 0x0A # r"
    using assms(2) by (auto simp: rio_readinitb_def rio_ok_def unread_def)
  then obtain rp' es' where l: "rio_readlineb (rio_readinitb fd) [] 1024 es = (int (length l) + 1, l @ [CHR 0x0A, NUL], rp', es')"
      "rio_ok rp'" "healthy es'" "unread rp' es' = r"
    using rio_readlineb_lf [OF _ assms(1) _ assms(3,5), of "rio_readinitb fd" r "[]"] by (auto simp: overwrite_def)
  have "read_cstr (l @ [CHR 0x0A, NUL]) = Some (l @ [CHR 0x0A])"
    using overwrite_read [of "l @ [CHR 0x0A]" "[]"] assms(4) by (simp add: overwrite_def)
  moreover have "nat (int (length l) + 1) = Suc (length l)" by simp
  ultimately have "yng_serve_connection web fd es = (case parse_request (l @ [CHR 0x0A]) of
       Malformed \<Rightarrow> map_option Served bad_request
     | Unsupported \<Rightarrow> map_option Served unimplemented
     | Request url query_string cgi \<Rightarrow> do {
         read_headers rp' [] es';
         path \<leftarrow> request_path url;
         serve_path web path query_string cgi
       })"
    by (simp add: yng_serve_connection_def l(1))
  with l(2-4) show ?thesis by (rule that)
qed

text \<open>A delivered GET request reaches the file part of the server with the path the url names.\<close>

lemma serve_get:
  assumes "healthy es" and "bytes es = http_get url hs @ r" and "list_all header_ok hs"
    and "cstring url" and "list_all (\<lambda>c. \<not> is_space c) url" and "url \<noteq> []" and "length url \<le> 1008"
  shows "yng_serve_connection web fd es = do {
      path \<leftarrow> request_path (takeWhile (\<lambda>c. c \<noteq> CHR ''?'') (take 511 url));
      serve_path web path (drop 1 (dropWhile (\<lambda>c. c \<noteq> CHR ''?'') (take 511 url))) (CHR ''?'' \<in> set (take 511 url))
    }"
proof -
  define l where "l = ''GET '' @ url @ '' HTTP/1.0'' @ [CHR 0x0D]"
  let ?rest = "concat (map (\<lambda>h. h @ crlf) hs) @ crlf @ r"
  have "is_space (CHR 0x0A)" by (simp add: is_space_def)
  then have "CHR 0x0A \<notin> set url" using assms(5) by (metis list_all_iff)
  then have lf: "CHR 0x0A \<notin> set l" by (simp add: l_def)
  have cs: "cstring l" "length l \<le> 1022" using assms(4,7) by (simp_all add: l_def)
  have bs: "bytes es = l @ CHR 0x0A # ?rest" using assms(2) by (simp add: http_get_def l_def)
  have p: "parse_request (l @ [CHR 0x0A]) = Request (takeWhile (\<lambda>c. c \<noteq> CHR ''?'') (take 511 url))
      (drop 1 (dropWhile (\<lambda>c. c \<noteq> CHR ''?'') (take 511 url))) (CHR ''?'' \<in> set (take 511 url))"
    unfolding parse_get [OF assms(4-6), symmetric] by (rule arg_cong [of _ _ parse_request]) (simp add: l_def)
  obtain rp' es' where s: "rio_ok rp'" "healthy es'" "unread rp' es' = ?rest"
    "yng_serve_connection web fd es = (case parse_request (l @ [CHR 0x0A]) of
       Malformed \<Rightarrow> map_option Served bad_request
     | Unsupported \<Rightarrow> map_option Served unimplemented
     | Request url query_string cgi \<Rightarrow> do {
         read_headers rp' [] es';
         path \<leftarrow> request_path url;
         serve_path web path query_string cgi
       })"
    using serve_line [OF assms(1) bs lf cs] by blast
  obtain x where "read_headers rp' [] es' = Some x" using read_headers_ok [OF s(1,2) assms(3) s(3)] by blast
  then show ?thesis by (simp add: s(4) p)
qed

subsection \<open>Responses\<close>

definition static_header :: "string \<Rightarrow> nat \<Rightarrow> string" where
  "static_header path n = ''HTTP/1.0 200 OK'' @ crlf @ ''Server: Young Web Server'' @ crlf @
     ''Content-length: '' @ dec n @ crlf @ ''Content-type: '' @ yng_http_get_mime_type path @ crlf @ crlf"

definition cgi_header :: string where
  "cgi_header = ''HTTP/1.0 200 OK'' @ crlf @ ''Server: Young Web Server'' @ crlf"

lemma dec_statuses [simp]:
  "dec 200 = ''200''" "dec 400 = ''400''" "dec 403 = ''403''" "dec 404 = ''404''" "dec 500 = ''500''" "dec 501 = ''501''"
  by (simp_all add: dec.simps digit_def char_of_def bit_iff_odd)

lemma start_response_200: "yng_http_start_response 1024 200 = Some (''HTTP/1.0 200 OK'' @ crlf)"
  by (simp add: yng_http_start_response_def sprint_int_def yng_http_get_response_message_def fit_def)

lemma mime_type_length: "length (yng_http_get_mime_type path) \<le> 22"
  by (simp add: yng_http_get_mime_type_def split: option.splits)

lemma serve_static_ok:
  assumes "contents web path = Some bs" and "length bs < 2 ^ 31"
  shows "serve_static web path (int (length bs)) =
    Some (Served (static_header path (length bs) # (if bs = [] then [] else [bs])))"
proof -
  have d: "length (dec (length bs)) \<le> 10" using assms(2) by (intro length_dec) auto
  have m: "length (yng_http_get_mime_type path) \<le> 22" by (rule mime_type_length)
  show ?thesis using assms(1) d m
    by (auto simp: serve_static_def start_response_200 yng_http_send_header_def yng_http_end_headers_def fit_def sprint_int_def
        static_header_def)
qed

text \<open>An error response: a header that starts with the given status line, and a body.\<close>

definition error_response :: "string \<Rightarrow> string list option \<Rightarrow> bool" where
  "error_response status r \<longleftrightarrow> (\<exists>h b. r = Some [status @ crlf @ h, b])"

lemma response_message_length: "length (yng_http_get_response_message n) \<le> 21"
proof -
  have "\<forall>(k, m) \<in> set tab. length m \<le> 21 \<Longrightarrow> length (case map_of tab n of Some m \<Rightarrow> m | None \<Rightarrow> ''Internal Server Error'') \<le> 21"
    for tab :: "(int \<times> string) list"
    by (auto split: option.splits dest!: map_of_SomeD)
  then show ?thesis by (simp add: yng_http_get_response_message_def)
qed

lemma send_error:
  assumes "length cause \<le> 100" and "length shortmsg \<le> 100" and "length longmsg \<le> 100" and "length (sprint_int errnum) \<le> 3"
  shows "error_response (''HTTP/1.0 '' @ sprint_int errnum @ '' '' @ yng_http_get_response_message errnum)
    (yng_http_send_error cause errnum shortmsg longmsg)"
proof -
  obtain body where b: "yng_http_client_error_body 8192 cause errnum shortmsg longmsg = Some body" "length body < 8192"
    using assms by (auto simp: yng_http_client_error_body_def fit_def)
  then have "length (dec (length body)) \<le> 4" by (intro length_dec) auto
  then show ?thesis using assms(4) response_message_length [of errnum]
    by (auto simp: yng_http_send_error_def b(1) yng_http_start_response_def yng_http_send_header_def yng_http_end_headers_def
        fit_def error_response_def)
qed

lemma error_responses:
  "error_response ''HTTP/1.0 400 Bad Request'' bad_request"
  "error_response ''HTTP/1.0 501 Internal Server Error'' unimplemented"
  "error_response ''HTTP/1.0 404 Not Found'' not_found"
  "error_response ''HTTP/1.0 403 Forbidden'' forbidden"
  using send_error [of "''malformed request''" "''Bad request''" "''You sent a malformed request''" 400]
    send_error [of "''you sent an unimplemented method''" "''Not Implemented''" "''Young has not implemented the requested method''" 501]
    send_error [of "''requested file not found''" "''Not Found''" "''Young can't find the requested file''" 404]
    send_error [of "''you are not allowed''" "''Forbidden''" "''Young couldn't handle the request''" 403]
  by (simp_all add: sprint_int_def yng_http_get_response_message_def bad_request_def unimplemented_def not_found_def forbidden_def)

lemma error_response_served: "error_response status r \<Longrightarrow> \<exists>h b. map_option Served r = Some (Served [status @ crlf @ h, b])"
  by (auto simp: error_response_def)

text \<open>The file a url names.\<close>

definition site_path :: "string \<Rightarrow> string" where
  "site_path url = CHR ''.'' # url @ (if url \<noteq> [] \<and> last url = CHR ''/'' then ''index.html'' else [])"

lemma request_path_eq:
  "request_path url = (if length url < 511 \<and> (url \<noteq> [] \<and> last url = CHR ''/'' \<longrightarrow> length url \<le> 500) then Some (site_path url) else None)"
  by (auto simp: request_path_def fit_def site_path_def)

text \<open>A request that the server has received.\<close>

definition receives :: "read_event list \<Rightarrow> string \<Rightarrow> bool" where
  "receives es url \<longleftrightarrow> healthy es \<and> (\<exists>hs r. bytes es = http_get url hs @ r \<and> list_all header_ok hs) \<and>
     url_ok url \<and> url \<noteq> [] \<and> length url \<le> 1008"

lemma url_ok_simps:
  assumes "url_ok url"
  shows "list_all (\<lambda>c. \<not> is_space c) url" and "cstring url" and "CHR ''?'' \<notin> set (take n url)"
    and "takeWhile (\<lambda>c. c \<noteq> CHR ''?'') (take n url) = take n url" and "dropWhile (\<lambda>c. c \<noteq> CHR ''?'') (take n url) = []"
proof -
  show q: "CHR ''?'' \<notin> set (take n url)" using assms by (auto simp: url_ok_def list_all_iff dest!: in_set_takeD)
  show "list_all (\<lambda>c. \<not> is_space c) url" "cstring url" using assms by (auto simp: url_ok_def list_all_iff)
  show "takeWhile (\<lambda>c. c \<noteq> CHR ''?'') (take n url) = take n url" "dropWhile (\<lambda>c. c \<noteq> CHR ''?'') (take n url) = []"
    using q by (auto simp: takeWhile_eq_all_conv)
qed

lemma serve_received:
  assumes "receives es url"
  shows "yng_serve_connection web fd es = do { path \<leftarrow> request_path (take 511 url); serve_path web path [] False }"
proof -
  obtain hs r where r: "healthy es" "bytes es = http_get url hs @ r" "list_all header_ok hs" "url_ok url" "url \<noteq> []" "length url \<le> 1008"
    using assms by (auto simp: receives_def)
  show ?thesis
    using serve_get [OF r(1-3) url_ok_simps(2) [OF r(4)] url_ok_simps(1) [OF r(4)] r(5,6)] url_ok_simps(3-5) [OF r(4), of 511]
    by simp
qed

lemma serve_short:
  assumes "receives es url" and "length url \<le> 500"
  shows "yng_serve_connection web fd es = serve_path web (site_path url) [] False"
  using serve_received [OF assms(1)] assms(2) by (simp add: request_path_eq)

lemma to_int_range: "0 \<le> n \<Longrightarrow> n < 2 ^ 31 \<Longrightarrow> to_int n = n"
  unfolding to_int_def by transfer (simp add: signed_take_bit_int_eq_self)

lemma serve_unsupported:
  assumes "healthy es" and "bytes es = m @ CHR '' '' # u @ CHR 0x0A # r" and "list_all (\<lambda>c. \<not> is_space c) m" and "CHR 0x0A \<notin> set u"
    and "cstring (m @ u)" and "length m + length u \<le> 1021" and "length m \<le> 255" and "\<not> strcasecmp_eq m ''GET''"
  shows "yng_serve_connection web fd es = map_option Served unimplemented"
proof -
  let ?l = "m @ CHR '' '' # u"
  have "is_space (CHR 0x0A)" by (simp add: is_space_def)
  then have lf: "CHR 0x0A \<notin> set ?l" using assms(3,4) by (auto simp: list_all_iff)
  have c: "cstring ?l" "length ?l \<le> 1022" using assms(5,6) by auto
  have bs: "bytes es = ?l @ CHR 0x0A # r" using assms(2) by simp
  have "scan_word 255 (m @ CHR '' '' # u @ [CHR 0x0A]) = m" using scan_word_space [OF assms(3)] assms(7) by simp
  then have "parse_request (?l @ [CHR 0x0A]) = Unsupported" using assms(5,8) by (simp add: parse_request_def)
  then show ?thesis by (auto intro: serve_line [OF assms(1) bs lf c, of web fd])
qed

lemma serve_bad_line:
  assumes "healthy es" and "bytes es \<noteq> []" and "CHR 0x0A \<notin> set (take 1023 (bytes es))"
  shows "yng_serve_connection web fd es = map_option Served bad_request"
proof -
  define l where "l = take 1023 (bytes es)"
  have "rio_ready (rio_readinitb fd, es)" "rio_pending (rio_readinitb fd, es) = bytes es"
    using assms(1) by (auto simp: rio_readinitb_def rio_ok_def unread_def)
  then obtain rp' es' where r: "rio_readlineb (rio_readinitb fd) [] 1024 es = (int (length l) + 1, l @ [NUL], rp', es')"
    using rio.getline_cut [of "(rio_readinitb fd, es)" 1024 l "[]"] assms(2,3) by (auto simp: overwrite_def l_def)
  have "read_cstr (l @ [NUL]) = Some (cstr (l @ [NUL]))" by (simp add: read_cstr_def)
  then show ?thesis by (simp add: yng_serve_connection_def r nth_append)
qed

subsection \<open>Properties\<close>


text \<open>A site for the witnesses: a text file and a CGI program.\<close>

definition demo_web :: web where
  "demo_web = \<lparr>stat_of = (\<lambda>p. if p = ''./a.txt'' then Some \<lparr>st_exec = False, st_reg = True, st_rusr = True, st_size = 5\<rparr>
       else if p = ''./c'' then Some \<lparr>st_exec = True, st_reg = True, st_rusr = True, st_size = 9\<rparr> else None),
     contents = (\<lambda>p. if p = ''./a.txt'' then Some ''hello'' else None), fork_succeeds = True, dup2_succeeds = True,
     writes_of = (\<lambda>p q. Some [''out'']), parent_after = 2\<rparr>"

lemma receives_demo:
  "receives [Data ''GET /a.t'', Interrupted, Data (''xt HTTP/1.0'' @ crlf @ ''Host: h'' @ crlf @ crlf)] ''/a.txt''"
  unfolding receives_def
proof (intro conjI)
  show "\<exists>hs r. bytes [Data ''GET /a.t'', Interrupted, Data (''xt HTTP/1.0'' @ crlf @ ''Host: h'' @ crlf @ crlf)] = http_get ''/a.txt'' hs @ r \<and>
      list_all header_ok hs"
    by (rule exI [of _ "[''Host: h'']"], rule exI [of _ "[]"]) (simp add: http_get_def header_ok_def)
qed (simp_all add: healthy_def url_ok_def is_space_def)

lemma receives_one_packet: "url_ok url \<Longrightarrow> url \<noteq> [] \<Longrightarrow> length url \<le> 1008 \<Longrightarrow> receives [Data (http_get url [])] url"
  unfolding receives_def by (auto simp: healthy_def http_get_def intro!: exI [of _ "[]"])




text \<open>The buffer of 512 bytes for the path holds a url of up to 510 characters, 500 when it ends in a slash; one character
  more and the server writes beyond it.\<close>

theorem young_path_overflow:
  assumes "receives es url"
  shows "(511 \<le> length url \<or> 501 \<le> length url \<and> last url = CHR ''/'' \<longrightarrow> yng_serve_connection web fd es = None) \<and>
    (length url \<le> 500 \<or> length url \<le> 510 \<and> last url \<noteq> CHR ''/'' \<longrightarrow>
       yng_serve_connection web fd es = serve_path web (site_path url) [] False)"
proof -
  have u: "url \<noteq> []" using assms by (simp add: receives_def)
  show ?thesis
  proof (cases "length url \<le> 511")
    case True
    then show ?thesis using u by (auto simp: serve_received [OF assms] request_path_eq)
  next
    case False
    then show ?thesis by (simp add: serve_received [OF assms] request_path_eq)
  qed
qed

theorem young_path_overflow_witness:
  "yng_serve_connection demo_web 4 [Data (http_get (replicate 511 (CHR ''a'')) [])] = None"
proof -
  have "receives [Data (http_get (replicate 511 (CHR ''a'')) [])] (replicate 511 (CHR ''a''))"
    by (rule receives_one_packet) (auto simp: url_ok_def is_space_def cstring_def list_all_iff)
  from young_path_overflow [OF this, of demo_web 4] show ?thesis by simp
qed

text \<open>The response of a CGI program carries the status line and the server header twice: once from the child and once from the
  parent, which writes it at any time between the blocks of the program.\<close>

theorem young_cgi_header_twice:
  assumes "receives es url" and "length url \<le> 500" and "stat_of web (site_path url) = Some st" and "st_exec st"
    and "fork_succeeds web" and "dup2_succeeds web" and "writes_of web (site_path url) [] = Some out"
  shows "yng_serve_connection web fd es = Some (Served
    (take (parent_after web) (cgi_header # out) @ [cgi_header] @ drop (parent_after web) (cgi_header # out)))"
proof -
  have "yng_http_send_header 1024 (''HTTP/1.0 200 OK'' @ crlf) ''Server'' ''Young Web Server'' = Some cgi_header"
    by (simp add: yng_http_send_header_def fit_def cgi_header_def)
  then show ?thesis using assms(3-7)
    by (simp add: serve_short [OF assms(1,2)] serve_path_def serve_dynamic_def start_response_200 Let_def)
qed

theorem young_cgi_header_twice_witness:
  "yng_serve_connection demo_web 4 [Data (http_get ''/c'' [])] = Some (Served [cgi_header, ''out'', cgi_header])"
proof -
  have "receives [Data (http_get ''/c'' [])] ''/c''" by (rule receives_one_packet) (simp_all add: url_ok_def is_space_def)
  from young_cgi_header_twice [OF this, of demo_web _ "[''out'']" 4] show ?thesis by (simp add: demo_web_def site_path_def)
qed

end
