(* ===== verification/Ut_Sort.thy ===== *)
theory Ut_Sort
  imports Ut_List "HOL-Library.Sorting_Algorithms"
begin

text \<open>
  The merge sorts of \<^verbatim>\<open>2PCKVStore/utlist.h\<close>: \<^verbatim>\<open>LL_SORT\<close>, \<^verbatim>\<open>DL_SORT\<close> and \<^verbatim>\<open>CDL_SORT\<close>, which relink the
  elements bottom up, merging runs of 1, 2, 4, ... elements, without extra memory.  The three macros
  have the same text but for the points a \<open>sort_variant\<close> records.  The theory shows that each of them
  ends, never leaves the list, and that the new list is the stable sorting of the old one, for every
  comparison function that compares and every list of at most \<open>2 ^ 30\<close> elements (beyond that the
  \<^verbatim>\<open>int\<close> that holds the length of the runs overflows).
\<close>

subsection \<open>The macros\<close>

text \<open>What the texts differ in: the type of the counters, whether \<open>prev\<close> is maintained, whether the list is
  circular, and how the list is closed after a pass.\<close>

record 'e sort_variant =
  arith :: "int \<Rightarrow> int option"
  doubly :: bool
  circular :: bool
  close_list :: "'e mem \<Rightarrow> ptr option \<Rightarrow> ptr option \<Rightarrow> 'e mem option"

text \<open>The next element, NULL at the end: in a circular list the end is where \<open>next\<close> is the head \<open>old\<close> the
  pass started from; in the others \<open>old\<close> is NULL.\<close>

definition sort_next :: "ptr option \<Rightarrow> 'e mem \<Rightarrow> ptr \<Rightarrow> ptr option option" where
  "sort_next old h p = do { n \<leftarrow> get_next h p; Some (if n = old then None else n) }"

text \<open>The \<^verbatim>\<open>for\<close> loop that steps \<open>q\<close> over the first run and counts its elements.\<close>

partial_function (option) sort_advance ::
  "'e sort_variant \<Rightarrow> ptr option \<Rightarrow> 'e mem \<Rightarrow> int \<Rightarrow> int \<Rightarrow> int \<Rightarrow> ptr \<Rightarrow> (int \<times> ptr option) option" where
  "sort_advance v old h insize i psize q =
     (if i < insize then do {
        psize \<leftarrow> arith v (psize + 1);
        n \<leftarrow> sort_next old h q;
        (case n of
           None \<Rightarrow> Some (psize, None)
         | Some q \<Rightarrow> do { i \<leftarrow> arith v (i + 1); sort_advance v old h insize i psize q })
      }
      else Some (psize, Some q))"

text \<open>The choice of the next element \<open>e\<close> of the merged run.\<close>

definition sort_take :: "ptr option \<Rightarrow> ('e \<Rightarrow> 'e \<Rightarrow> int) \<Rightarrow> 'e mem \<Rightarrow> ptr option \<Rightarrow> ptr option \<Rightarrow> int \<Rightarrow> int \<Rightarrow>
    (ptr \<times> ptr option \<times> ptr option \<times> int \<times> int) option" where
  "sort_take old cmp h p q psize qsize = (
     let take_p = do { e \<leftarrow> p; n \<leftarrow> sort_next old h e; Some (e, n, q, psize - 1, qsize) };
         take_q = do { e \<leftarrow> q; n \<leftarrow> sort_next old h e; Some (e, p, n, psize, qsize - 1) }
     in if psize = 0 then take_q
        else if qsize = 0 \<or> q = None then take_p
        else do {
          pe \<leftarrow> p; qe \<leftarrow> q;
          a \<leftarrow> payload h pe; b \<leftarrow> payload h qe;
          if cmp a b \<le> 0 then take_p else take_q
        })"

text \<open>Linking \<open>e\<close> behind \<open>tail\<close>.\<close>

definition sort_emit :: "'e sort_variant \<Rightarrow> 'e mem \<Rightarrow> ptr option \<Rightarrow> ptr option \<Rightarrow> ptr \<Rightarrow> ('e mem \<times> ptr option) option" where
  "sort_emit v h list tail e = do {
     (h, list) \<leftarrow> (case tail of
          Some t \<Rightarrow> do { h \<leftarrow> set_next h t (Some e); Some (h, list) }
        | None \<Rightarrow> Some (h, Some e));
     h \<leftarrow> (if doubly v then set_prev h e tail else Some h);
     Some (h, list)
   }"

partial_function (option) sort_merge ::
  "'e sort_variant \<Rightarrow> ptr option \<Rightarrow> ('e \<Rightarrow> 'e \<Rightarrow> int) \<Rightarrow> 'e mem \<Rightarrow> ptr option \<Rightarrow> ptr option \<Rightarrow>
     ptr option \<Rightarrow> ptr option \<Rightarrow> int \<Rightarrow> int \<Rightarrow> ('e mem \<times> ptr option \<times> ptr option \<times> ptr option) option" where
  "sort_merge v old cmp h list tail p q psize qsize =
     (if psize > 0 \<or> (qsize > 0 \<and> q \<noteq> None) then do {
        (e, p, q, psize, qsize) \<leftarrow> sort_take old cmp h p q psize qsize;
        (h, list) \<leftarrow> sort_emit v h list tail e;
        sort_merge v old cmp h list (Some e) p q psize qsize
      }
      else Some (h, list, tail, q))"

text \<open>One pass merges the runs of length \<open>insize\<close> in pairs.\<close>

partial_function (option) sort_pass ::
  "'e sort_variant \<Rightarrow> ptr option \<Rightarrow> ('e \<Rightarrow> 'e \<Rightarrow> int) \<Rightarrow> int \<Rightarrow> 'e mem \<Rightarrow> ptr option \<Rightarrow> ptr option \<Rightarrow>
     ptr option \<Rightarrow> int \<Rightarrow> ('e mem \<times> ptr option \<times> ptr option \<times> int) option" where
  "sort_pass v old cmp insize h list tail p nmerges =
     (case p of
        None \<Rightarrow> Some (h, list, tail, nmerges)
      | Some p0 \<Rightarrow> do {
          nmerges \<leftarrow> arith v (nmerges + 1);
          (psize, q) \<leftarrow> sort_advance v old h insize 0 0 p0;
          let qsize = insize;
          (h, list, tail, q) \<leftarrow> sort_merge v old cmp h list tail p q psize qsize;
          sort_pass v old cmp insize h list tail q nmerges
        })"

partial_function (option) sort_loop ::
  "'e sort_variant \<Rightarrow> ('e \<Rightarrow> 'e \<Rightarrow> int) \<Rightarrow> int \<Rightarrow> 'e mem \<Rightarrow> ptr option \<Rightarrow> ('e mem \<times> ptr option \<times> ptr option) option" where
  "sort_loop v cmp insize h list = do {
     let old = (if circular v then list else None);
     (h, list, tail, nmerges) \<leftarrow> sort_pass v old cmp insize h None None list 0;
     h \<leftarrow> close_list v h list tail;
     insize \<leftarrow> arith v (insize * 2);
     if nmerges \<le> 1 then Some (h, list, tail) else sort_loop v cmp insize h list
   }"

definition ll_variant :: "'e sort_variant" where
  "ll_variant = \<lparr>arith = c_int, doubly = False, circular = False,
     close_list = (\<lambda>h list tail. case tail of Some t \<Rightarrow> set_next h t None | None \<Rightarrow> Some h)\<rparr>"

definition dl_variant :: "'e sort_variant" where
  "dl_variant = \<lparr>arith = c_int, doubly = True, circular = False,
     close_list = (\<lambda>h list tail. do { l \<leftarrow> list; h \<leftarrow> set_prev h l tail; t \<leftarrow> tail; set_next h t None })\<rparr>"

definition cdl_variant :: "'e sort_variant" where
  "cdl_variant = \<lparr>arith = c_int, doubly = True, circular = True,
     close_list = (\<lambda>h list tail. do { l \<leftarrow> list; h \<leftarrow> set_prev h l tail; t \<leftarrow> tail; set_next h t list })\<rparr>"

definition LL_SORT :: "'e mem \<Rightarrow> ptr option \<Rightarrow> ('e \<Rightarrow> 'e \<Rightarrow> int) \<Rightarrow> ('e mem \<times> ptr option) option" where
  "LL_SORT h list cmp = (if list = None then Some (h, list) else do { (h, list, tail) \<leftarrow> sort_loop ll_variant cmp 1 h list; Some (h, list) })"

definition DL_SORT :: "'e mem \<Rightarrow> ptr option \<Rightarrow> ('e \<Rightarrow> 'e \<Rightarrow> int) \<Rightarrow> ('e mem \<times> ptr option) option" where
  "DL_SORT h list cmp = (if list = None then Some (h, list) else do { (h, list, tail) \<leftarrow> sort_loop dl_variant cmp 1 h list; Some (h, list) })"

definition CDL_SORT :: "'e mem \<Rightarrow> ptr option \<Rightarrow> ('e \<Rightarrow> 'e \<Rightarrow> int) \<Rightarrow> ('e mem \<times> ptr option) option" where
  "CDL_SORT h list cmp = (if list = None then Some (h, list) else do { (h, list, tail) \<leftarrow> sort_loop cdl_variant cmp 1 h list; Some (h, list) })"

subsection \<open>Merging on lists\<close>

fun merge_runs :: "('a \<Rightarrow> 'a \<Rightarrow> bool) \<Rightarrow> 'a list \<Rightarrow> 'a list \<Rightarrow> 'a list" where
  "merge_runs le [] ys = ys"
| "merge_runs le xs [] = xs"
| "merge_runs le (x # xs) (y # ys) =
     (if le x y then x # merge_runs le xs (y # ys) else y # merge_runs le (x # xs) ys)"

function merge_pass :: "('a \<Rightarrow> 'a \<Rightarrow> bool) \<Rightarrow> nat \<Rightarrow> 'a list \<Rightarrow> 'a list" where
  "merge_pass le k zs =
     (if zs = [] \<or> k = 0 then zs
      else merge_runs le (take k zs) (take k (drop k zs)) @ merge_pass le k (drop k (drop k zs)))"
  by pat_completeness auto
termination by (relation "measure (\<lambda>(le, k, zs). length zs)") auto

function runs :: "nat \<Rightarrow> 'a list \<Rightarrow> nat" where
  "runs k zs = (if zs = [] \<or> k = 0 then 0 else Suc (runs k (drop k (drop k zs))))"
  by pat_completeness auto
termination by (relation "measure (\<lambda>(k, zs). length zs)") auto

declare merge_pass.simps [simp del] runs.simps [simp del]

lemma mset_merge_runs [simp]: "mset (merge_runs le xs ys) = mset xs + mset ys"
  by (induction le xs ys rule: merge_runs.induct) auto

lemma set_merge_runs [simp]: "set (merge_runs le xs ys) = set xs \<union> set ys"
  by (metis mset_merge_runs set_mset_mset set_mset_union)

lemma length_merge_runs [simp]: "length (merge_runs le xs ys) = length xs + length ys"
  by (metis mset_merge_runs size_mset size_union)

lemma distinct_merge_runs [simp]: "distinct (merge_runs le xs ys) = distinct (xs @ ys)"
  by (metis mset_append mset_eq_imp_distinct_iff mset_merge_runs)

lemma mset_take_drop2: "mset (take k zs) + mset (take k (drop k zs)) + mset (drop k (drop k zs)) = mset zs"
  by (metis append_take_drop_id mset_append add.assoc)

lemma mset_merge_pass [simp]: "mset (merge_pass le k zs) = mset zs"
proof (induction le k zs rule: merge_pass.induct)
  case (1 le k zs)
  show ?case
  proof (cases "zs = [] \<or> k = 0")
    case False
    with 1 have "mset (merge_pass le k (drop k (drop k zs))) = mset (drop k (drop k zs))" by blast
    with False mset_take_drop2 [of k zs] show ?thesis
      by (subst merge_pass.simps) (simp only: if_False mset_append mset_merge_runs)
  qed (subst merge_pass.simps, auto)
qed

lemma set_merge_pass [simp]: "set (merge_pass le k zs) = set zs"
  by (metis mset_merge_pass set_mset_mset)

lemma length_merge_pass [simp]: "length (merge_pass le k zs) = length zs"
  by (metis mset_merge_pass size_mset)

lemma distinct_merge_pass [simp]: "distinct (merge_pass le k zs) = distinct zs"
  by (metis mset_merge_pass mset_eq_imp_distinct_iff)

text \<open>One merge is left exactly when the runs have half the length of the list.\<close>

lemma runs_0: "0 < k \<Longrightarrow> runs k zs = 0 \<longleftrightarrow> zs = []"
  by (subst runs.simps) simp

lemma runs_le_1: "0 < k \<Longrightarrow> runs k zs \<le> 1 \<longleftrightarrow> length zs \<le> 2 * k"
  by (subst runs.simps) (auto simp: runs_0)

lemma runs_le_length: "runs k zs \<le> length zs"
proof (induction k zs rule: runs.induct)
  case (1 k zs)
  show ?case
  proof (cases "zs = [] \<or> k = 0")
    case False
    with 1 have "runs k (drop k (drop k zs)) \<le> length (drop k (drop k zs))" by blast
    also have "\<dots> < length zs" using False by (cases zs) auto
    finally show ?thesis using False by (subst runs.simps) simp
  qed (subst runs.simps, auto)
qed

text \<open>Merging keeps runs sorted and equivalent elements in their order.\<close>

definition not_greater :: "'a comparator \<Rightarrow> 'a \<Rightarrow> 'a \<Rightarrow> bool" where
  "not_greater C x y \<longleftrightarrow> compare C x y \<noteq> Greater"

lemma sorted_merge_runs:
  "sorted C xs \<Longrightarrow> sorted C ys \<Longrightarrow> sorted C (merge_runs (not_greater C) xs ys)"
proof (induction "not_greater C" xs ys rule: merge_runs.induct)
  case (3 x xs y ys)
  show ?case
  proof (cases "not_greater C x y")
    case True
    then have "compare C x w \<noteq> Greater" if "w \<in> set (y # ys)" for w
      using that 3(4) sorted_Cons_imp_not_less [of C y ys w] compare.trans_not_greater [of C x y w]
      by (auto simp: not_greater_def)
    moreover have "sorted C (merge_runs (not_greater C) xs (y # ys))"
      using 3 True sorted_Cons_imp_sorted [of C x xs] by blast
    ultimately show ?thesis
      using True 3(3) sorted_append_iff [of C "[x]"] sorted_Cons_imp_not_less [of C x xs] by auto
  next
    case False
    then have yx: "compare C y x \<noteq> Greater" by (auto simp: not_greater_def compare.greater_iff_sym_less)
    then have "compare C y w \<noteq> Greater" if "w \<in> set (x # xs)" for w
      using that 3(3) sorted_Cons_imp_not_less [of C x xs w] compare.trans_not_greater [of C y x w] by auto
    moreover have "sorted C (merge_runs (not_greater C) (x # xs) ys)"
      using 3 False sorted_Cons_imp_sorted [of C y ys] by blast
    ultimately show ?thesis
      using False 3(4) sorted_append_iff [of C "[y]"] sorted_Cons_imp_not_less [of C y ys] by auto
  qed
qed auto

lemma stable_merge_runs:
  "sorted C xs \<Longrightarrow> stable_segment C z (merge_runs (not_greater C) xs ys) = stable_segment C z xs @ stable_segment C z ys"
proof (induction "not_greater C" xs ys rule: merge_runs.induct)
  case (3 x xs y ys)
  show ?case
  proof (cases "not_greater C x y")
    case True
    then show ?thesis using 3 sorted_Cons_imp_sorted [of C x xs] by auto
  next
    case False
    then have yx: "compare C y x = Less" by (simp add: not_greater_def compare.greater_iff_sym_less)
    have "compare C z w \<noteq> Equiv" if w: "w \<in> set (x # xs)" and zy: "compare C z y = Equiv" for w
    proof -
      have "compare C x w \<noteq> Greater" using w 3(3) sorted_Cons_imp_not_less [of C x xs w] by auto
      then have "compare C y w = Less" using yx
        by (cases "compare C x w") (auto intro: compare.trans_less compare.trans_less_equiv)
      then show ?thesis using zy compare.trans_equiv_less [of C z y w] by simp
    qed
    then have "compare C z y = Equiv \<Longrightarrow> stable_segment C z (x # xs) = []"
      by (simp add: filter_empty_conv)
    then show ?thesis using 3 False by auto
  qed
qed auto

text \<open>A pass doubles the length of the sorted runs.\<close>

function sorted_runs :: "'a comparator \<Rightarrow> nat \<Rightarrow> 'a list \<Rightarrow> bool" where
  "sorted_runs C k zs = (if zs = [] \<or> k = 0 then True else sorted C (take k zs) \<and> sorted_runs C k (drop k zs))"
  by pat_completeness auto
termination by (relation "measure (\<lambda>(C, k, zs). length zs)") auto

declare sorted_runs.simps [simp del]

lemma sorted_runs_1: "sorted_runs C 1 zs"
proof (induction zs)
  case Nil
  show ?case by (simp add: sorted_runs.simps)
next
  case (Cons z zs)
  then show ?case by (subst sorted_runs.simps) simp
qed

lemma sorted_runs_all: "0 < k \<Longrightarrow> length zs \<le> k \<Longrightarrow> sorted_runs C k zs \<Longrightarrow> sorted C zs"
  by (subst (asm) sorted_runs.simps) (auto split: if_splits)

lemma sorted_runs_append:
  assumes "sorted C xs" and "sorted_runs C k ys" and "0 < k" "length xs \<le> k" "length xs = k \<or> ys = []"
  shows "sorted_runs C k (xs @ ys)"
proof -
  have "take k (xs @ ys) = xs" "drop k (xs @ ys) = ys" using assms(4,5) by auto
  then show ?thesis using assms(1,2) by (subst sorted_runs.simps) simp
qed

lemma merge_pass_runs:
  "sorted_runs C k zs \<Longrightarrow> 0 < k \<Longrightarrow>
   sorted_runs C (2 * k) (merge_pass (not_greater C) k zs) \<and>
   stable_segment C z (merge_pass (not_greater C) k zs) = stable_segment C z zs"
proof (induction "not_greater C" k zs rule: merge_pass.induct)
  case (1 k zs)
  show ?case
  proof (cases "zs = []")
    case True
    then show ?thesis by (simp add: merge_pass.simps sorted_runs.simps)
  next
    case False
    let ?a = "take k zs" and ?b = "take k (drop k zs)" and ?r = "drop k (drop k zs)"
    let ?m = "merge_runs (not_greater C) ?a ?b" and ?n = "merge_pass (not_greater C) k ?r"
    have k: "sorted C ?a" "sorted_runs C k (drop k zs)"
      using 1(2,3) False by (auto simp add: sorted_runs.simps [of C k zs])
    then have s: "sorted C ?b" "sorted_runs C k ?r"
      using 1(3) sorted_runs.simps [of C k "drop k zs"] sorted_runs.simps [of C k "[]"]
      by (auto simp del: drop_drop split: if_splits)
    have IH: "sorted_runs C (2 * k) ?n" "stable_segment C z ?n = stable_segment C z ?r"
      using 1(1) s(2) False 1(3) by auto
    have "sorted_runs C (2 * k) (?m @ ?n)"
    proof (rule sorted_runs_append)
      show "length ?m = 2 * k \<or> ?n = []"
        by (cases "length zs \<le> 2 * k") (auto simp: merge_pass.simps [of _ _ "[]"])
    qed (use sorted_merge_runs [OF k(1) s(1)] IH(1) 1(3) in auto)
    moreover have "stable_segment C z zs = stable_segment C z ?a @ stable_segment C z ?b @ stable_segment C z ?r"
      by (metis append_take_drop_id filter_append)
    ultimately show ?thesis
      using False 1(3) IH(2) stable_merge_runs [OF k(1), of z ?b] by (subst (1 2) merge_pass.simps) (simp del: drop_drop)
  qed
qed

subsection \<open>The loops on the links\<close>

text \<open>The order of two elements as the macros see it.\<close>

definition elem_le :: "('e \<Rightarrow> 'e \<Rightarrow> int) \<Rightarrow> 'e mem \<Rightarrow> ptr \<Rightarrow> ptr \<Rightarrow> bool" where
  "elem_le cmp h p q \<longleftrightarrow> cmp (the (payload h p)) (the (payload h q)) \<le> 0"

lemma elem_le_same: "same_payload h h' \<Longrightarrow> elem_le cmp h' = elem_le cmp h"
  by (simp add: elem_le_def same_payload_def fun_eq_iff)

text \<open>\<open>counts v n\<close>: the counters of the variant hold every number up to \<open>n\<close>.\<close>

definition counts :: "'e sort_variant \<Rightarrow> int \<Rightarrow> bool" where
  "counts v n \<longleftrightarrow> (\<forall>i. 0 \<le> i \<and> i \<le> n \<longrightarrow> arith v i = Some i)"

lemma countsD: "counts v n \<Longrightarrow> 0 \<le> i \<Longrightarrow> i \<le> n \<Longrightarrow> arith v i = Some i"
  by (simp add: counts_def)

lemma sort_next_tail:
  assumes "nexts (get_next h) (p # zs) old" and "old \<notin> Some ` set zs"
  shows "sort_next old h p = Some (first zs None)"
  using assms by (cases zs) (auto simp: sort_next_def)

lemma sort_next_other:
  assumes "nexts (get_next h) (p # z # zs) y" and "old \<noteq> Some z"
  shows "sort_next old h p = Some (Some z)"
  using assms by (simp add: sort_next_def)

lemma sort_advance_run:
  assumes "nexts (get_next h) zs old" "zs \<noteq> []" "old \<notin> Some ` set (tl zs)"
    and "counts v insize" "0 \<le> i" "i < insize" "nat (insize - i) = k"
  shows "sort_advance v old h insize i i (hd zs) =
    Some (i + int (min k (length zs)), first (drop k zs) None)"
  using assms
proof (induction k arbitrary: i zs)
  case 0
  then show ?case by simp
next
  case (Suc k)
  then obtain z zs' where zs: "zs = z # zs'" by (cases zs) auto
  have n: "sort_next old h z = Some (first zs' None)"
    using Suc.prems(1,3) zs sort_next_tail [of h z zs' old] by simp
  have a: "arith v (i + 1) = Some (i + 1)" using countsD [OF Suc.prems(4)] Suc.prems(5,6) by simp
  show ?case
  proof (cases zs')
    case Nil
    then show ?thesis using zs n a Suc.prems(6) by (subst sort_advance.simps) simp
  next
    case (Cons z2 zs2)
    show ?thesis
    proof (cases "i + 1 < insize")
      case True
      have "sort_advance v old h insize (i + 1) (i + 1) (hd zs') =
          Some (i + 1 + int (min k (length zs')), first (drop k zs') None)"
        using Suc.prems zs Cons True by (intro Suc.IH) auto
      then show ?thesis using zs n a Suc.prems(6) Cons by (subst sort_advance.simps) simp
    next
      case False
      then have "k = 0" "insize = i + 1" using Suc.prems(6,7) by linarith+
      then show ?thesis
        using zs n a Cons by (subst sort_advance.simps) (simp add: sort_advance.simps [of _ _ _ _ "i + 1"])
    qed
  qed
qed

text \<open>The list under construction: its links are set but for the \<open>next\<close> of its last element, and \<open>prev\<close>
  of the first one is NULL.\<close>

definition emitted :: "'e sort_variant \<Rightarrow> 'e mem \<Rightarrow> ptr list \<Rightarrow> bool" where
  "emitted v h ds \<longleftrightarrow> nexts (get_next h) (butlast ds) (final None ds) \<and> (doubly v \<longrightarrow> prevs (get_prev h) None ds)"

lemma sort_emit_step:
  assumes em: "emitted v h ds" and d: "distinct (ds @ [e])" and al: "\<forall>p \<in> set (ds @ [e]). alive h p"
  shows "\<exists>h'. sort_emit v h (first ds None) (final None ds) e = Some (h', first (ds @ [e]) None) \<and>
    emitted v h' (ds @ [e]) \<and> same_payload h h' \<and> (\<forall>p. p \<notin> set ds \<longrightarrow> get_next h' p = get_next h p)"
proof (cases ds rule: rev_cases)
  case Nil
  with al show ?thesis by (auto simp: sort_emit_def emitted_def link_simps)
next
  case (snoc us t)
  with em d al show ?thesis
    by (cases us; cases "doubly v") (auto simp: sort_emit_def emitted_def link_simps butlast_append)
qed

text \<open>The state of a merge: \<open>ds\<close> is done, \<open>xs\<close> and \<open>ys\<close> are what is left of the two runs, \<open>rest\<close> comes behind
  them.  The counter of the second run may exceed its length only when the list ends with it.\<close>

definition merging :: "'e sort_variant \<Rightarrow> ptr option \<Rightarrow> 'e mem \<Rightarrow> ptr list \<Rightarrow> ptr list \<Rightarrow> ptr list \<Rightarrow> ptr list \<Rightarrow>
    ptr option \<Rightarrow> int \<Rightarrow> bool" where
  "merging v old h ds xs ys rest p qsize \<longleftrightarrow>
     (\<exists>y. nexts (get_next h) xs y) \<and> nexts (get_next h) (ys @ rest) old \<and>
     old \<notin> Some ` set (tl xs) \<and> old \<notin> Some ` set (ys @ rest) \<and>
     distinct (ds @ xs @ ys @ rest) \<and> (\<forall>p \<in> set (ds @ xs @ ys @ rest). alive h p) \<and> emitted v h ds \<and>
     int (length ys) \<le> qsize \<and> (int (length ys) < qsize \<longrightarrow> rest = []) \<and> (xs \<noteq> [] \<longrightarrow> p = Some (hd xs))"

lemma sort_take_p:
  assumes m: "merging v old h ds (x # xs) ys rest p qsize" and le: "ys = [] \<or> elem_le cmp h x (hd ys)"
  shows "\<exists>p'. sort_take old cmp h p (first (ys @ rest) None) (int (length (x # xs))) qsize =
    Some (x, p', first (ys @ rest) None, int (length xs), qsize) \<and> (xs \<noteq> [] \<longrightarrow> p' = Some (hd xs))"
proof -
  have "\<exists>p'. sort_next old h x = Some p' \<and> (xs \<noteq> [] \<longrightarrow> p' = Some (hd xs))"
    using m by (cases xs) (auto simp: merging_def sort_next_def)
  moreover have "ys = [] \<Longrightarrow> qsize = 0 \<or> first (ys @ rest) None = None"
    using m by (auto simp: merging_def)
  moreover have "ys \<noteq> [] \<Longrightarrow> qsize \<noteq> 0 \<and> first (ys @ rest) None = Some (hd ys) \<and> payload h x \<noteq> None \<and> payload h (hd ys) \<noteq> None"
    using m by (cases ys) (auto simp: merging_def payload_alive)
  ultimately show ?thesis
    using m le by (cases "ys = []") (auto simp: sort_take_def merging_def elem_le_def Let_def simp del: first_append)
qed

lemma sort_take_q:
  assumes m: "merging v old h ds xs (y # ys) rest p qsize" and le: "xs = [] \<or> \<not> elem_le cmp h (hd xs) y"
  shows "sort_take old cmp h p (first ((y # ys) @ rest) None) (int (length xs)) qsize =
    Some (y, p, first (ys @ rest) None, int (length xs), qsize - 1)"
proof -
  have "sort_next old h y = Some (first (ys @ rest) None)"
    using m sort_next_tail [of h y "ys @ rest" old] by (auto simp: merging_def)
  moreover have "qsize \<noteq> 0" using m by (auto simp: merging_def)
  moreover have "alive h y" "xs \<noteq> [] \<Longrightarrow> alive h (hd xs)" using m by (auto simp: merging_def)
  then have "xs \<noteq> [] \<Longrightarrow> \<exists>a b. payload h (hd xs) = Some a \<and> payload h y = Some b \<and> \<not> cmp a b \<le> 0"
    using le by (auto simp: elem_le_def payload_alive)
  ultimately show ?thesis
    using m by (cases "xs = []") (auto simp: sort_take_def merging_def Let_def simp del: first_append)
qed

text \<open>Emitting the chosen element keeps the state of the merge.\<close>

lemma merging_emit:
  assumes m: "merging v old h ds xs ys rest p qsize"
    and c: "xs = e # xs' \<and> ys' = ys \<and> qsize' = qsize \<and> (xs' \<noteq> [] \<longrightarrow> p' = Some (hd xs')) \<or>
      ys = e # ys' \<and> xs' = xs \<and> qsize' = qsize - 1 \<and> p' = p"
  shows "\<exists>h'. sort_emit v h (first ds None) (final None ds) e = Some (h', first (ds @ [e]) None) \<and>
    same_payload h h' \<and> merging v old h' (ds @ [e]) xs' ys' rest p' qsize'"
proof -
  have "emitted v h ds" "distinct (ds @ [e])" "\<forall>p \<in> set (ds @ [e]). alive h p" using m c by (auto simp: merging_def)
  from sort_emit_step [OF this] obtain h' where
    h': "sort_emit v h (first ds None) (final None ds) e = Some (h', first (ds @ [e]) None)" "emitted v h' (ds @ [e])"
      "same_payload h h'" "\<forall>p. p \<notin> set ds \<longrightarrow> get_next h' p = get_next h p" by blast
  have "set xs' \<inter> set ds = {}" "set (ys' @ rest) \<inter> set ds = {}" using m c by (auto simp: merging_def)
  then have "nexts (get_next h') xs' y = nexts (get_next h) xs' y" "nexts (get_next h') (ys' @ rest) y = nexts (get_next h) (ys' @ rest) y" for y
    using h'(4) by (intro nexts_cong; auto)+
  moreover have "set (tl xs') \<subseteq> set (tl xs)" using c by (cases xs') auto
  ultimately have "merging v old h' (ds @ [e]) xs' ys' rest p' qsize'"
    using m c h'(2) same_payload_alive [OF h'(3)] by (auto simp: merging_def)
  with h' show ?thesis by blast
qed

lemma sort_merge_runs:
  assumes "merging v old h ds xs ys rest p qsize"
  shows "\<exists>h'. sort_merge v old cmp h (first ds None) (final None ds) p (first (ys @ rest) None) (int (length xs)) qsize =
      Some (h', first (ds @ merge_runs (elem_le cmp h) xs ys) None, final None (ds @ merge_runs (elem_le cmp h) xs ys), first rest None) \<and>
    same_payload h h' \<and> emitted v h' (ds @ merge_runs (elem_le cmp h) xs ys) \<and> nexts (get_next h') rest old"
  using assms
proof (induction n \<equiv> "length xs + length ys" arbitrary: h ds xs ys p qsize)
  case 0
  then have "xs = []" "ys = []" by auto
  moreover have "0 < qsize \<Longrightarrow> rest = []" using "0.prems" \<open>ys = []\<close> by (auto simp: merging_def)
  ultimately show ?case using "0.prems" by (subst sort_merge.simps) (auto simp: merging_def)
next
  case (Suc n)
  let ?le = "elem_le cmp h"
  have loop: "int (length xs) > 0 \<or> qsize > 0 \<and> first (ys @ rest) None \<noteq> None"
    using Suc.hyps(2) Suc.prems by (cases xs; cases ys) (auto simp: merging_def)
  obtain e xs' ys' p' qsize' where
    t: "sort_take old cmp h p (first (ys @ rest) None) (int (length xs)) qsize =
        Some (e, p', first (ys' @ rest) None, int (length xs'), qsize')"
    and c: "xs = e # xs' \<and> ys' = ys \<and> qsize' = qsize \<and> (xs' \<noteq> [] \<longrightarrow> p' = Some (hd xs')) \<or>
      ys = e # ys' \<and> xs' = xs \<and> qsize' = qsize - 1 \<and> p' = p"
    and mr: "merge_runs ?le xs ys = e # merge_runs ?le xs' ys'"
  proof (cases "xs \<noteq> [] \<and> (ys = [] \<or> ?le (hd xs) (hd ys))")
    case True
    then obtain x xs' where x: "xs = x # xs'" by (cases xs) auto
    from sort_take_p [of v old h ds x xs' ys rest p qsize cmp] Suc.prems x True obtain p' where
      "sort_take old cmp h p (first (ys @ rest) None) (int (length xs)) qsize =
        Some (x, p', first (ys @ rest) None, int (length xs'), qsize)" "xs' \<noteq> [] \<longrightarrow> p' = Some (hd xs')" by auto
    moreover have "merge_runs ?le xs ys = x # merge_runs ?le xs' ys" using True x by (cases ys; cases xs') auto
    ultimately show ?thesis using that x by blast
  next
    case False
    then obtain y ys' where y: "ys = y # ys'" "xs = [] \<or> \<not> ?le (hd xs) y"
      using Suc.hyps(2) by (cases ys; cases xs) auto
    from sort_take_q [of v old h ds xs y ys' rest p qsize cmp] Suc.prems y
    have "sort_take old cmp h p (first (ys @ rest) None) (int (length xs)) qsize =
        Some (y, p, first (ys' @ rest) None, int (length xs), qsize - 1)" by auto
    moreover have "merge_runs ?le xs ys = y # merge_runs ?le xs ys'" using y by (cases xs; cases ys') auto
    ultimately show ?thesis using that y(1) by blast
  qed
  from merging_emit [OF Suc.prems c] obtain h1 where h1: "sort_emit v h (first ds None) (final None ds) e = Some (h1, first (ds @ [e]) None)"
    "same_payload h h1" "merging v old h1 (ds @ [e]) xs' ys' rest p' qsize'" by blast
  have "n = length xs' + length ys'" using Suc.hyps(2) c by auto
  from Suc.hyps(1) [OF this h1(3)] obtain h2 where
    h2: "sort_merge v old cmp h1 (first (ds @ [e]) None) (final None (ds @ [e])) p' (first (ys' @ rest) None) (int (length xs')) qsize' =
      Some (h2, first (ds @ [e] @ merge_runs ?le xs' ys') None, final None (ds @ [e] @ merge_runs ?le xs' ys'), first rest None)"
    "same_payload h1 h2" "emitted v h2 (ds @ [e] @ merge_runs ?le xs' ys')" "nexts (get_next h2) rest old"
    by (auto simp: elem_le_same [OF h1(2)])
  have "sort_merge v old cmp h (first ds None) (final None ds) p (first (ys @ rest) None) (int (length xs)) qsize =
      sort_merge v old cmp h1 (first (ds @ [e]) None) (final None (ds @ [e])) p' (first (ys' @ rest) None) (int (length xs')) qsize'"
    using loop t h1(1) by (subst sort_merge.simps) (simp del: first_append)
  with h2 show ?case using mr same_payload_trans [OF h1(2) h2(2)] by auto
qed

lemma take_drop2: "take k zs @ take k (drop k zs) @ drop k (drop k zs) = zs"
  by (metis append_take_drop_id)

lemma tl_run_subset:
  assumes "0 < k"
  shows "set (tl (take k zs)) \<subseteq> set (tl zs)" "set (drop k zs) \<subseteq> set (tl zs)" "set (tl (drop k (drop k zs))) \<subseteq> set (tl zs)"
proof -
  show *: "set (drop k zs) \<subseteq> set (tl zs)" using assms set_drop_subset [of "k - 1" "tl zs"] by (simp add: drop_Suc flip: drop_Suc)
  show "set (tl (take k zs)) \<subseteq> set (tl zs)" using set_take_subset [of "k - 1" "tl zs"] by (simp add: tl_take)
  show "set (tl (drop k (drop k zs))) \<subseteq> set (tl zs)"
    using * set_drop_subset [of k "drop k zs"] list.set_sel(2) [of "drop k (drop k zs)"] by (cases "drop k (drop k zs)") auto
qed

lemma merging_start:
  assumes "nexts (get_next h) zs old" "old \<notin> Some ` set (tl zs)" "distinct (ds @ zs)" "\<forall>p \<in> set (ds @ zs). alive h p"
    and "emitted v h ds" "0 < k" "zs \<noteq> []"
  shows "merging v old h ds (take k zs) (take k (drop k zs)) (drop k (drop k zs)) (Some (hd zs)) (int k)"
  unfolding merging_def
proof (intro conjI)
  have nx: "nexts (get_next h) (take k zs) (first (drop k zs) old)" "nexts (get_next h) (drop k zs) old"
    using assms(1) nexts_append [of "get_next h" "take k zs" "drop k zs" old] by (simp_all del: nexts_append)
  show "\<exists>y. nexts (get_next h) (take k zs) y" "nexts (get_next h) (take k (drop k zs) @ drop k (drop k zs)) old"
    unfolding append_take_drop_id using nx by blast+
  show "old \<notin> Some ` set (tl (take k zs))" "old \<notin> Some ` set (take k (drop k zs) @ drop k (drop k zs))"
    unfolding append_take_drop_id using assms(2) tl_run_subset [OF assms(6), of zs] by blast+
  show "distinct (ds @ take k zs @ take k (drop k zs) @ drop k (drop k zs))"
      "\<forall>p \<in> set (ds @ take k zs @ take k (drop k zs) @ drop k (drop k zs)). alive h p"
    unfolding take_drop2 using assms(3,4) by blast+
  show "take k zs \<noteq> [] \<longrightarrow> Some (hd zs) = Some (hd (take k zs))" using assms(6) by simp
qed (use assms(5) in auto)

lemma sort_pass_list:
  assumes "nexts (get_next h) zs old" "old \<notin> Some ` set (tl zs)" "distinct (ds @ zs)" "\<forall>p \<in> set (ds @ zs). alive h p"
    and "emitted v h ds" "counts v n" "0 < k" "int k \<le> n" "0 \<le> nm" "nm + int (runs k zs) \<le> n"
  shows "\<exists>h'. sort_pass v old cmp (int k) h (first ds None) (final None ds) (first zs None) nm =
      Some (h', first (ds @ merge_pass (elem_le cmp h) k zs) None, final None (ds @ merge_pass (elem_le cmp h) k zs), nm + int (runs k zs)) \<and>
    same_payload h h' \<and> emitted v h' (ds @ merge_pass (elem_le cmp h) k zs)"
  using assms(1-5,9,10)
proof (induction "length zs" arbitrary: h ds zs nm rule: less_induct)
  case less
  show ?case
  proof (cases "zs = []")
    case True
    with less.prems show ?thesis by (subst sort_pass.simps) (simp add: merge_pass.simps runs.simps)
  next
    case False
    let ?a = "take k zs" and ?b = "take k (drop k zs)" and ?r = "drop k (drop k zs)" and ?le = "elem_le cmp h"
    let ?m = "merge_runs ?le ?a ?b"
    have z: "first zs None = Some (hd zs)" using False by (cases zs) auto
    have adv: "sort_advance v old h (int k) 0 0 (hd zs) = Some (int (length ?a), first (drop k zs) None)"
      using sort_advance_run [of h zs old v "int k" 0 k] less.prems False assms(6-8)
      by (auto simp: counts_def min.commute simp del: length_drop)
    note st = merging_start [OF less.prems(1-5) assms(7) False]
    from sort_merge_runs [OF st, of cmp] obtain h1 where h1:
      "sort_merge v old cmp h (first ds None) (final None ds) (Some (hd zs)) (first (drop k zs) None) (int (length ?a)) (int k) =
        Some (h1, first (ds @ ?m) None, final None (ds @ ?m), first ?r None)"
      "same_payload h h1" "emitted v h1 (ds @ ?m)" "nexts (get_next h1) ?r old"
      unfolding append_take_drop_id by blast
    have ru: "runs k zs = Suc (runs k ?r)" using False assms(7) by (subst runs.simps) simp
    have mp: "merge_pass ?le k zs = ?m @ merge_pass ?le k ?r" using False assms(7) by (subst merge_pass.simps) simp
    have "distinct (ds @ ?a @ ?b @ ?r)" "\<forall>p \<in> set (ds @ ?a @ ?b @ ?r). alive h p" using st unfolding merging_def by blast+
    then have d: "distinct ((ds @ ?m) @ ?r)" "\<forall>p \<in> set ((ds @ ?m) @ ?r). alive h1 p"
      unfolding same_payload_alive [OF h1(2)] distinct_append set_append distinct_merge_runs set_merge_runs by blast+
    have o: "old \<notin> Some ` set (tl ?r)" using less.prems(2) tl_run_subset(3) [OF assms(7), of zs] by blast
    have "length ?r < length zs" "0 \<le> nm + 1" "nm + 1 + int (runs k ?r) \<le> n" using False assms(7) less.prems(6,7) ru by auto
    from less.hyps [OF this(1) h1(4) o d h1(3) this(2,3)] obtain h2 where
      "sort_pass v old cmp (int k) h1 (first (ds @ ?m) None) (final None (ds @ ?m)) (first ?r None) (nm + 1) =
        Some (h2, first ((ds @ ?m) @ merge_pass ?le k ?r) None, final None ((ds @ ?m) @ merge_pass ?le k ?r), nm + 1 + int (runs k ?r))"
      "same_payload h1 h2" "emitted v h2 ((ds @ ?m) @ merge_pass ?le k ?r)"
      unfolding elem_le_same [OF h1(2)] by blast
    moreover have "arith v (nm + 1) = Some (nm + 1)" using countsD [OF assms(6)] less.prems(6,7) ru by simp
    ultimately show ?thesis
      using adv h1(1) same_payload_trans [OF h1(2)] z
      by (subst sort_pass.simps) (simp add: mp ru Let_def del: first_append final_append drop_drop)
  qed
qed

subsection \<open>The sorting macros\<close>

lemma sort_merge_pass:
  assumes "sorted_runs C k zs" and "0 < k"
  shows "sort C (merge_pass (not_greater C) k zs) = sort C zs"
  by (rule sort_eqI [symmetric]) (use merge_pass_runs [OF assms] in \<open>simp_all add: stable_sort\<close>)

text \<open>\<open>ranks cmp C\<close>: the comparison function \<open>cmp\<close> of the program computes the comparator \<open>C\<close>.  A comparator is
  reflexive and transitive; without that no sorting is defined.\<close>

definition ranks :: "('e \<Rightarrow> 'e \<Rightarrow> int) \<Rightarrow> 'e comparator \<Rightarrow> bool" where
  "ranks cmp C \<longleftrightarrow> (\<forall>a b. cmp a b \<le> 0 \<longleftrightarrow> compare C a b \<noteq> Greater)"

definition by_payload :: "'e mem \<Rightarrow> 'e comparator \<Rightarrow> ptr comparator" where
  "by_payload h C = key (\<lambda>p. the (payload h p)) C"

lemma elem_le_ranks: "ranks cmp C \<Longrightarrow> elem_le cmp h = not_greater (by_payload h C)"
  by (simp add: ranks_def elem_le_def not_greater_def by_payload_def fun_eq_iff)

lemma by_payload_same: "same_payload h h' \<Longrightarrow> by_payload h' C = by_payload h C"
  by (simp add: by_payload_def same_payload_def)

locale list_sort =
  fixes rep :: "'e mem \<Rightarrow> ptr option \<Rightarrow> ptr list \<Rightarrow> bool" and v :: "'e sort_variant"
  assumes rep_links: "rep h head ps \<Longrightarrow> head = first ps None \<and> distinct ps \<and>
      nexts (get_next h) ps (if circular v then head else None)"
    and close: "emitted v h ps \<Longrightarrow> distinct ps \<Longrightarrow> ps \<noteq> [] \<Longrightarrow> \<forall>p \<in> set ps. alive h p \<Longrightarrow>
      \<exists>h'. close_list v h (first ps None) (final None ps) = Some h' \<and> rep h' (first ps None) ps \<and> same_payload h h'"
    and counting: "counts v INT_MAX"
begin

lemma pass:
  assumes r: "rep h head ps" and "ps \<noteq> []" and C: "ranks cmp C" and k: "0 < k" "int k \<le> INT_MAX" "int (length ps) \<le> INT_MAX"
  defines "qs \<equiv> merge_pass (not_greater (by_payload h C)) k ps"
  shows "\<exists>h1 h2. sort_pass v (if circular v then head else None) cmp (int k) h None None head 0 =
      Some (h1, first qs None, final None qs, int (runs k ps)) \<and>
    close_list v h1 (first qs None) (final None qs) = Some h2 \<and> rep h2 (first qs None) qs \<and> same_payload h h2"
proof -
  let ?old = "if circular v then head else None"
  have l: "head = first ps None" "distinct ps" "nexts (get_next h) ps ?old" using rep_links [OF r] by auto
  have "?old \<notin> Some ` set (tl ps)" using l(1,2) by (cases ps) auto
  moreover have "\<forall>p \<in> set ps. alive h p" using nexts_alive [OF l(3)] by blast
  ultimately obtain h1 where 1: "sort_pass v ?old cmp (int k) h None None head 0 = Some (h1, first qs None, final None qs, int (runs k ps))"
    "same_payload h h1" "emitted v h1 qs"
    using sort_pass_list [of h ps ?old "[]" v INT_MAX k 0 cmp] l k counting runs_le_length [of k ps]
    by (auto simp: emitted_def elem_le_ranks [OF C] qs_def)
  have "distinct qs" "qs \<noteq> []" "\<forall>p \<in> set qs. alive h1 p"
    using l(2) assms(2) \<open>\<forall>p \<in> set ps. alive h p\<close> same_payload_alive [OF 1(2)]
    by (auto simp: qs_def simp flip: length_greater_0_conv)
  from close [OF 1(3) this] 1 same_payload_trans [OF 1(2)] show ?thesis by blast
qed

lemma loop:
  assumes "rep h head ps" and "ps \<noteq> []" and "ranks cmp C" and "length ps \<le> 2 ^ 30"
    and "sorted_runs (by_payload h C) k ps" and "0 < k" "k = 1 \<or> k < length ps"
  shows "\<exists>h' head'. sort_loop v cmp (int k) h head = Some (h', head', final None (sort (by_payload h C) ps)) \<and>
    rep h' head' (sort (by_payload h C) ps) \<and> same_payload h h'"
  using assms
proof (induction "length ps - k" arbitrary: h head ps k rule: less_induct)
  case less
  let ?C = "by_payload h C" and ?old = "if circular v then head else None"
  let ?qs = "merge_pass (not_greater ?C) k ps"
  have k: "int k \<le> INT_MAX" "int (length ps) \<le> INT_MAX" "int (2 * k) \<le> INT_MAX"
    using less.prems(4,7) by (auto simp: INT_MAX_def)
  from pass [OF less.prems(1,2,3,6) k(1,2)] obtain h1 h2 where p:
    "sort_pass v ?old cmp (int k) h None None head 0 = Some (h1, first ?qs None, final None ?qs, int (runs k ps))"
    "close_list v h1 (first ?qs None) (final None ?qs) = Some h2" "rep h2 (first ?qs None) ?qs" "same_payload h h2" by blast
  have "arith v (int k * 2) = Some (int (2 * k))" using countsD [OF counting, of "int (2 * k)"] k(3) by (simp add: mult.commute)
  with p(1,2) have step: "sort_loop v cmp (int k) h head =
      (if runs k ps \<le> 1 then Some (h2, first ?qs None, final None ?qs) else sort_loop v cmp (int (2 * k)) h2 (first ?qs None))"
    by (subst sort_loop.simps) (simp add: Let_def)
  have sr: "sorted_runs ?C (2 * k) ?qs" "sort ?C ?qs = sort ?C ps"
    using merge_pass_runs [OF less.prems(5,6)] sort_merge_pass [OF less.prems(5,6)] by auto
  show ?case
  proof (cases "length ps \<le> 2 * k")
    case True
    then have "sorted ?C ?qs" using sorted_runs_all [OF _ _ sr(1)] less.prems(6) by simp
    then have "sort ?C ps = ?qs"
      using merge_pass_runs [OF less.prems(5,6)] by (intro sort_eqI) simp_all
    then show ?thesis using step True runs_le_1 [OF less.prems(6), of ps] p(3,4) by auto
  next
    case False
    have "?qs \<noteq> []" "length ps - 2 * k < length ps - k"
      using less.prems(2,6) False by (auto simp flip: length_greater_0_conv)
    with less.hyps [of ?qs "2 * k" h2 "first ?qs None"] False less.prems p(3) sr
    obtain h' head' where "sort_loop v cmp (int (2 * k)) h2 (first ?qs None) = Some (h', head', final None (sort ?C ps))"
      "rep h' head' (sort ?C ps)" "same_payload h2 h'"
      by (auto simp: by_payload_same [OF p(4)])
    then show ?thesis using step False runs_le_1 [OF less.prems(6), of ps] same_payload_trans [OF p(4)] by auto
  qed
qed

lemma sorts:
  assumes "rep h head ps" and "ranks cmp C" and "length ps \<le> 2 ^ 30"
  shows "\<exists>h' head'. (if head = None then Some (h, head) else do { (h, list, tail) \<leftarrow> sort_loop v cmp 1 h head; Some (h, list) }) = Some (h', head') \<and>
    rep h' head' (sort (by_payload h C) ps) \<and> same_payload h h'"
proof (cases "ps = []")
  case True
  with assms rep_links [OF assms(1)] show ?thesis by simp
next
  case False
  then have "head \<noteq> None" using rep_links [OF assms(1)] by (cases ps) auto
  with loop [OF assms(1) False assms(2,3) sorted_runs_1] show ?thesis by auto
qed

end

lemmas variant_defs = ll_variant_def dl_variant_def cdl_variant_def

lemma variant_links:
  "ll_list h head ps \<Longrightarrow> head = first ps None \<and> distinct ps \<and> nexts (get_next h) ps (if circular ll_variant then head else None)"
  "dl_list h head ps \<Longrightarrow> head = first ps None \<and> distinct ps \<and> nexts (get_next h) ps (if circular dl_variant then head else None)"
  "cdl_list h head ps \<Longrightarrow> head = first ps None \<and> distinct ps \<and> nexts (get_next h) ps (if circular cdl_variant then head else None)"
  by (auto simp: list_defs variant_defs)

lemma variant_counts: "counts ll_variant INT_MAX" "counts dl_variant INT_MAX" "counts cdl_variant INT_MAX"
  by (simp_all add: counts_def variant_defs c_int_Some INT_MAX_def)

text \<open>The way each macro closes the list.\<close>

lemma ll_close:
  assumes "emitted ll_variant h ps" "distinct ps" "ps \<noteq> []" "\<forall>p \<in> set ps. alive h p"
  shows "\<exists>h'. close_list ll_variant h (first ps None) (final None ps) = Some h' \<and> ll_list h' (first ps None) ps \<and> same_payload h h'"
  using assms by (cases ps rule: rev_cases) (auto simp: emitted_def butlast_append ll_list_def link_simps ll_variant_def)

lemma dl_close:
  assumes "emitted dl_variant h ps" "distinct ps" "ps \<noteq> []" "\<forall>p \<in> set ps. alive h p"
  shows "\<exists>h'. close_list dl_variant h (first ps None) (final None ps) = Some h' \<and> dl_list h' (first ps None) ps \<and> same_payload h h'"
proof (cases ps rule: rev_cases)
  case (snoc us p)
  with assms show ?thesis
    by (cases us) (auto simp: emitted_def butlast_append dl_list_def link_simps dl_variant_def)
qed (use assms in simp)

lemma cdl_close:
  assumes "emitted cdl_variant h ps" "distinct ps" "ps \<noteq> []" "\<forall>p \<in> set ps. alive h p"
  shows "\<exists>h'. close_list cdl_variant h (first ps None) (final None ps) = Some h' \<and> cdl_list h' (first ps None) ps \<and> same_payload h h'"
proof (cases ps rule: rev_cases)
  case (snoc us p)
  with assms show ?thesis
    by (cases us) (auto simp: emitted_def butlast_append cdl_list_def link_simps cdl_variant_def)
qed (use assms in simp)

interpretation ll_sort: list_sort ll_list ll_variant
  by unfold_locales (fact variant_links variant_counts ll_close)+

interpretation dl_sort: list_sort dl_list dl_variant
  by unfold_locales (fact variant_links variant_counts dl_close)+

interpretation cdl_sort: list_sort cdl_list cdl_variant
  by unfold_locales (fact variant_links variant_counts cdl_close)+

subsection \<open>Properties\<close>

text \<open>C13: each of the three sorts ends and relinks the elements into the stable sorting of the list, for every
  comparison function that ranks the elements and every list of at most \<open>2 ^ 30\<close> elements: the
  result is well linked again, ordered, equal elements keep their order, and nothing but links changes.\<close>

theorem list_sorts_are_stable_sorting:
  assumes "ranks cmp C" and "length ps \<le> 2 ^ 30"
  shows "(ll_list h head ps \<longrightarrow> (\<exists>h' head'. LL_SORT h head cmp = Some (h', head') \<and>
            ll_list h' head' (sort (by_payload h C) ps) \<and> same_payload h h')) \<and>
         (dl_list h head ps \<longrightarrow> (\<exists>h' head'. DL_SORT h head cmp = Some (h', head') \<and>
            dl_list h' head' (sort (by_payload h C) ps) \<and> same_payload h h')) \<and>
         (cdl_list h head ps \<longrightarrow> (\<exists>h' head'. CDL_SORT h head cmp = Some (h', head') \<and>
            cdl_list h' head' (sort (by_payload h C) ps) \<and> same_payload h h'))"
  using ll_sort.sorts [OF _ assms] dl_sort.sorts [OF _ assms] cdl_sort.sorts [OF _ assms]
  unfolding LL_SORT_def DL_SORT_def CDL_SORT_def by blast

text \<open>Five elements with the keys 3, 1, 2, 1, 2 in a doubly linked list.\<close>

definition keyed_mem :: "int mem" where
  "keyed_mem = \<lparr>cells = (\<lambda>p. if p < 5 then Some \<lparr>nxt = (if p < 4 then Some (p + 1) else None),
       prv = (if p = 0 then Some 4 else Some (p - 1)), \<dots> = [3, 1, 2, 1, 2] ! p\<rparr> else None), brk = 5, limit = 5\<rparr>"

definition keycmp :: "int \<Rightarrow> int \<Rightarrow> int" where
  "keycmp a b = (if a < b then - 1 else if b < a then 1 else 0)"

lemma keyed_mem_list: "dl_list keyed_mem (Some 0) [0, 1, 2, 3, 4]"
  by (simp add: dl_list_def keyed_mem_def get_next_def get_prev_def load_def)

lemma keycmp_ranks: "ranks keycmp default"
  by (auto simp: ranks_def keycmp_def)

lemma keyed_mem_sorted: "sort (by_payload keyed_mem default) [0, 1, 2, 3, 4] = [1, 3, 2, 4, 0]"
  by (simp add: by_payload_def payload_def load_def keyed_mem_def)

theorem list_sorts_are_stable_sorting_witness:
  "\<exists>h' head'. DL_SORT keyed_mem (Some 0) keycmp = Some (h', head') \<and> dl_list h' head' [1, 3, 2, 4, 0] \<and>
     same_payload keyed_mem h'"
proof -
  have "length [0, 1, 2, 3, 4 :: ptr] \<le> 2 ^ 30" by simp
  from list_sorts_are_stable_sorting [OF keycmp_ranks this, of keyed_mem "Some 0"] keyed_mem_list show ?thesis
    unfolding keyed_mem_sorted by blast
qed

end
