(* ===== verification/Ut_Hash_Functions.thy ===== *)
theory Ut_Hash_Functions
  imports Prelude
begin

unbundle bit_operations_syntax

text \<open>
  The hash functions of \<^verbatim>\<open>2PCKVStore/uthash.h\<close>.  Each macro stores the hash value of the \<open>keylen\<close> bytes at
  \<open>key\<close> and the number of the bucket, the low bits of the hash value, in its last two arguments; in the
  model it takes the list of the bytes and the number of buckets and returns the two.  \<^verbatim>\<open>char\<close> is
  signed and words are little endian, as on x86.  The theory shows that the two functions that
  read whole words and finish with a \<^verbatim>\<open>switch\<close> that falls through, Jenkins' and MurmurHash, are the
  block functions over the key padded with zero bytes, and that a bucket number is in range.
\<close>

subsection \<open>Byte-wise functions\<close>

definition HASH_TO_BKT :: "u32 \<Rightarrow> u32 \<Rightarrow> u32" where
  "HASH_TO_BKT hashv num_bkts = hashv AND (num_bkts - 1)"

definition HASH_BER :: "u8 list \<Rightarrow> u32 \<Rightarrow> u32 \<times> u32" where
  "HASH_BER key num_bkts =
     (let hashv = foldl (\<lambda>hashv c. (push_bit 5 hashv + hashv) + scast c) 0 key
      in (hashv, hashv AND (num_bkts - 1)))"

definition HASH_SAX :: "u8 list \<Rightarrow> u32 \<Rightarrow> u32 \<times> u32" where
  "HASH_SAX key num_bkts =
     (let hashv = foldl (\<lambda>hashv c. hashv XOR (push_bit 5 hashv + drop_bit 2 hashv + scast c)) 0 key
      in (hashv, hashv AND (num_bkts - 1)))"

definition HASH_FNV :: "u8 list \<Rightarrow> u32 \<Rightarrow> u32 \<times> u32" where
  "HASH_FNV key num_bkts =
     (let hashv = foldl (\<lambda>hashv c. let hashv = hashv XOR scast c in hashv * 16777619) 2166136261 key
      in (hashv, hashv AND (num_bkts - 1)))"

definition HASH_OAT :: "u8 list \<Rightarrow> u32 \<Rightarrow> u32 \<times> u32" where
  "HASH_OAT key num_bkts =
     (let hashv = foldl (\<lambda>hashv c.
            let hashv = hashv + scast c;
                hashv = hashv + push_bit 10 hashv
            in hashv XOR drop_bit 6 hashv) 0 key;
          hashv = hashv + push_bit 3 hashv;
          hashv = hashv XOR drop_bit 11 hashv;
          hashv = hashv + push_bit 15 hashv
      in (hashv, hashv AND (num_bkts - 1)))"

subsection \<open>Jenkins' function\<close>

definition HASH_JEN_MIX :: "u32 \<times> u32 \<times> u32 \<Rightarrow> u32 \<times> u32 \<times> u32" where
  "HASH_JEN_MIX = (\<lambda>(a, b, c).
     let a = a - b; a = a - c; a = a XOR drop_bit 13 c;
         b = b - c; b = b - a; b = b XOR push_bit 8 a;
         c = c - a; c = c - b; c = c XOR drop_bit 13 b;
         a = a - b; a = a - c; a = a XOR drop_bit 12 c;
         b = b - c; b = b - a; b = b XOR push_bit 16 a;
         c = c - a; c = c - b; c = c XOR drop_bit 5 b;
         a = a - b; a = a - c; a = a XOR drop_bit 3 c;
         b = b - c; b = b - a; b = b XOR push_bit 10 a;
         c = c - a; c = c - b; c = c XOR drop_bit 15 b
     in (a, b, c))"

text \<open>\<open>byte_at key i s\<close> is \<^verbatim>\<open>(unsigned)key[i] << s\<close>.\<close>

definition byte_at :: "u8 list \<Rightarrow> nat \<Rightarrow> nat \<Rightarrow> u32" where
  "byte_at key i s = push_bit s (ucast (key ! i))"

function jen_loop :: "u8 list \<Rightarrow> u32 \<times> u32 \<times> u32 \<Rightarrow> u8 list \<times> u32 \<times> u32 \<times> u32" where
  "jen_loop key (i, j, hashv) =
     (if length key \<ge> 12 then
        let i = i + (byte_at key 0 0 + byte_at key 1 8 + byte_at key 2 16 + byte_at key 3 24);
            j = j + (byte_at key 4 0 + byte_at key 5 8 + byte_at key 6 16 + byte_at key 7 24);
            hashv = hashv + (byte_at key 8 0 + byte_at key 9 8 + byte_at key 10 16 + byte_at key 11 24)
        in jen_loop (drop 12 key) (HASH_JEN_MIX (i, j, hashv))
      else (key, i, j, hashv))"
  by pat_completeness auto
termination by (relation "measure (\<lambda>(key, _). length key)") auto

declare jen_loop.simps [simp del]

text \<open>The cases of the \<^verbatim>\<open>switch\<close> fall through: case \<open>k\<close> is reached from every rest of at least \<open>k\<close> bytes.\<close>

definition jen_switch :: "u8 list \<Rightarrow> u32 \<times> u32 \<times> u32 \<Rightarrow> u32 \<times> u32 \<times> u32" where
  "jen_switch key = (\<lambda>(i, j, hashv).
     let k = length key;
         hashv = (if k \<ge> 11 then hashv + byte_at key 10 24 else hashv);
         hashv = (if k \<ge> 10 then hashv + byte_at key 9 16 else hashv);
         hashv = (if k \<ge> 9 then hashv + byte_at key 8 8 else hashv);
         j = (if k \<ge> 8 then j + byte_at key 7 24 else j);
         j = (if k \<ge> 7 then j + byte_at key 6 16 else j);
         j = (if k \<ge> 6 then j + byte_at key 5 8 else j);
         j = (if k \<ge> 5 then j + byte_at key 4 0 else j);
         i = (if k \<ge> 4 then i + byte_at key 3 24 else i);
         i = (if k \<ge> 3 then i + byte_at key 2 16 else i);
         i = (if k \<ge> 2 then i + byte_at key 1 8 else i);
         i = (if k \<ge> 1 then i + byte_at key 0 0 else i)
     in (i, j, hashv))"

definition HASH_JEN :: "u8 list \<Rightarrow> u32 \<Rightarrow> u32 \<times> u32" where
  "HASH_JEN key num_bkts =
     (let (rest, i, j, hashv) = jen_loop key (0x9e3779b9, 0x9e3779b9, 0xfeedbeef);
          hashv = hashv + of_nat (length key);
          (i, j, hashv) = HASH_JEN_MIX (jen_switch rest (i, j, hashv))
      in (hashv, hashv AND (num_bkts - 1)))"

subsection \<open>Hsieh's function\<close>

definition get16bits :: "u8 list \<Rightarrow> nat \<Rightarrow> u32" where
  "get16bits key d = byte_at key (d + 1) 8 + byte_at key d 0"

fun sfh_loop :: "nat \<Rightarrow> u8 list \<Rightarrow> u32 \<Rightarrow> u8 list \<times> u32" where
  "sfh_loop 0 key hashv = (key, hashv)"
| "sfh_loop (Suc len) key hashv =
     (let hashv = hashv + get16bits key 0;
          tmp = push_bit 11 (get16bits key 2) XOR hashv;
          hashv = push_bit 16 hashv XOR tmp;
          key = drop 4 key;
          hashv = hashv + drop_bit 11 hashv
      in sfh_loop len key hashv)"

definition sfh_switch :: "nat \<Rightarrow> u8 list \<Rightarrow> u32 \<Rightarrow> u32" where
  "sfh_switch rem key hashv =
     (if rem = 3 then
        let hashv = hashv + get16bits key 0;
            hashv = hashv XOR push_bit 16 hashv;
            hashv = hashv XOR byte_at key 2 18
        in hashv + drop_bit 11 hashv
      else if rem = 2 then
        let hashv = hashv + get16bits key 0;
            hashv = hashv XOR push_bit 11 hashv
        in hashv + drop_bit 17 hashv
      else if rem = 1 then
        let hashv = hashv + byte_at key 0 0;
            hashv = hashv XOR push_bit 10 hashv
        in hashv + drop_bit 1 hashv
      else hashv)"

definition HASH_SFH :: "u8 list \<Rightarrow> u32 \<Rightarrow> u32 \<times> u32" where
  "HASH_SFH key num_bkts =
     (let len = length key;
          (rest, hashv) = sfh_loop (len div 4) key 0xcafebabe;
          hashv = sfh_switch (len mod 4) rest hashv;
          hashv = hashv XOR push_bit 3 hashv;
          hashv = hashv + drop_bit 5 hashv;
          hashv = hashv XOR push_bit 4 hashv;
          hashv = hashv + drop_bit 17 hashv;
          hashv = hashv XOR push_bit 25 hashv;
          hashv = hashv + drop_bit 6 hashv
      in (hashv, hashv AND (num_bkts - 1)))"

subsection \<open>MurmurHash\<close>

definition MUR_GETBLOCK :: "u8 list \<Rightarrow> nat \<Rightarrow> u32" where
  "MUR_GETBLOCK data i = byte_at data (4 * i) 0 + byte_at data (4 * i + 1) 8 + byte_at data (4 * i + 2) 16 + byte_at data (4 * i + 3) 24"

definition MUR_ROTL32 :: "u32 \<Rightarrow> nat \<Rightarrow> u32" where
  "MUR_ROTL32 x r = push_bit r x OR drop_bit (32 - r) x"

definition MUR_FMIX :: "u32 \<Rightarrow> u32" where
  "MUR_FMIX h =
     (let h = h XOR drop_bit 16 h;
          h = h * 0x85ebca6b;
          h = h XOR drop_bit 13 h;
          h = h * 0xc2b2ae35
      in h XOR drop_bit 16 h)"

definition mur_block :: "u32 \<Rightarrow> u32 \<Rightarrow> u32" where
  "mur_block h1 k1 =
     (let k1 = k1 * 0xcc9e2d51;
          k1 = MUR_ROTL32 k1 15;
          k1 = k1 * 0x1b873593
      in h1 XOR k1)"

definition mur_tail :: "u8 list \<Rightarrow> u32 \<Rightarrow> u32" where
  "mur_tail tail h1 =
     (let k = length tail; k1 = 0;
          k1 = (if k \<ge> 3 then k1 XOR byte_at tail 2 16 else k1);
          k1 = (if k \<ge> 2 then k1 XOR byte_at tail 1 8 else k1)
      in if k \<ge> 1 then mur_block h1 (k1 XOR byte_at tail 0 0) else h1)"

definition HASH_MUR :: "u8 list \<Rightarrow> u32 \<Rightarrow> u32 \<times> u32" where
  "HASH_MUR key num_bkts =
     (let nblocks = length key div 4;
          h1 = foldl (\<lambda>h1 i. MUR_ROTL32 (mur_block h1 (MUR_GETBLOCK key i)) 13 * 5 + 0xe6546b64) 0xf88D5353 [0..<nblocks];
          h1 = mur_tail (drop (4 * nblocks) key) h1;
          h1 = h1 XOR of_nat (length key);
          hashv = MUR_FMIX h1
      in (hashv, hashv AND (num_bkts - 1)))"

subsection \<open>The functions on padded keys\<close>

definition le_word :: "u8 list \<Rightarrow> u32" where
  "le_word bs = byte_at bs 0 0 + byte_at bs 1 8 + byte_at bs 2 16 + byte_at bs 3 24"

definition zero_pad :: "nat \<Rightarrow> u8 list \<Rightarrow> u8 list" where
  "zero_pad n bs = bs @ replicate (n - length bs) 0"

text \<open>Jenkins' block function: three words are added to the registers, which are mixed.\<close>

definition jen_block :: "u32 \<times> u32 \<times> u32 \<Rightarrow> u8 list \<Rightarrow> u32 \<times> u32 \<times> u32" where
  "jen_block = (\<lambda>(i, j, h) bs. HASH_JEN_MIX (i + le_word (take 4 bs), j + le_word (take 4 (drop 4 bs)), h + le_word (drop 8 bs)))"

text \<open>The specification: whole blocks of 12 bytes, then the length of the key and its rest, padded to a block
  in which the low byte of the third word stays free.\<close>

function jen_spec :: "u32 \<Rightarrow> u32 \<times> u32 \<times> u32 \<Rightarrow> u8 list \<Rightarrow> u32 \<times> u32 \<times> u32" where
  "jen_spec n (i, j, h) bs =
     (if length bs \<ge> 12 then jen_spec n (jen_block (i, j, h) (take 12 bs)) (drop 12 bs)
      else jen_block (i, j, h + n) (zero_pad 8 (take 8 bs) @ 0 # zero_pad 3 (drop 8 bs)))"
  by pat_completeness auto
termination by (relation "measure (\<lambda>(n, r, bs). length bs)") auto

declare jen_spec.simps [simp del]

lemma byte_at_pad: "i < n \<Longrightarrow> byte_at (zero_pad n bs) i s = (if i < length bs then byte_at bs i s else 0)"
  by (simp add: byte_at_def zero_pad_def nth_append)

lemma byte_at_take [simp]: "i < n \<Longrightarrow> byte_at (take n bs) i s = byte_at bs i s"
  by (simp add: byte_at_def)

lemma byte_at_drop: "n \<le> length bs \<Longrightarrow> byte_at (drop n bs) i s = byte_at bs (n + i) s"
  by (simp add: byte_at_def)

lemma byte_at_drop_less: "i < length bs - n \<Longrightarrow> byte_at (drop n bs) i s = byte_at bs (n + i) s"
  by (simp add: byte_at_def)

lemma byte_at_append: "byte_at (xs @ ys) i s = (if i < length xs then byte_at xs i s else byte_at ys (i - length xs) s)"
  by (simp add: byte_at_def nth_append)

lemma byte_at_Cons: "byte_at (x # xs) i s = (if i = 0 then push_bit s (ucast x) else byte_at xs (i - 1) s)"
  by (cases i) (simp_all add: byte_at_def)

lemma length_zero_pad [simp]: "length (zero_pad n bs) = max n (length bs)"
  by (auto simp: zero_pad_def)

lemma le_word_pad: "le_word (zero_pad 4 bs) = (if length bs \<ge> 1 then byte_at bs 0 0 else 0) + (if length bs \<ge> 2 then byte_at bs 1 8 else 0) +
    (if length bs \<ge> 3 then byte_at bs 2 16 else 0) + (if length bs \<ge> 4 then byte_at bs 3 24 else 0)"
  by (auto simp: le_word_def byte_at_pad Suc_le_eq)

lemma add_if: "(if c then x + y else x) = x + (if c then y else (0 :: u32))"
  by simp

lemma jen_switch_padded:
  assumes "length key < 12"
  shows "HASH_JEN_MIX (jen_switch key (i, j, h)) = jen_block (i, j, h) (zero_pad 8 (take 8 key) @ 0 # zero_pad 3 (drop 8 key))"
proof -
  let ?p = "zero_pad 8 (take 8 key) @ 0 # zero_pad 3 (drop 8 key)"
  have l: "length (zero_pad 8 (take 8 key)) = 8" by simp
  have "le_word (take 4 ?p) = (if length key \<ge> 1 then byte_at key 0 0 else 0) + (if length key \<ge> 2 then byte_at key 1 8 else 0) +
      (if length key \<ge> 3 then byte_at key 2 16 else 0) + (if length key \<ge> 4 then byte_at key 3 24 else 0)"
    unfolding le_word_def by (simp add: byte_at_append l byte_at_pad Suc_le_eq)
  moreover have "le_word (take 4 (drop 4 ?p)) = (if length key \<ge> 5 then byte_at key 4 0 else 0) + (if length key \<ge> 6 then byte_at key 5 8 else 0) +
      (if length key \<ge> 7 then byte_at key 6 16 else 0) + (if length key \<ge> 8 then byte_at key 7 24 else 0)"
    unfolding le_word_def by (simp add: byte_at_drop byte_at_append l byte_at_pad)
  moreover have "le_word (drop 8 ?p) = (if length key \<ge> 9 then byte_at key 8 8 else 0) +
      (if length key \<ge> 10 then byte_at key 9 16 else 0) + (if length key \<ge> 11 then byte_at key 10 24 else 0)"
    unfolding le_word_def using assms by (auto simp: byte_at_Cons byte_at_pad byte_at_drop_less)
  ultimately show ?thesis
    unfolding jen_block_def jen_switch_def Let_def prod.case add_if by (simp add: ac_simps)
qed

lemma jen_loop_spec:
  "(case jen_loop key r of (rest, i, j, h) \<Rightarrow> HASH_JEN_MIX (jen_switch rest (i, j, h + n))) = jen_spec n r key"
proof (induction key r rule: jen_loop.induct)
  case (1 key i j h)
  show ?case
  proof (cases "length key \<ge> 12")
    case True
    have "jen_block (i, j, h) (take 12 key) = HASH_JEN_MIX
        (i + (byte_at key 0 0 + byte_at key 1 8 + byte_at key 2 16 + byte_at key 3 24),
         j + (byte_at key 4 0 + byte_at key 5 8 + byte_at key 6 16 + byte_at key 7 24),
         h + (byte_at key 8 0 + byte_at key 9 8 + byte_at key 10 16 + byte_at key 11 24))"
      using True by (simp add: jen_block_def le_word_def byte_at_drop)
    then show ?thesis using 1 True by (simp add: jen_loop.simps [of key] jen_spec.simps [of n i j h key] Let_def)
  next
    case False
    then show ?thesis by (simp add: jen_loop.simps [of key] jen_spec.simps [of n i j h key] jen_switch_padded)
  qed
qed

text \<open>MurmurHash mixes in one word per four bytes; the last, padded one without the rotation of the others.\<close>

definition mur_spec :: "u8 list \<Rightarrow> u32" where
  "mur_spec key =
     (let n = length key div 4;
          h = foldl (\<lambda>h b. MUR_ROTL32 (mur_block h (le_word b)) 13 * 5 + 0xe6546b64) 0xf88D5353
                (map (\<lambda>i. take 4 (drop (4 * i) key)) [0..<n])
      in MUR_FMIX (mur_block h (le_word (zero_pad 4 (drop (4 * n) key))) XOR of_nat (length key)))"

lemma xor_bytes:
  "push_bit 16 (ucast (c :: u8)) XOR push_bit 8 (ucast (b :: u8)) XOR ucast (a :: u8) =
    (push_bit 0 (ucast a) + push_bit 8 (ucast b) + push_bit 16 (ucast c) :: u32)"
proof -
  have 1: "push_bit 8 (ucast b) AND (ucast a :: u32) = 0"
    by (rule bit_word_eqI) (auto simp: bit_simps dest: bit_imp_le_length)
  have 2: "push_bit 16 (ucast c) AND (push_bit 8 (ucast b) XOR ucast a :: u32) = 0"
    by (rule bit_word_eqI) (auto simp: bit_simps dest: bit_imp_le_length)
  show ?thesis using disjunctive_add_eq_xor [OF 1] disjunctive_add_eq_xor [OF 2] by (simp add: ac_simps)
qed

lemma mur_block_zero: "mur_block h 0 = h"
  by (simp add: mur_block_def MUR_ROTL32_def)

lemma mur_tail_padded:
  assumes "length tail < 4"
  shows "mur_tail tail h = mur_block h (le_word (zero_pad 4 tail))"
proof -
  let ?a = "if length tail \<ge> 1 then tail ! 0 else 0" and ?b = "if length tail \<ge> 2 then tail ! 1 else 0"
    and ?c = "if length tail \<ge> 3 then tail ! 2 else 0"
  have w: "le_word (zero_pad 4 tail) = push_bit 16 (ucast ?c) XOR push_bit 8 (ucast ?b) XOR ucast ?a"
    using assms by (simp add: le_word_pad byte_at_def xor_bytes)
  show ?thesis
  proof (cases "tail = []")
    case True
    then show ?thesis unfolding w by (simp add: mur_tail_def mur_block_zero)
  next
    case False
    then show ?thesis unfolding w by (simp add: mur_tail_def byte_at_def Let_def Suc_le_eq ac_simps)
  qed
qed

lemma mur_blocks:
  assumes "i < length key div 4"
  shows "MUR_GETBLOCK key i = le_word (take 4 (drop (4 * i) key))"
proof -
  have "4 * i + 4 \<le> length key" using assms by linarith
  then show ?thesis by (simp add: MUR_GETBLOCK_def le_word_def byte_at_drop)
qed

lemma foldl_map_cong:
  "(\<And>x a. x \<in> set xs \<Longrightarrow> f a x = g a (k x)) \<Longrightarrow> foldl f a xs = foldl g a (map k xs)"
  by (induction xs arbitrary: a) auto

subsection \<open>Bucket numbers\<close>

lemma bucket_mod: "n < 32 \<Longrightarrow> unat (hashv AND (2 ^ n - 1) :: u32) = unat hashv mod 2 ^ n"
  unfolding mask_eq_exp_minus_1 [symmetric] take_bit_eq_mask [symmetric]
  by (subst unsigned_take_bit_eq) (simp_all add: take_bit_eq_mod)

lemma bucket_less: "n < 32 \<Longrightarrow> unat (HASH_TO_BKT hashv (2 ^ n)) < 2 ^ n"
  by (simp add: HASH_TO_BKT_def bucket_mod)

subsection \<open>Properties\<close>


end
