(* ===== verification/Ut_Hash.thy ===== *)
theory Ut_Hash
  imports Ut_Sort Ut_Hash_Functions
begin

text \<open>
  The hash table of \<^verbatim>\<open>2PCKVStore/uthash.h\<close>.  An element carries a handle with two pairs of links: \<open>prev\<close> and
  \<open>next\<close> chain all elements in the order of their insertion, \<open>hh_prev\<close> and \<open>hh_next\<close> the elements of one
  bucket.  The table hangs off the handle of every element.  When a bucket gets long the number of
  buckets doubles and every element moves to the front of its new bucket.

  The handle sits at a fixed offset \<open>hho\<close> in the element, so a pointer to an element and a pointer to
  its handle determine each other; the model uses one address for both.  The bucket array is part
  of the table that owns it.  The macros compile with any hash function, which is the parameter
  \<open>fcn\<close>.  \<^const>\<open>None\<close> is undefined behaviour, \<open>Inl Out_of_memory\<close> the call of \<^verbatim>\<open>uthash_fatal\<close>, which exits.
\<close>

subsection \<open>Data\<close>

record UT_hash_handle = link +
  hh_tbl :: "ptr option"
  hh_prev :: "ptr option"
  hh_next :: "ptr option"
  hh_key :: "u8 list"
  hh_keylen :: u32
  hh_hashv :: u32

record UT_hash_bucket =
  hh_head :: "ptr option"
  bkt_count :: u32
  expand_mult :: u32

record UT_hash_table =
  buckets :: "UT_hash_bucket list"
  num_buckets :: u32
  log2_num_buckets :: u32
  num_items :: u32
  tbl_tail :: "ptr option"
  ideal_chain_maxlen :: u32
  nonideal_items :: u32
  ineff_expands :: u32
  noexpand :: u32
  signature :: u32

text \<open>The memory: elements, tables, and the number of buckets for which \<^verbatim>\<open>malloc\<close> finds an array.\<close>

type_synonym 'e elem_heap = "'e UT_hash_handle_ext mem"

record 'e hash_mem =
  elems :: "'e elem_heap"
  tables :: "UT_hash_table heap"
  bkt_room :: nat

datatype hash_exit = Out_of_memory

definition hash_bind :: "(hash_exit + 'a) option \<Rightarrow> ('a \<Rightarrow> (hash_exit + 'b) option) \<Rightarrow> (hash_exit + 'b) option" where
  "hash_bind r f = (case r of None \<Rightarrow> None | Some (Inl e) \<Rightarrow> Some (Inl e) | Some (Inr x) \<Rightarrow> f x)"

subsection \<open>Access\<close>

definition upd_elem :: "'e hash_mem \<Rightarrow> ptr \<Rightarrow> ('e UT_hash_handle_scheme \<Rightarrow> 'e UT_hash_handle_scheme) \<Rightarrow> 'e hash_mem option" where
  "upd_elem M p f = do { h \<leftarrow> modify (elems M) p f; Some (M\<lparr>elems := h\<rparr>) }"

definition upd_table :: "'e hash_mem \<Rightarrow> ptr \<Rightarrow> (UT_hash_table \<Rightarrow> UT_hash_table) \<Rightarrow> 'e hash_mem option" where
  "upd_table M t f = do { ts \<leftarrow> modify (tables M) t f; Some (M\<lparr>tables := ts\<rparr>) }"

definition table_of :: "'e hash_mem \<Rightarrow> ptr \<Rightarrow> (ptr \<times> UT_hash_table) option" where
  "table_of M p = do { c \<leftarrow> load (elems M) p; t \<leftarrow> hh_tbl c; T \<leftarrow> load (tables M) t; Some (t, T) }"

definition bucket_at :: "UT_hash_bucket list \<Rightarrow> u32 \<Rightarrow> UT_hash_bucket option" where
  "bucket_at bs i = (if unat i < length bs then Some (bs ! unat i) else None)"

definition upd_bucket :: "'e hash_mem \<Rightarrow> ptr \<Rightarrow> u32 \<Rightarrow> (UT_hash_bucket \<Rightarrow> UT_hash_bucket) \<Rightarrow> 'e hash_mem option" where
  "upd_bucket M t i f = do {
     T \<leftarrow> load (tables M) t;
     b \<leftarrow> bucket_at (buckets T) i;
     upd_table M t (\<lambda>T. T\<lparr>buckets := (buckets T)[unat i := f b]\<rparr>)
   }"

subsection \<open>Buckets\<close>

definition HASH_KEYCMP :: "u8 list \<Rightarrow> u8 list \<Rightarrow> u32 \<Rightarrow> bool" where
  "HASH_KEYCMP a b len \<longleftrightarrow> take (unat len) a = take (unat len) b"

partial_function (option) HASH_FIND_IN_BKT :: "'e elem_heap \<Rightarrow> u8 list \<Rightarrow> u32 \<Rightarrow> ptr option \<Rightarrow> ptr option option" where
  "HASH_FIND_IN_BKT h keyptr keylen out =
     (case out of
        None \<Rightarrow> Some None
      | Some p \<Rightarrow> do {
          c \<leftarrow> load h p;
          if hh_keylen c = keylen \<and> HASH_KEYCMP (hh_key c) keyptr keylen then Some out
          else HASH_FIND_IN_BKT h keyptr keylen (hh_next c)
        })"

text \<open>Moving the chain that starts at \<open>thh\<close> to the new buckets \<open>nb\<close>; \<open>nonideal\<close> counts the elements beyond the
  ideal length of a chain.\<close>

partial_function (option) expand_chain ::
  "u32 \<Rightarrow> u32 \<Rightarrow> 'e elem_heap \<Rightarrow> UT_hash_bucket list \<Rightarrow> u32 \<Rightarrow> ptr option \<Rightarrow> ('e elem_heap \<times> UT_hash_bucket list \<times> u32) option" where
  "expand_chain num ideal h nb nonideal thh =
     (case thh of
        None \<Rightarrow> Some (h, nb, nonideal)
      | Some p \<Rightarrow> do {
          c \<leftarrow> load h p;
          let nxt = hh_next c;
          let bkt = HASH_TO_BKT (hh_hashv c) num;
          b \<leftarrow> bucket_at nb bkt;
          let b = b\<lparr>bkt_count := bkt_count b + 1\<rparr>;
          (b, nonideal) \<leftarrow> (if bkt_count b > ideal then
               (if ideal = 0 then None else Some (b\<lparr>expand_mult := bkt_count b div ideal\<rparr>, nonideal + 1))
             else Some (b, nonideal));
          h \<leftarrow> modify h p (\<lambda>c. c\<lparr>hh_prev := None\<rparr>);
          h \<leftarrow> modify h p (\<lambda>c. c\<lparr>hh_next := hh_head b\<rparr>);
          h \<leftarrow> (case hh_head b of Some q \<Rightarrow> modify h q (\<lambda>c. c\<lparr>hh_prev := Some p\<rparr>) | None \<Rightarrow> Some h);
          expand_chain num ideal h (nb[unat bkt := b\<lparr>hh_head := Some p\<rparr>]) nonideal nxt
        })"

fun expand_all ::
  "u32 \<Rightarrow> u32 \<Rightarrow> 'e elem_heap \<Rightarrow> UT_hash_bucket list \<Rightarrow> u32 \<Rightarrow> UT_hash_bucket list \<Rightarrow> ('e elem_heap \<times> UT_hash_bucket list \<times> u32) option" where
  "expand_all num ideal h nb nonideal [] = Some (h, nb, nonideal)"
| "expand_all num ideal h nb nonideal (b # bs) = do {
     (h, nb, nonideal) \<leftarrow> expand_chain num ideal h nb nonideal (hh_head b);
     expand_all num ideal h nb nonideal bs
   }"

definition HASH_EXPAND_BUCKETS :: "'e hash_mem \<Rightarrow> ptr \<Rightarrow> (hash_exit + 'e hash_mem) option" where
  "HASH_EXPAND_BUCKETS M t = do {
     T \<leftarrow> load (tables M) t;
     let num = num_buckets T * 2;
     if unat num > bkt_room M then Some (Inl Out_of_memory)
     else do {
       let nb = replicate (unat num) \<lparr>hh_head = None, bkt_count = 0, expand_mult = 0\<rparr>;
       let lg = unat (log2_num_buckets T + 1);
       ideal \<leftarrow> (if lg < 32 then
           Some (drop_bit lg (num_items T) + (if num_items T AND (num - 1) \<noteq> 0 then 1 else 0)) else None);
       old \<leftarrow> (if unat (num_buckets T) \<le> length (buckets T) then Some (take (unat (num_buckets T)) (buckets T)) else None);
       (h, nb, nonideal) \<leftarrow> expand_all num ideal (elems M) nb 0 old;
       let ineff = (if nonideal > drop_bit 1 (num_items T) then ineff_expands T + 1 else 0);
       ts \<leftarrow> modify (tables M) t (\<lambda>T. T\<lparr>buckets := nb, num_buckets := num, log2_num_buckets := log2_num_buckets T + 1,
              ideal_chain_maxlen := ideal, nonideal_items := nonideal, ineff_expands := ineff,
              noexpand := (if ineff > 1 then 1 else noexpand T)\<rparr>);
       Some (Inr (M\<lparr>elems := h, tables := ts\<rparr>))
     }
   }"

definition HASH_BKT_CAPACITY_THRESH :: u32 where
  "HASH_BKT_CAPACITY_THRESH = 10"

definition HASH_ADD_TO_BKT :: "'e hash_mem \<Rightarrow> ptr \<Rightarrow> u32 \<Rightarrow> ptr \<Rightarrow> (hash_exit + 'e hash_mem) option" where
  "HASH_ADD_TO_BKT M t bkt add = do {
     M \<leftarrow> upd_bucket M t bkt (\<lambda>b. b\<lparr>bkt_count := bkt_count b + 1\<rparr>);
     T \<leftarrow> load (tables M) t;
     b \<leftarrow> bucket_at (buckets T) bkt;
     M \<leftarrow> upd_elem M add (\<lambda>c. c\<lparr>hh_next := hh_head b\<rparr>);
     M \<leftarrow> upd_elem M add (\<lambda>c. c\<lparr>hh_prev := None\<rparr>);
     M \<leftarrow> (case hh_head b of Some q \<Rightarrow> upd_elem M q (\<lambda>c. c\<lparr>hh_prev := Some add\<rparr>) | None \<Rightarrow> Some M);
     M \<leftarrow> upd_bucket M t bkt (\<lambda>b. b\<lparr>hh_head := Some add\<rparr>);
     (ta, Ta) \<leftarrow> table_of M add;
     if bkt_count b \<ge> (expand_mult b + 1) * HASH_BKT_CAPACITY_THRESH \<and> noexpand Ta \<noteq> 1
     then HASH_EXPAND_BUCKETS M ta else Some (Inr M)
   }"

definition HASH_DEL_IN_BKT :: "'e hash_mem \<Rightarrow> ptr \<Rightarrow> u32 \<Rightarrow> ptr \<Rightarrow> 'e hash_mem option" where
  "HASH_DEL_IN_BKT M t bkt del = do {
     M \<leftarrow> upd_bucket M t bkt (\<lambda>b. b\<lparr>bkt_count := bkt_count b - 1\<rparr>);
     c \<leftarrow> load (elems M) del;
     M \<leftarrow> upd_bucket M t bkt (\<lambda>b. if hh_head b = Some del then b\<lparr>hh_head := hh_next c\<rparr> else b);
     M \<leftarrow> (case hh_prev c of Some q \<Rightarrow> upd_elem M q (\<lambda>d. d\<lparr>hh_next := hh_next c\<rparr>) | None \<Rightarrow> Some M);
     c \<leftarrow> load (elems M) del;
     (case hh_next c of Some n \<Rightarrow> upd_elem M n (\<lambda>d. d\<lparr>hh_prev := hh_prev c\<rparr>) | None \<Rightarrow> Some M)
   }"

subsection \<open>The table\<close>

definition HASH_INITIAL_NUM_BUCKETS :: u32 where
  "HASH_INITIAL_NUM_BUCKETS = 32"

definition HASH_INITIAL_NUM_BUCKETS_LOG2 :: u32 where
  "HASH_INITIAL_NUM_BUCKETS_LOG2 = 5"

definition HASH_SIGNATURE :: u32 where
  "HASH_SIGNATURE = 0xa0111fe1"

definition HASH_MAKE_TABLE :: "'e hash_mem \<Rightarrow> ptr \<Rightarrow> (hash_exit + 'e hash_mem) option" where
  "HASH_MAKE_TABLE M head =
     (case new (tables M) \<lparr>buckets = replicate (unat HASH_INITIAL_NUM_BUCKETS) \<lparr>hh_head = None, bkt_count = 0, expand_mult = 0\<rparr>,
          num_buckets = HASH_INITIAL_NUM_BUCKETS, log2_num_buckets = HASH_INITIAL_NUM_BUCKETS_LOG2, num_items = 0,
          tbl_tail = Some head, ideal_chain_maxlen = 0, nonideal_items = 0, ineff_expands = 0, noexpand = 0,
          signature = HASH_SIGNATURE\<rparr> of
        None \<Rightarrow> Some (Inl Out_of_memory)
      | Some (t, ts) \<Rightarrow>
          if unat HASH_INITIAL_NUM_BUCKETS > bkt_room M then Some (Inl Out_of_memory)
          else do {
            M \<leftarrow> upd_elem M head (\<lambda>c. c\<lparr>hh_tbl := Some t\<rparr>);
            Some (Inr (M\<lparr>tables := ts\<rparr>))
          })"

text \<open>Without \<^verbatim>\<open>HASH_BLOOM\<close> the filter test is constantly true.\<close>

definition HASH_FIND :: "(u8 list \<Rightarrow> u32 \<Rightarrow> u32 \<times> u32) \<Rightarrow> 'e hash_mem \<Rightarrow> ptr option \<Rightarrow> u8 list \<Rightarrow> u32 \<Rightarrow> ptr option option" where
  "HASH_FIND fcn M head keyptr keylen =
     (case head of
        None \<Rightarrow> Some None
      | Some p \<Rightarrow> do {
          (t, T) \<leftarrow> table_of M p;
          let (hashv, bkt) = fcn (take (unat keylen) keyptr) (num_buckets T);
          b \<leftarrow> bucket_at (buckets T) bkt;
          HASH_FIND_IN_BKT (elems M) keyptr keylen (hh_head b)
        })"

text \<open>Linking the element behind the last one, making the table with the first one.\<close>

definition hash_append :: "'e hash_mem \<Rightarrow> ptr option \<Rightarrow> ptr \<Rightarrow> (hash_exit + 'e hash_mem \<times> ptr) option" where
  "hash_append M head add =
     (case head of
        None \<Rightarrow> do {
          M \<leftarrow> upd_elem M add (\<lambda>c. c\<lparr>prv := None\<rparr>);
          hash_bind (HASH_MAKE_TABLE M add) (\<lambda>M. Some (Inr (M, add)))
        }
      | Some p \<Rightarrow> do {
          (t, T) \<leftarrow> table_of M p;
          q \<leftarrow> tbl_tail T;
          M \<leftarrow> upd_elem M q (\<lambda>c. c\<lparr>nxt := Some add\<rparr>);
          M \<leftarrow> upd_elem M add (\<lambda>c. c\<lparr>prv := Some q\<rparr>);
          M \<leftarrow> upd_table M t (\<lambda>T. T\<lparr>tbl_tail := Some add\<rparr>);
          Some (Inr (M, p))
        })"

text \<open>Counting the element and filing it in its bucket.\<close>

definition hash_file :: "(u8 list \<Rightarrow> u32 \<Rightarrow> u32 \<times> u32) \<Rightarrow> u8 list \<Rightarrow> u32 \<Rightarrow> ptr \<Rightarrow> 'e hash_mem \<times> ptr \<Rightarrow> (hash_exit + 'e hash_mem \<times> ptr) option" where
  "hash_file fcn keyptr keylen add = (\<lambda>(M, head). do {
     (t, T) \<leftarrow> table_of M head;
     M \<leftarrow> upd_table M t (\<lambda>T. T\<lparr>num_items := num_items T + 1\<rparr>);
     M \<leftarrow> upd_elem M add (\<lambda>c. c\<lparr>hh_tbl := Some t\<rparr>);
     let (hashv, bkt) = fcn (take (unat keylen) keyptr) (num_buckets T);
     M \<leftarrow> upd_elem M add (\<lambda>c. c\<lparr>hh_hashv := hashv\<rparr>);
     hash_bind (HASH_ADD_TO_BKT M t bkt add) (\<lambda>M. Some (Inr (M, head)))
   })"

definition HASH_ADD_KEYPTR :: "(u8 list \<Rightarrow> u32 \<Rightarrow> u32 \<times> u32) \<Rightarrow> 'e hash_mem \<Rightarrow> ptr option \<Rightarrow> u8 list \<Rightarrow> u32 \<Rightarrow> ptr \<Rightarrow>
    (hash_exit + 'e hash_mem \<times> ptr) option" where
  "HASH_ADD_KEYPTR fcn M head keyptr keylen add = do {
     M \<leftarrow> upd_elem M add (\<lambda>c. c\<lparr>nxt := None\<rparr>);
     M \<leftarrow> upd_elem M add (\<lambda>c. c\<lparr>hh_key := keyptr, hh_keylen := keylen\<rparr>);
     hash_bind (hash_append M head add) (hash_file fcn keyptr keylen add)
   }"

definition HASH_DELETE :: "'e hash_mem \<Rightarrow> ptr option \<Rightarrow> ptr \<Rightarrow> ('e hash_mem \<times> ptr option) option" where
  "HASH_DELETE M head del = do {
     c \<leftarrow> load (elems M) del;
     p \<leftarrow> head;
     (t, T) \<leftarrow> table_of M p;
     if prv c = None \<and> nxt c = None then do {
       ts \<leftarrow> dealloc (tables M) t;
       Some (M\<lparr>tables := ts\<rparr>, None)
     }
     else do {
       M \<leftarrow> (if tbl_tail T = Some del then upd_table M t (\<lambda>T. T\<lparr>tbl_tail := prv c\<rparr>) else Some M);
       (M, head) \<leftarrow> (case prv c of
            Some q \<Rightarrow> do { M \<leftarrow> upd_elem M q (\<lambda>d. d\<lparr>nxt := nxt c\<rparr>); Some (M, head) }
          | None \<Rightarrow> Some (M, nxt c));
       c \<leftarrow> load (elems M) del;
       M \<leftarrow> (case nxt c of Some n \<Rightarrow> upd_elem M n (\<lambda>d. d\<lparr>prv := prv c\<rparr>) | None \<Rightarrow> Some M);
       p \<leftarrow> head;
       (t, T) \<leftarrow> table_of M p;
       M \<leftarrow> HASH_DEL_IN_BKT M t (HASH_TO_BKT (hh_hashv c) (num_buckets T)) del;
       M \<leftarrow> upd_table M t (\<lambda>T. T\<lparr>num_items := num_items T - 1\<rparr>);
       Some (M, head)
     }
   }"

definition HASH_REPLACE :: "(u8 list \<Rightarrow> u32 \<Rightarrow> u32 \<times> u32) \<Rightarrow> 'e hash_mem \<Rightarrow> ptr option \<Rightarrow> u8 list \<Rightarrow> u32 \<Rightarrow> ptr \<Rightarrow>
    (hash_exit + ('e hash_mem \<times> ptr) \<times> ptr option) option" where
  "HASH_REPLACE fcn M head keyptr keylen add = do {
     replaced \<leftarrow> HASH_FIND fcn M head keyptr keylen;
     (M, head) \<leftarrow> (case replaced of Some r \<Rightarrow> HASH_DELETE M head r | None \<Rightarrow> Some (M, head));
     hash_bind (HASH_ADD_KEYPTR fcn M head keyptr keylen add) (\<lambda>s. Some (Inr (s, replaced)))
   }"

definition HASH_CLEAR :: "'e hash_mem \<Rightarrow> ptr option \<Rightarrow> ('e hash_mem \<times> ptr option) option" where
  "HASH_CLEAR M head =
     (case head of
        None \<Rightarrow> Some (M, None)
      | Some p \<Rightarrow> do { (t, T) \<leftarrow> table_of M p; ts \<leftarrow> dealloc (tables M) t; Some (M\<lparr>tables := ts\<rparr>, None) })"

definition HASH_CNT :: "'e hash_mem \<Rightarrow> ptr option \<Rightarrow> u32 option" where
  "HASH_CNT M head = (case head of None \<Rightarrow> Some 0 | Some p \<Rightarrow> do { (t, T) \<leftarrow> table_of M p; Some (num_items T) })"

text \<open>\<^verbatim>\<open>HASH_ITER\<close> around a statement that may delete the element it is at: \<open>tmp\<close> is one element ahead.\<close>

partial_function (option) hash_iter ::
  "(ptr \<Rightarrow> 'e hash_mem \<times> 's \<Rightarrow> ('e hash_mem \<times> 's) option) \<Rightarrow> ptr option \<Rightarrow> ptr option \<Rightarrow> 'e hash_mem \<times> 's \<Rightarrow> ('e hash_mem \<times> 's) option" where
  "hash_iter body el tmp s =
     (case el of
        None \<Rightarrow> Some s
      | Some p \<Rightarrow> do {
          s \<leftarrow> body p s;
          n \<leftarrow> (case tmp of Some q \<Rightarrow> get_next (elems (fst s)) q | None \<Rightarrow> Some None);
          hash_iter body tmp n s
        })"

definition HASH_ITER ::
  "(ptr \<Rightarrow> 'e hash_mem \<times> 's \<Rightarrow> ('e hash_mem \<times> 's) option) \<Rightarrow> ptr option \<Rightarrow> 'e hash_mem \<times> 's \<Rightarrow> ('e hash_mem \<times> 's) option" where
  "HASH_ITER body head s = do {
     tmp \<leftarrow> (case head of Some p \<Rightarrow> get_next (elems (fst s)) p | None \<Rightarrow> Some None);
     hash_iter body head tmp s
   }"

subsection \<open>Sorting and checking\<close>

text \<open>\<^verbatim>\<open>HASH_SRT\<close> is the merge sort of the lists on the insertion order, with unsigned counters.\<close>

definition hash_variant :: "'e sort_variant" where
  "hash_variant = \<lparr>arith = (\<lambda>i. Some (i mod 2 ^ 32)), doubly = True, circular = False,
     close_list = (\<lambda>h list tail. case tail of Some t \<Rightarrow> set_next h t None | None \<Rightarrow> Some h)\<rparr>"

definition HASH_SRT :: "'e hash_mem \<Rightarrow> ptr option \<Rightarrow> ('e UT_hash_handle_ext \<Rightarrow> 'e UT_hash_handle_ext \<Rightarrow> int) \<Rightarrow>
    ('e hash_mem \<times> ptr option) option" where
  "HASH_SRT M head cmp =
     (case head of
        None \<Rightarrow> Some (M, None)
      | Some p \<Rightarrow> do {
          (h, list, tail) \<leftarrow> sort_loop hash_variant cmp 1 (elems M) head;
          (t, T) \<leftarrow> table_of M p;
          M \<leftarrow> upd_table (M\<lparr>elems := h\<rparr>) t (\<lambda>T. T\<lparr>tbl_tail := tail\<rparr>);
          Some (M, list)
        })"

text \<open>The consistency check that \<^verbatim>\<open>HASH_DEBUG\<close> runs after every change: \<open>Some False\<close> is a message and exit.\<close>

partial_function (option) fsck_bucket :: "'e elem_heap \<Rightarrow> ptr option \<Rightarrow> u32 \<Rightarrow> ptr option \<Rightarrow> u32 option option" where
  "fsck_bucket h prev bkt_cnt thh =
     (case thh of
        None \<Rightarrow> Some (Some bkt_cnt)
      | Some p \<Rightarrow> do {
          c \<leftarrow> load h p;
          if prev \<noteq> hh_prev c then Some None
          else fsck_bucket h thh (bkt_cnt + 1) (hh_next c)
        })"

fun fsck_buckets :: "'e elem_heap \<Rightarrow> u32 \<Rightarrow> UT_hash_bucket list \<Rightarrow> u32 option option" where
  "fsck_buckets h cnt [] = Some (Some cnt)"
| "fsck_buckets h cnt (b # bs) = do {
     r \<leftarrow> fsck_bucket h None 0 (hh_head b);
     (case r of
        None \<Rightarrow> Some None
      | Some n \<Rightarrow> if bkt_count b \<noteq> n then Some None else fsck_buckets h (cnt + n) bs)
   }"

partial_function (option) fsck_order :: "'e elem_heap \<Rightarrow> ptr option \<Rightarrow> u32 \<Rightarrow> ptr option \<Rightarrow> u32 option option" where
  "fsck_order h prev cnt thh =
     (case thh of
        None \<Rightarrow> Some (Some cnt)
      | Some p \<Rightarrow> do {
          c \<leftarrow> load h p;
          if prev \<noteq> prv c then Some None
          else fsck_order h thh (cnt + 1) (nxt c)
        })"

definition HASH_FSCK :: "'e hash_mem \<Rightarrow> ptr option \<Rightarrow> bool option" where
  "HASH_FSCK M head =
     (case head of
        None \<Rightarrow> Some True
      | Some p \<Rightarrow> do {
          (t, T) \<leftarrow> table_of M p;
          bs \<leftarrow> (if unat (num_buckets T) \<le> length (buckets T) then Some (take (unat (num_buckets T)) (buckets T)) else None);
          n \<leftarrow> fsck_buckets (elems M) 0 bs;
          if n \<noteq> Some (num_items T) then Some False
          else do {
            m \<leftarrow> fsck_order (elems M) None 0 head;
            Some (m = Some (num_items T))
          }
        })"

subsection \<open>Views of the memory\<close>

text \<open>A field of all elements is a function of the address; a store updates one of them at one point.\<close>

definition view :: "('c \<Rightarrow> 'v) \<Rightarrow> 'c heap \<Rightarrow> ptr \<Rightarrow> 'v option" where
  "view g h p = map_option g (cells h p)"

definition upd :: "'c heap \<Rightarrow> ptr \<Rightarrow> ('c \<Rightarrow> 'c) \<Rightarrow> 'c heap" where
  "upd h p f = h\<lparr>cells := (cells h)(p := map_option f (cells h p))\<rparr>"

text \<open>What the links leave alone.\<close>

definition info :: "'e UT_hash_handle_scheme \<Rightarrow> ptr option \<times> u8 list \<times> u32 \<times> u32 \<times> 'e" where
  "info c = (hh_tbl c, hh_key c, hh_keylen c, hh_hashv c, UT_hash_handle.more c)"

named_theorems view_simps \<open>stores, seen through the views\<close>

lemma modify_upd: "alive h p \<Longrightarrow> modify h p f = Some (upd h p f)"
  by (auto simp: modify_def upd_def alive_def)

lemma view_upd_same: "alive h p \<Longrightarrow> (\<And>c. g (f c) = v) \<Longrightarrow> view g (upd h p f) = (view g h)(p \<mapsto> v)"
  by (auto simp: view_def upd_def alive_def)

lemma view_upd_other: "(\<And>c. g (f c) = g c) \<Longrightarrow> view g (upd h p f) = view g h"
  by (auto simp: view_def upd_def fun_eq_iff option.map_comp o_def cong: option.map_cong)

lemma upd_extent [view_simps]: "brk (upd h p f) = brk h" "limit (upd h p f) = limit h" "alive (upd h p f) = alive h"
  by (auto simp: upd_def alive_def fun_eq_iff)

lemma get_next_view [view_simps]: "get_next = view nxt" and get_prev_view [view_simps]: "get_prev = view prv"
  by (auto simp: get_next_def get_prev_def view_def load_def fun_eq_iff)

lemma view_alive: "view g h p = Some v \<Longrightarrow> alive h p"
  by (auto simp: view_def alive_def)

lemma alive_view: "alive h p \<longleftrightarrow> view g h p \<noteq> None"
  by (simp add: view_def alive_def)

lemma load_view: "load h p = Some c \<Longrightarrow> view g h p = Some (g c)"
  by (simp add: load_def view_def)

lemma view_next [view_simps]:
  assumes "alive h p"
  shows "view hh_next (upd h p (\<lambda>c. c\<lparr>hh_next := v\<rparr>)) = (view hh_next h)(p \<mapsto> v)"
    "view hh_prev (upd h p (\<lambda>c. c\<lparr>hh_prev := v\<rparr>)) = (view hh_prev h)(p \<mapsto> v)"
    "view nxt (upd h p (\<lambda>c. c\<lparr>nxt := v\<rparr>)) = (view nxt h)(p \<mapsto> v)"
    "view prv (upd h p (\<lambda>c. c\<lparr>prv := v\<rparr>)) = (view prv h)(p \<mapsto> v)"
    "view hh_tbl (upd h p (\<lambda>c. c\<lparr>hh_tbl := v\<rparr>)) = (view hh_tbl h)(p \<mapsto> v)"
    "view hh_hashv (upd h p (\<lambda>c. c\<lparr>hh_hashv := w\<rparr>)) = (view hh_hashv h)(p \<mapsto> w)"
  by (rule view_upd_same [OF assms]; simp)+

lemma view_keep [view_simps]:
  "view nxt (upd h p (\<lambda>c. c\<lparr>hh_next := v\<rparr>)) = view nxt h" "view prv (upd h p (\<lambda>c. c\<lparr>hh_next := v\<rparr>)) = view prv h"
  "view nxt (upd h p (\<lambda>c. c\<lparr>hh_prev := v\<rparr>)) = view nxt h" "view prv (upd h p (\<lambda>c. c\<lparr>hh_prev := v\<rparr>)) = view prv h"
  "view hh_prev (upd h p (\<lambda>c. c\<lparr>hh_next := v\<rparr>)) = view hh_prev h" "view hh_next (upd h p (\<lambda>c. c\<lparr>hh_prev := v\<rparr>)) = view hh_next h"
  "view info (upd h p (\<lambda>c. c\<lparr>hh_next := v\<rparr>)) = view info h" "view info (upd h p (\<lambda>c. c\<lparr>hh_prev := v\<rparr>)) = view info h"
  "view info (upd h p (\<lambda>c. c\<lparr>nxt := v\<rparr>)) = view info h" "view info (upd h p (\<lambda>c. c\<lparr>prv := v\<rparr>)) = view info h"
  "view prv (upd h p (\<lambda>c. c\<lparr>nxt := v\<rparr>)) = view prv h" "view nxt (upd h p (\<lambda>c. c\<lparr>prv := v\<rparr>)) = view nxt h"
  "view hh_next (upd h p (\<lambda>c. c\<lparr>nxt := v\<rparr>)) = view hh_next h" "view hh_prev (upd h p (\<lambda>c. c\<lparr>nxt := v\<rparr>)) = view hh_prev h"
  "view hh_next (upd h p (\<lambda>c. c\<lparr>prv := v\<rparr>)) = view hh_next h" "view hh_prev (upd h p (\<lambda>c. c\<lparr>prv := v\<rparr>)) = view hh_prev h"
  by (rule view_upd_other; simp add: info_def)+

text \<open>\<open>rebucketed h h'\<close>: only links of buckets changed.\<close>

definition rebucketed :: "'e elem_heap \<Rightarrow> 'e elem_heap \<Rightarrow> bool" where
  "rebucketed h h' \<longleftrightarrow> view nxt h' = view nxt h \<and> view prv h' = view prv h \<and> view info h' = view info h \<and>
     brk h' = brk h \<and> limit h' = limit h"

lemma rebucketed_refl [simp]: "rebucketed h h"
  by (simp add: rebucketed_def)

lemma rebucketed_trans [trans]: "rebucketed h h' \<Longrightarrow> rebucketed h' h'' \<Longrightarrow> rebucketed h h''"
  by (simp add: rebucketed_def)

lemma info_fields:
  assumes "view info h' = view info h"
  shows "view hh_hashv h' = view hh_hashv h" "view hh_tbl h' = view hh_tbl h" "view hh_key h' = view hh_key h"
    "view hh_keylen h' = view hh_keylen h" "alive h' = alive h"
proof -
  have *: "map_option info (cells h' p) = map_option info (cells h p)" for p
    using fun_cong [OF assms, of p] by (simp add: view_def)
  show "view hh_hashv h' = view hh_hashv h" "view hh_tbl h' = view hh_tbl h" "view hh_key h' = view hh_key h"
    "view hh_keylen h' = view hh_keylen h" "alive h' = alive h"
  proof (rule_tac [!] ext)
    fix p
    show "view hh_hashv h' p = view hh_hashv h p" "view hh_tbl h' p = view hh_tbl h p" "view hh_key h' p = view hh_key h p"
      "view hh_keylen h' p = view hh_keylen h p" "alive h' p = alive h p"
      using * [of p] by (cases "cells h p"; cases "cells h' p"; auto simp: view_def info_def alive_def)+
  qed
qed

subsection \<open>Chains of buckets\<close>

text \<open>The bucket of an element among \<open>num\<close> buckets.\<close>

definition bucket_of :: "'e elem_heap \<Rightarrow> u32 \<Rightarrow> ptr \<Rightarrow> nat" where
  "bucket_of h num p = unat (HASH_TO_BKT (the (view hh_hashv h p)) num)"

lemma bucket_of_info:
  assumes "view info h' = view info h"
  shows "bucket_of h' num = bucket_of h num"
  using info_fields(1) [OF assms] by (simp add: bucket_of_def fun_eq_iff)

definition chain_ok :: "'e elem_heap \<Rightarrow> u32 \<Rightarrow> nat \<Rightarrow> ptr list \<Rightarrow> bool" where
  "chain_ok h num i c \<longleftrightarrow> distinct c \<and> nexts (view hh_next h) c None \<and> prevs (view hh_prev h) None c \<and>
     (\<forall>p \<in> set c. bucket_of h num p = i)"

definition buckets_ok :: "'e elem_heap \<Rightarrow> u32 \<Rightarrow> UT_hash_bucket list \<Rightarrow> (nat \<Rightarrow> ptr list) \<Rightarrow> bool" where
  "buckets_ok h num bs cs \<longleftrightarrow> (\<forall>i < length bs. chain_ok h num i (cs i) \<and>
     hh_head (bs ! i) = first (cs i) None \<and> bkt_count (bs ! i) = of_nat (length (cs i)))"

definition members :: "nat \<Rightarrow> (nat \<Rightarrow> ptr list) \<Rightarrow> ptr set" where
  "members n cs = (\<Union>i < n. set (cs i))"

lemma members_upd: "i < n \<Longrightarrow> members n (cs(i := p # cs i)) = insert p (members n cs)"
  by (auto simp: members_def split: if_splits)

text \<open>Pushing an element in front of its bucket.\<close>

lemma chain_ok_frame:
  assumes "chain_ok h num j c" and "\<And>q. q \<in> set c \<Longrightarrow> view hh_next h' q = view hh_next h q"
    and "\<And>q. q \<in> set c \<Longrightarrow> view hh_prev h' q = view hh_prev h q" and "\<And>q. q \<in> set c \<Longrightarrow> view hh_hashv h' q = view hh_hashv h q"
  shows "chain_ok h' num j c"
  using assms nexts_cong [of c "view hh_next h'" "view hh_next h"] prevs_cong [of c "view hh_prev h'" "view hh_prev h"]
  by (auto simp: chain_ok_def bucket_of_def)

lemma chain_push:
  assumes c: "chain_ok h num i c" and p: "p \<notin> set c" "bucket_of h num p = i"
    and h': "view hh_next h' = (view hh_next h)(p \<mapsto> first c None)"
      "view hh_prev h' = (case c of [] \<Rightarrow> (view hh_prev h)(p \<mapsto> None) | q # _ \<Rightarrow> (view hh_prev h)(p \<mapsto> None, q \<mapsto> Some p))"
      "view info h' = view info h"
  shows "chain_ok h' num i (p # c)"
  using assms by (cases c) (auto simp: chain_ok_def bucket_of_info [OF h'(3)])

lemma buckets_push:
  assumes b: "buckets_ok h num bs cs" and i: "i < length bs" "bucket_of h num p = i" and p: "p \<notin> members (length bs) cs"
    and h': "view hh_next h' = (view hh_next h)(p \<mapsto> first (cs i) None)"
      "view hh_prev h' = (case cs i of [] \<Rightarrow> (view hh_prev h)(p \<mapsto> None) | q # _ \<Rightarrow> (view hh_prev h)(p \<mapsto> None, q \<mapsto> Some p))"
      "view info h' = view info h"
    and b': "hh_head b' = Some p" "bkt_count b' = of_nat (length (cs i)) + 1"
  shows "buckets_ok h' num (bs[i := b']) (cs(i := p # cs i))"
proof -
  have ch: "chain_ok h num j (cs j)" if "j < length bs" for j using b that by (simp add: buckets_ok_def)
  have "chain_ok h' num i (p # cs i)"
    using p i by (intro chain_push [OF ch [OF i(1)] _ i(2) h']) (auto simp: members_def)
  moreover have "chain_ok h' num j (cs j)" if j: "j < length bs" "j \<noteq> i" for j
  proof (rule chain_ok_frame [OF ch [OF j(1)]])
    fix q assume q: "q \<in> set (cs j)"
    have "q \<noteq> p" using q p j by (auto simp: members_def)
    moreover have "q \<notin> set (cs i)" using ch [OF j(1)] ch [OF i(1)] q j by (auto simp: chain_ok_def)
    ultimately show "view hh_next h' q = view hh_next h q" "view hh_prev h' q = view hh_prev h q" "view hh_hashv h' q = view hh_hashv h q"
      using h'(1,2) info_fields(1) [OF h'(3)] by (auto split: list.splits)
  qed
  ultimately show ?thesis using b b' i by (auto simp: buckets_ok_def nth_list_update)
qed

subsection \<open>Expansion\<close>

text \<open>The three stores that link an element in front of a chain.\<close>

lemma push_stores:
  assumes "alive h p" and "chain_ok h num i c"
  shows "\<exists>h'. (case first c None of Some q \<Rightarrow> modify (upd (upd h p (\<lambda>c. c\<lparr>hh_prev := None\<rparr>)) p (\<lambda>d. d\<lparr>hh_next := first c None\<rparr>)) q (\<lambda>c. c\<lparr>hh_prev := Some p\<rparr>)
       | None \<Rightarrow> Some (upd (upd h p (\<lambda>c. c\<lparr>hh_prev := None\<rparr>)) p (\<lambda>d. d\<lparr>hh_next := first c None\<rparr>))) = Some h' \<and>
     view hh_next h' = (view hh_next h)(p \<mapsto> first c None) \<and>
     view hh_prev h' = (case c of [] \<Rightarrow> (view hh_prev h)(p \<mapsto> None) | q # _ \<Rightarrow> (view hh_prev h)(p \<mapsto> None, q \<mapsto> Some p)) \<and>
     view info h' = view info h \<and> rebucketed h h'"
proof (cases c)
  case Nil
  with assms(1) show ?thesis by (simp add: view_simps rebucketed_def)
next
  case (Cons q qs)
  then have "alive h q" using assms(2) by (auto simp: chain_ok_def dest: view_alive)
  with Cons assms(1) show ?thesis by (simp add: modify_upd view_simps rebucketed_def)
qed

lemma bucket_at_Some: "unat i < length bs \<Longrightarrow> bucket_at bs i = Some (bs ! unat i)"
  by (simp add: bucket_at_def)

lemma expand_chain_ok:
  assumes "buckets_ok h num nb cs" and "nexts (view hh_next h) c None" "distinct c" "set c \<inter> members (length nb) cs = {}"
    and "\<And>p. bucket_of h num p < length nb" and ideal: "ideal \<noteq> 0"
  shows "\<exists>h' nb' nonideal' cs'. expand_chain num ideal h nb nonideal (first c None) = Some (h', nb', nonideal') \<and>
    buckets_ok h' num nb' cs' \<and> length nb' = length nb \<and> members (length nb) cs' = members (length nb) cs \<union> set c \<and>
    rebucketed h h' \<and> (\<forall>q. q \<notin> set c \<longrightarrow> view hh_next h' q = view hh_next h q)"
  using assms(1-5)
proof (induction c arbitrary: h nb cs nonideal)
  case Nil
  then show ?case by (subst expand_chain.simps) auto
next
  case (Cons p c)
  let ?i = "bucket_of h num p"
  have p: "alive h p" "view hh_next h p = Some (first c None)" using Cons.prems(2) by (auto dest: view_alive)
  then obtain cc where cc: "load h p = Some cc" "hh_next cc = first c None" by (auto simp: view_def load_def)
  have i: "?i < length nb" "unat (HASH_TO_BKT (hh_hashv cc) num) = ?i"
    using Cons.prems(5) [of p] load_view [OF cc(1), of hh_hashv] by (auto simp: bucket_of_def)
  have ch: "chain_ok h num ?i (cs ?i)" "hh_head (nb ! ?i) = first (cs ?i) None" "bkt_count (nb ! ?i) = of_nat (length (cs ?i))"
    using Cons.prems(1) i(1) by (auto simp: buckets_ok_def)
  let ?b = "(nb ! ?i)\<lparr>bkt_count := bkt_count (nb ! ?i) + 1\<rparr>"
  obtain b non1 where b: "(if bkt_count ?b > ideal then
        (if ideal = 0 then None else Some (?b\<lparr>expand_mult := bkt_count ?b div ideal\<rparr>, nonideal + 1))
      else Some (?b, nonideal)) = Some (b, non1)" "hh_head b = first (cs ?i) None" "bkt_count b = of_nat (length (cs ?i)) + 1"
    using ideal ch(2,3) by (cases "bkt_count ?b > ideal") auto
  from push_stores [OF p(1) ch(1)] obtain h1 where h1:
    "(case first (cs ?i) None of Some q \<Rightarrow> modify (upd (upd h p (\<lambda>c. c\<lparr>hh_prev := None\<rparr>)) p (\<lambda>d. d\<lparr>hh_next := first (cs ?i) None\<rparr>)) q (\<lambda>c. c\<lparr>hh_prev := Some p\<rparr>)
       | None \<Rightarrow> Some (upd (upd h p (\<lambda>c. c\<lparr>hh_prev := None\<rparr>)) p (\<lambda>d. d\<lparr>hh_next := first (cs ?i) None\<rparr>))) = Some h1"
    "view hh_next h1 = (view hh_next h)(p \<mapsto> first (cs ?i) None)"
    "view hh_prev h1 = (case cs ?i of [] \<Rightarrow> (view hh_prev h)(p \<mapsto> None) | q # _ \<Rightarrow> (view hh_prev h)(p \<mapsto> None, q \<mapsto> Some p))"
    "view info h1 = view info h" "rebucketed h h1" by blast
  have step: "expand_chain num ideal h nb nonideal (first (p # c) None) =
      expand_chain num ideal h1 (nb[?i := b\<lparr>hh_head := Some p\<rparr>]) non1 (first c None)"
    using cc i b(1) h1(1) [folded b(2)] p(1)
    by (subst expand_chain.simps) (simp add: bucket_at_Some modify_upd upd_extent Let_def)
  have bo: "buckets_ok h1 num (nb[?i := b\<lparr>hh_head := Some p\<rparr>]) (cs(?i := p # cs ?i))"
    using Cons.prems(4) b(3) by (intro buckets_push [OF Cons.prems(1) i(1) refl _ h1(2-4)]) auto
  let ?nb = "nb[?i := b\<lparr>hh_head := Some p\<rparr>]" and ?cs = "cs(?i := p # cs ?i)"
  have "nexts (view hh_next h1) c None" "distinct c" "set c \<inter> members (length ?nb) ?cs = {}"
    using Cons.prems(2-4) h1(2) i(1) by (auto simp: members_upd simp del: fun_upd_apply)
  moreover have "bucket_of h1 num q < length ?nb" for q using Cons.prems(5) bucket_of_info [OF h1(4)] by simp
  ultimately obtain h' nb' non' cs' where "expand_chain num ideal h1 ?nb non1 (first c None) = Some (h', nb', non')"
    "buckets_ok h' num nb' cs'" "length nb' = length nb" "members (length nb) cs' = members (length nb) ?cs \<union> set c"
    "rebucketed h1 h'" "\<forall>q. q \<notin> set c \<longrightarrow> view hh_next h' q = view hh_next h1 q"
    using Cons.IH [OF bo, of non1] unfolding length_list_update by blast
  with step show ?case
    using rebucketed_trans [OF h1(5)] i(1) h1(2) by (auto simp: members_upd simp del: fun_upd_apply) auto
qed

lemma expand_all_ok:
  assumes "buckets_ok h num nb cs" and "\<forall>c \<in> set os. nexts (view hh_next h) c None" "distinct (concat os)"
    "set (concat os) \<inter> members (length nb) cs = {}" "map hh_head bs = map (\<lambda>c. first c None) os"
    and "\<And>p. bucket_of h num p < length nb" and "ideal \<noteq> 0"
  shows "\<exists>h' nb' nonideal' cs'. expand_all num ideal h nb nonideal bs = Some (h', nb', nonideal') \<and>
    buckets_ok h' num nb' cs' \<and> length nb' = length nb \<and> members (length nb) cs' = members (length nb) cs \<union> set (concat os) \<and>
    rebucketed h h'"
  using assms(1-6)
proof (induction os arbitrary: h nb cs nonideal bs)
  case Nil
  then show ?case by auto
next
  case (Cons c os)
  then obtain b bs' where bs: "bs = b # bs'" "hh_head b = first c None" "map hh_head bs' = map (\<lambda>c. first c None) os" by auto
  have c: "nexts (view hh_next h) c None" "distinct c" "set c \<inter> members (length nb) cs = {}" "set c \<inter> set (concat os) = {}"
    using Cons.prems(2-4) by auto
  from expand_chain_ok [OF Cons.prems(1) c(1-3) Cons.prems(6) assms(7), of nonideal] obtain h1 nb1 non1 cs1 where
    1: "expand_chain num ideal h nb nonideal (first c None) = Some (h1, nb1, non1)" "buckets_ok h1 num nb1 cs1"
      "length nb1 = length nb" "members (length nb) cs1 = members (length nb) cs \<union> set c" "rebucketed h h1"
      "\<forall>q. q \<notin> set c \<longrightarrow> view hh_next h1 q = view hh_next h q" by blast
  have "nexts (view hh_next h1) d None" if d: "d \<in> set os" for d
  proof -
    have "nexts (view hh_next h1) d None = nexts (view hh_next h) d None"
      using 1(6) c(4) d by (intro nexts_cong) auto
    then show ?thesis using Cons.prems(2) d by simp
  qed
  moreover have "bucket_of h1 num = bucket_of h num" using 1(5) by (intro bucket_of_info) (simp add: rebucketed_def)
  moreover have "distinct (concat os)" "set (concat os) \<inter> members (length nb1) cs1 = {}" "\<And>p. bucket_of h1 num p < length nb1"
    using Cons.prems(3,4,6) c(4) 1(3,4) calculation(2) by auto
  ultimately obtain h' nb' non' cs' where "expand_all num ideal h1 nb1 non1 bs' = Some (h', nb', non')" "buckets_ok h' num nb' cs'"
    "length nb' = length nb" "members (length nb) cs' = members (length nb) cs1 \<union> set (concat os)" "rebucketed h1 h'"
    using Cons.IH [OF 1(2) _ _ _ bs(3), of non1] unfolding 1(3) by blast
  then show ?case using 1 bs rebucketed_trans [OF 1(5)] by auto
qed

lemma unat_u32: "unat (n :: u32) < 2 ^ 32"
proof -
  have "unat n < 2 ^ LENGTH(32)" by (rule unsigned_less)
  then show ?thesis by simp
qed

lemma unat_drop_bit: "unat (drop_bit k (n :: u32)) = unat n div 2 ^ k"
  unfolding unsigned_drop_bit_eq using unat_u32 [of n] by (simp add: drop_bit_eq_div take_bit_nat_eq_self)

lemma ideal_nonzero:
  assumes "n \<noteq> (0 :: u32)" and "lg < 32" "1 \<le> lg"
  shows "drop_bit lg n + (if n AND (2 ^ lg - 1) \<noteq> 0 then 1 else 0) \<noteq> 0"
proof (cases "n AND (2 ^ lg - 1) = 0")
  case True
  then have "unat n mod 2 ^ lg = 0" using bucket_mod [OF assms(2), of n] by simp
  moreover have "unat n \<noteq> 0" using assms(1) by (simp add: unat_eq_0)
  ultimately have "unat n div 2 ^ lg \<noteq> 0" by (metis div_mult_mod_eq add_0_right mult_0)
  then have "unat (drop_bit lg n) \<noteq> 0" by (simp add: unat_drop_bit)
  then show ?thesis using True by auto
next
  case False
  have "(2 :: nat) ^ 1 \<le> 2 ^ lg" using assms(3) by (intro power_increasing) auto
  then have "unat n div 2 ^ lg \<le> unat n div 2 ^ 1" by (intro div_le_mono2) auto
  also have "\<dots> < 2 ^ 31" using unat_u32 [of n] by simp
  finally have "unat (drop_bit lg n) < 2 ^ 31" by (simp only: unat_drop_bit)
  then have "drop_bit lg n \<noteq> - 1" by (auto simp: unsigned_minus_1_eq_mask mask_eq_exp_minus_1)
  then show ?thesis using False by (simp add: eq_neg_iff_add_eq_0)
qed

text \<open>The table \<open>T\<close> at \<open>t\<close> files exactly the elements \<open>S\<close>.\<close>

definition table_ok :: "'e hash_mem \<Rightarrow> ptr \<Rightarrow> UT_hash_table \<Rightarrow> ptr set \<Rightarrow> bool" where
  "table_ok M t T S \<longleftrightarrow> cells (tables M) t = Some T \<and>
     (\<exists>lg cs. lg \<le> 30 \<and> num_buckets T = 2 ^ lg \<and> log2_num_buckets T = of_nat lg \<and> length (buckets T) = 2 ^ lg \<and>
        buckets_ok (elems M) (num_buckets T) (buckets T) cs \<and> members (2 ^ lg) cs = S)"

lemma table_ok_frame:
  assumes T: "table_ok M t T S" and T': "cells (tables M') t = Some T'" "buckets T' = buckets T" "num_buckets T' = num_buckets T"
      "log2_num_buckets T' = log2_num_buckets T"
    and same: "\<And>q. q \<in> S \<Longrightarrow> view hh_next (elems M') q = view hh_next (elems M) q"
      "\<And>q. q \<in> S \<Longrightarrow> view hh_prev (elems M') q = view hh_prev (elems M) q" "\<And>q. q \<in> S \<Longrightarrow> view hh_hashv (elems M') q = view hh_hashv (elems M) q"
  shows "table_ok M' t T' S"
proof -
  obtain lg cs where *: "lg \<le> 30" "num_buckets T = 2 ^ lg" "log2_num_buckets T = of_nat lg" "length (buckets T) = 2 ^ lg"
    "buckets_ok (elems M) (num_buckets T) (buckets T) cs" "members (2 ^ lg) cs = S" using T by (auto simp: table_ok_def)
  have "chain_ok (elems M') (num_buckets T) i (cs i)" if i: "i < 2 ^ lg" for i
  proof (rule chain_ok_frame)
    show "chain_ok (elems M) (num_buckets T) i (cs i)" using *(4,5) i by (simp add: buckets_ok_def)
  qed (use same *(6) i in \<open>auto simp: members_def\<close>)
  then have "buckets_ok (elems M') (num_buckets T) (buckets T) cs" using *(4,5) by (simp add: buckets_ok_def)
  then show ?thesis using * T' by (auto simp: table_ok_def)
qed

text \<open>What the operations on one table leave alone: other tables and the extents of the memory.\<close>

definition other_tables :: "ptr \<Rightarrow> 'e hash_mem \<Rightarrow> 'e hash_mem \<Rightarrow> bool" where
  "other_tables t M M' \<longleftrightarrow> (\<forall>u. u \<noteq> t \<longrightarrow> cells (tables M') u = cells (tables M) u) \<and> bkt_room M' = bkt_room M \<and>
     brk (tables M') = brk (tables M) \<and> limit (tables M') = limit (tables M)"

lemma other_tables_refl [simp]: "other_tables t M M"
  by (simp add: other_tables_def)

lemma other_tables_trans: "other_tables t M M' \<Longrightarrow> other_tables t M' M'' \<Longrightarrow> other_tables t M M''"
  by (simp add: other_tables_def)

lemma distinct_chains:
  assumes "\<And>i. i < n \<Longrightarrow> chain_ok h num i (cs i)"
  shows "distinct (concat (map cs [0..<n]))"
  using assms
proof (induction n)
  case (Suc n)
  have "set (cs n) \<inter> set (cs i) = {}" if "i < n" for i
    using Suc.prems [of n] Suc.prems [of i] that by (auto simp: chain_ok_def)
  then have "set (concat (map cs [0..<n])) \<inter> set (cs n) = {}" by fastforce
  moreover have "distinct (cs n)" "distinct (concat (map cs [0..<n]))" using Suc by (auto simp: chain_ok_def)
  ultimately show ?case by simp
qed simp

lemma unat_u32_of_nat: "k < 2 ^ 32 \<Longrightarrow> unat (of_nat k :: u32) = k"
  by (simp add: unsigned_of_nat take_bit_nat_eq_self)

lemma unat_exp:
  assumes "k < 32"
  shows "unat (2 ^ k :: u32) = 2 ^ k"
proof -
  have "(2 :: nat) ^ k < 2 ^ 32" using assms by (rule power_strict_increasing) simp
  from unat_u32_of_nat [OF this] show ?thesis by simp
qed

lemma initial_buckets: "buckets_ok h num (replicate n \<lparr>hh_head = None, bkt_count = 0, expand_mult = 0\<rparr>) (\<lambda>_. [])"
  by (simp add: buckets_ok_def chain_ok_def)

lemma expand_ok:
  assumes T: "table_ok M t T S" and n: "num_items T \<noteq> 0" and room: "bkt_room M \<le> 2 ^ 30"
  shows "HASH_EXPAND_BUCKETS M t = Some (Inl Out_of_memory) \<and> bkt_room M < 2 * unat (num_buckets T) \<or>
    (\<exists>M' T'. HASH_EXPAND_BUCKETS M t = Some (Inr M') \<and> table_ok M' t T' S \<and> rebucketed (elems M) (elems M') \<and>
       num_items T' = num_items T \<and> tbl_tail T' = tbl_tail T \<and> unat (num_buckets T') \<le> 2 * unat (num_buckets T) \<and> other_tables t M M')"
proof -
  obtain lg cs where T': "cells (tables M) t = Some T" "lg \<le> 30" "num_buckets T = 2 ^ lg" "log2_num_buckets T = of_nat lg"
    "length (buckets T) = 2 ^ lg" "buckets_ok (elems M) (num_buckets T) (buckets T) cs" "members (2 ^ lg) cs = S"
    using T by (auto simp: table_ok_def)
  have num: "num_buckets T * 2 = 2 ^ Suc lg" using T'(3) by simp
  have un: "unat (num_buckets T * 2) = 2 ^ Suc lg" "unat (num_buckets T) = 2 ^ lg" "unat (log2_num_buckets T + 1) = Suc lg"
    using T'(2-4) unat_exp [of "Suc lg"] unat_exp [of lg] unat_u32_of_nat [of lg] unat_u32_of_nat [of "Suc lg"] unfolding num by (auto simp: add.commute)
  show ?thesis
  proof (cases "2 ^ Suc lg > bkt_room M")
    case True
    with T'(1) un(1,2) show ?thesis by (simp add: HASH_EXPAND_BUCKETS_def load_def Let_def)
  next
    case False
    then have "(2 :: nat) ^ Suc lg \<le> 2 ^ 30" using room by simp
    then have lg: "Suc lg \<le> 30" by (simp only: power_increasing_iff)
    let ?h = "elems M" and ?num = "num_buckets T * 2" and ?os = "map cs [0..<2 ^ lg]"
    let ?nb = "replicate (2 ^ Suc lg) \<lparr>hh_head = None, bkt_count = 0, expand_mult = 0\<rparr>"
    define ideal where "ideal = drop_bit (Suc lg) (num_items T) + (if num_items T AND (?num - 1) \<noteq> 0 then 1 else 0)"
    have ideal: "ideal \<noteq> 0" using ideal_nonzero [OF n, of "Suc lg"] lg unfolding ideal_def num by simp
    have ch: "chain_ok ?h (num_buckets T) i (cs i)" "hh_head (buckets T ! i) = first (cs i) None" if "i < 2 ^ lg" for i
      using T'(5,6) that by (auto simp: buckets_ok_def)
    have "\<forall>c \<in> set ?os. nexts (view hh_next ?h) c None" using ch(1) by (auto simp: chain_ok_def)
    moreover have "distinct (concat ?os)" by (rule distinct_chains [OF ch(1)])
    moreover have "set (concat ?os) \<inter> members (length ?nb) (\<lambda>_. []) = {}" by (simp add: members_def)
    moreover have "map hh_head (buckets T) = map (\<lambda>c. first c None) ?os"
      using ch(2) T'(5) by (intro nth_equalityI) auto
    moreover have "bucket_of ?h ?num p < length ?nb" for p
      using bucket_less [of "Suc lg"] lg unfolding num by (simp add: bucket_of_def)
    ultimately obtain h' nb' non' cs' where x: "expand_all ?num ideal ?h ?nb 0 (buckets T) = Some (h', nb', non')"
      "buckets_ok h' ?num nb' cs'" "length nb' = 2 ^ Suc lg" "members (2 ^ Suc lg) cs' = set (concat ?os)" "rebucketed ?h h'"
      using expand_all_ok [where nonideal = 0, OF initial_buckets _ _ _ _ _ ideal, of ?os ?h "2 ^ Suc lg" "buckets T" ?num]
      by (auto simp: members_def)
    have "set (concat ?os) = S" using T'(7) by (auto simp: members_def)
    with x T' un lg ideal_def False show ?thesis
      by (auto simp: HASH_EXPAND_BUCKETS_def load_def Let_def modify_def table_ok_def other_tables_def num intro!: exI [of _ "Suc lg"] exI [of _ cs'])
  qed
qed

subsection \<open>Adding to a bucket\<close>

lemma upd_elem_Some: "alive (elems M) p \<Longrightarrow> upd_elem M p f = Some (M\<lparr>elems := upd (elems M) p f\<rparr>)"
  by (simp add: upd_elem_def modify_upd)

lemma upd_table_Some:
  "cells (tables M) t = Some T \<Longrightarrow> upd_table M t f = Some (M\<lparr>tables := (tables M)\<lparr>cells := (cells (tables M))(t \<mapsto> f T)\<rparr>\<rparr>)"
  by (simp add: upd_table_def modify_def)

lemma upd_bucket_Some:
  "cells (tables M) t = Some T \<Longrightarrow> unat i < length (buckets T) \<Longrightarrow>
   upd_bucket M t i f = Some (M\<lparr>tables := (tables M)\<lparr>cells := (cells (tables M))(t \<mapsto> T\<lparr>buckets := (buckets T)[unat i := f (buckets T ! unat i)]\<rparr>)\<rparr>\<rparr>)"
  by (simp add: upd_bucket_def load_def bucket_at_Some upd_table_Some)

lemmas hash_access = upd_elem_Some upd_table_Some upd_bucket_Some bucket_at_Some load_def upd_extent

lemma table_of_Some:
  "view hh_tbl (elems M) p = Some (Some t) \<Longrightarrow> cells (tables M) t = Some T \<Longrightarrow> table_of M p = Some (t, T)"
  by (auto simp: table_of_def view_def load_def)

text \<open>The stores of \<^verbatim>\<open>HASH_ADD_TO_BKT\<close> come in the other order than those of the expansion.\<close>

lemma upd_commute: "(\<And>c. f (g c) = g (f c)) \<Longrightarrow> upd (upd h p f) p g = upd (upd h p g) p f"
  by (cases "cells h p") (auto simp: upd_def)

lemma push_stores':
  assumes "alive h p" and "chain_ok h num i c"
  shows "\<exists>h'. (case first c None of Some q \<Rightarrow> modify (upd (upd h p (\<lambda>d. d\<lparr>hh_next := first c None\<rparr>)) p (\<lambda>c. c\<lparr>hh_prev := None\<rparr>)) q (\<lambda>c. c\<lparr>hh_prev := Some p\<rparr>)
       | None \<Rightarrow> Some (upd (upd h p (\<lambda>d. d\<lparr>hh_next := first c None\<rparr>)) p (\<lambda>c. c\<lparr>hh_prev := None\<rparr>))) = Some h' \<and>
     view hh_next h' = (view hh_next h)(p \<mapsto> first c None) \<and>
     view hh_prev h' = (case c of [] \<Rightarrow> (view hh_prev h)(p \<mapsto> None) | q # _ \<Rightarrow> (view hh_prev h)(p \<mapsto> None, q \<mapsto> Some p)) \<and>
     view info h' = view info h \<and> rebucketed h h'"
proof -
  have "upd (upd h p (\<lambda>d. d\<lparr>hh_next := first c None\<rparr>)) p (\<lambda>c. c\<lparr>hh_prev := None\<rparr>) =
      upd (upd h p (\<lambda>c. c\<lparr>hh_prev := None\<rparr>)) p (\<lambda>d. d\<lparr>hh_next := first c None\<rparr>)" by (rule upd_commute) simp
  then show ?thesis using push_stores [OF assms] by (simp only:)
qed

lemma add_to_bkt_ok:
  assumes T: "table_ok M t T S" and add: "add \<notin> S" "alive (elems M) add" "view hh_tbl (elems M) add = Some (Some t)"
    and bkt: "unat bkt = bucket_of (elems M) (num_buckets T) add"
    and n: "num_items T \<noteq> 0 \<or> S = {} \<and> expand_mult (buckets T ! unat bkt) = 0" and room: "bkt_room M \<le> 2 ^ 30"
  shows "HASH_ADD_TO_BKT M t bkt add = Some (Inl Out_of_memory) \<and> bkt_room M < 2 * unat (num_buckets T) \<or>
    (\<exists>M' T'. HASH_ADD_TO_BKT M t bkt add = Some (Inr M') \<and> table_ok M' t T' (insert add S) \<and> rebucketed (elems M) (elems M') \<and>
       num_items T' = num_items T \<and> tbl_tail T' = tbl_tail T \<and> unat (num_buckets T') \<le> 2 * unat (num_buckets T) \<and> other_tables t M M')"
proof -
  obtain lg cs where T': "cells (tables M) t = Some T" "lg \<le> 30" "num_buckets T = 2 ^ lg" "log2_num_buckets T = of_nat lg"
    "length (buckets T) = 2 ^ lg" "buckets_ok (elems M) (num_buckets T) (buckets T) cs" "members (2 ^ lg) cs = S"
    using T by (auto simp: table_ok_def)
  let ?i = "unat bkt"
  have i: "?i < length (buckets T)" using bucket_less [of lg] T'(2,3,5) bkt by (simp add: bucket_of_def)
  have ch: "chain_ok (elems M) (num_buckets T) ?i (cs ?i)" "hh_head (buckets T ! ?i) = first (cs ?i) None"
      "bkt_count (buckets T ! ?i) = of_nat (length (cs ?i))"
    using T'(6) i by (auto simp: buckets_ok_def)
  from push_stores' [OF add(2) ch(1)] obtain h1 where h1:
    "(case first (cs ?i) None of Some q \<Rightarrow> modify (upd (upd (elems M) add (\<lambda>d. d\<lparr>hh_next := first (cs ?i) None\<rparr>)) add (\<lambda>c. c\<lparr>hh_prev := None\<rparr>)) q (\<lambda>c. c\<lparr>hh_prev := Some add\<rparr>)
       | None \<Rightarrow> Some (upd (upd (elems M) add (\<lambda>d. d\<lparr>hh_next := first (cs ?i) None\<rparr>)) add (\<lambda>c. c\<lparr>hh_prev := None\<rparr>))) = Some h1"
    "view hh_next h1 = (view hh_next (elems M))(add \<mapsto> first (cs ?i) None)"
    "view hh_prev h1 = (case cs ?i of [] \<Rightarrow> (view hh_prev (elems M))(add \<mapsto> None) | q # _ \<Rightarrow> (view hh_prev (elems M))(add \<mapsto> None, q \<mapsto> Some add))"
    "view info h1 = view info (elems M)" "rebucketed (elems M) h1" by blast
  let ?b = "(buckets T ! ?i)\<lparr>bkt_count := bkt_count (buckets T ! ?i) + 1, hh_head := Some add\<rparr>"
  define T1 where "T1 = T\<lparr>buckets := (buckets T)[?i := ?b]\<rparr>"
  define M1 where "M1 = M\<lparr>elems := h1, tables := (tables M)\<lparr>cells := (cells (tables M))(t \<mapsto> T1)\<rparr>\<rparr>"
  have "buckets_ok h1 (num_buckets T) ((buckets T)[?i := ?b]) (cs(?i := add # cs ?i))"
    using add(1) T'(5,7) ch(3) i by (intro buckets_push [OF T'(6) _ bkt [symmetric] _ h1(2-4)]) auto
  then have ok1: "table_ok M1 t T1 (insert add S)"
    using T' i members_upd [of ?i "2 ^ lg" cs add] by (auto simp: table_ok_def M1_def T1_def fun_upd_same simp del: fun_upd_apply)
  have tab: "view hh_tbl h1 add = Some (Some t)" using info_fields(2) [OF h1(4)] add(3) by simp
  then have of1: "table_of M1 add = Some (t, T1)" by (intro table_of_Some) (simp_all add: M1_def)
  have run: "HASH_ADD_TO_BKT M t bkt add =
      (if bkt_count ?b \<ge> (expand_mult ?b + 1) * HASH_BKT_CAPACITY_THRESH \<and> noexpand T1 \<noteq> 1 then HASH_EXPAND_BUCKETS M1 t else Some (Inr M1))"
    using T'(1) i add(2) h1(1) ch(2) of1
    by (cases "cs ?i") (auto simp: HASH_ADD_TO_BKT_def hash_access upd_elem_def modify_upd M1_def T1_def)
  have e: "num_items T1 = num_items T" "tbl_tail T1 = tbl_tail T" "elems M1 = h1" "other_tables t M M1" "bkt_room M1 = bkt_room M"
    "num_buckets T1 = num_buckets T"
    by (simp_all add: T1_def M1_def other_tables_def)
  have ex: "HASH_EXPAND_BUCKETS M1 t = Some (Inl Out_of_memory) \<and> bkt_room M < 2 * unat (num_buckets T) \<or>
    (\<exists>M' T'. HASH_EXPAND_BUCKETS M1 t = Some (Inr M') \<and> table_ok M' t T' (insert add S) \<and> rebucketed h1 (elems M') \<and>
       num_items T' = num_items T \<and> tbl_tail T' = tbl_tail T \<and> unat (num_buckets T') \<le> 2 * unat (num_buckets T) \<and> other_tables t M1 M')"
    if "num_items T \<noteq> 0"
    using expand_ok [OF ok1] that room unfolding e by blast
  show ?thesis
  proof (cases "bkt_count ?b \<ge> (expand_mult ?b + 1) * HASH_BKT_CAPACITY_THRESH \<and> noexpand T1 \<noteq> 1")
    case True
    have "num_items T \<noteq> 0"
    proof
      assume "num_items T = 0"
      with n have "S = {}" "expand_mult (buckets T ! ?i) = 0" by auto
      moreover from this have "cs ?i = []" using T'(5,7) i by (auto simp: members_def)
      ultimately show False using True ch(3) by (simp add: HASH_BKT_CAPACITY_THRESH_def word_le_nat_alt)
    qed
    moreover have "HASH_ADD_TO_BKT M t bkt add = HASH_EXPAND_BUCKETS M1 t" using True unfolding run by (rule if_P)
    ultimately show ?thesis using ex rebucketed_trans [OF h1(5)] other_tables_trans [OF e(4)] by metis
  next
    case False
    then have "HASH_ADD_TO_BKT M t bkt add = Some (Inr M1)" unfolding run by (rule if_not_P)
    moreover have "unat (num_buckets T1) \<le> 2 * unat (num_buckets T)" unfolding e(6) by simp
    ultimately show ?thesis using ok1 e h1(5) by metis
  qed
qed

subsection \<open>Removing from a bucket\<close>

text \<open>Unlinking an element: its predecessor, if any, gets its successor, and the other way round.\<close>

definition opt_upd :: "(ptr \<rightharpoonup> 'b) \<Rightarrow> ptr option \<Rightarrow> 'b \<Rightarrow> (ptr \<rightharpoonup> 'b)" where
  "opt_upd f p v = (case p of None \<Rightarrow> f | Some q \<Rightarrow> f(q \<mapsto> v))"

lemma opt_upd_simps [simp]: "opt_upd f None v = f" "opt_upd f (Some q) v = f(q \<mapsto> v)"
  by (simp_all add: opt_upd_def)

lemma opt_upd_other: "q \<noteq> Some p \<Longrightarrow> opt_upd f q v p = f p"
  by (cases q) auto

lemma nexts_unlink:
  assumes "nexts f (xs @ d # ys) None" and "distinct (xs @ d # ys)"
  shows "nexts (opt_upd f (final None xs) (first ys None)) (xs @ ys) None"
  using assms by (cases xs rule: rev_cases) auto

lemma prevs_unlink:
  assumes "prevs f None (xs @ d # ys)" and "distinct (xs @ d # ys)"
  shows "prevs (opt_upd f (first ys None) (final None xs)) None (xs @ ys)"
  using assms by (cases ys) auto

lemma chain_remove:
  assumes c: "chain_ok h num i (xs @ d # ys)"
    and h': "view hh_next h' = opt_upd (view hh_next h) (final None xs) (first ys None)"
      "view hh_prev h' = opt_upd (view hh_prev h) (first ys None) (final None xs)" "view info h' = view info h"
  shows "chain_ok h' num i (xs @ ys)"
  using c nexts_unlink [of "view hh_next h" xs d ys] prevs_unlink [of "view hh_prev h" xs d ys] bucket_of_info [OF h'(3), of num]
  unfolding chain_ok_def h' by auto

lemma buckets_remove:
  assumes b: "buckets_ok h num bs cs" and i: "i < length bs" "cs i = xs @ d # ys"
    and h': "view hh_next h' = opt_upd (view hh_next h) (final None xs) (first ys None)"
      "view hh_prev h' = opt_upd (view hh_prev h) (first ys None) (final None xs)" "view info h' = view info h"
    and b': "hh_head b' = first (xs @ ys) None" "bkt_count b' = of_nat (length (xs @ ys))"
  shows "buckets_ok h' num (bs[i := b']) (cs(i := xs @ ys))"
proof -
  have ch: "chain_ok h num j (cs j)" if "j < length bs" for j using b that by (simp add: buckets_ok_def)
  have "chain_ok h' num i (xs @ ys)" using ch [OF i(1)] chain_remove [OF _ h'] i(2) by simp
  moreover have "chain_ok h' num j (cs j)" if j: "j < length bs" "j \<noteq> i" for j
  proof (rule chain_ok_frame [OF ch [OF j(1)]])
    fix q assume q: "q \<in> set (cs j)"
    then have "q \<notin> set (cs i)" using ch [OF j(1)] ch [OF i(1)] j by (auto simp: chain_ok_def)
    then have "final None xs \<noteq> Some q" "first ys None \<noteq> Some q"
      using i(2) by (auto dest: final_in_set) (cases ys; simp)
    then show "view hh_next h' q = view hh_next h q" "view hh_prev h' q = view hh_prev h q" "view hh_hashv h' q = view hh_hashv h q"
      using h'(1,2) info_fields(1) [OF h'(3)] by (auto simp: opt_upd_other)
  qed
  ultimately show ?thesis using b b' i by (auto simp: buckets_ok_def nth_list_update)
qed

lemma members_remove:
  assumes "\<And>j. j < n \<Longrightarrow> chain_ok h num j (cs j)" and "i < n" "cs i = xs @ d # ys"
  shows "members n (cs(i := xs @ ys)) = members n cs - {d}"
proof -
  have "d \<notin> set (cs j)" if "j < n" "j \<noteq> i" for j
    using assms(1) [OF that(1)] assms(1) [OF assms(2)] assms(3) that(2) by (auto simp: chain_ok_def)
  moreover have "d \<notin> set xs \<union> set ys" using assms(1) [OF assms(2)] assms(3) by (auto simp: chain_ok_def)
  ultimately have "set ((cs(i := xs @ ys)) j) = set (cs j) - {d}" if "j < n" for j
    using assms(3) that by (cases "j = i") auto
  then show ?thesis by (auto simp: members_def simp del: fun_upd_apply)
qed

lemma del_in_bkt_ok:
  assumes T: "table_ok M t T S" and del: "del \<in> S" and bkt: "unat bkt = bucket_of (elems M) (num_buckets T) del"
  shows "\<exists>M' T'. HASH_DEL_IN_BKT M t bkt del = Some M' \<and> table_ok M' t T' (S - {del}) \<and> rebucketed (elems M) (elems M') \<and>
       num_items T' = num_items T \<and> tbl_tail T' = tbl_tail T \<and> num_buckets T' = num_buckets T \<and> other_tables t M M'"
proof -
  obtain lg cs where T': "cells (tables M) t = Some T" "lg \<le> 30" "num_buckets T = 2 ^ lg" "log2_num_buckets T = of_nat lg"
    "length (buckets T) = 2 ^ lg" "buckets_ok (elems M) (num_buckets T) (buckets T) cs" "members (2 ^ lg) cs = S"
    using T by (auto simp: table_ok_def)
  let ?i = "unat bkt"
  have i: "?i < length (buckets T)" using bucket_less [of lg] T'(2,3,5) bkt by (simp add: bucket_of_def)
  have ch: "chain_ok (elems M) (num_buckets T) j (cs j)" if "j < 2 ^ lg" for j using T'(5,6) that by (simp add: buckets_ok_def)
  have hd: "hh_head (buckets T ! ?i) = first (cs ?i) None" "bkt_count (buckets T ! ?i) = of_nat (length (cs ?i))"
    using T'(6) i by (auto simp: buckets_ok_def)
  have "del \<in> set (cs ?i)" using del T'(7) bkt ch by (auto simp: members_def chain_ok_def)
  then obtain xs ys where xy: "cs ?i = xs @ del # ys" by (auto dest: split_list)
  have c0: "chain_ok (elems M) (num_buckets T) ?i (xs @ del # ys)" using ch [of ?i] i T'(5) xy by simp
  then have d: "distinct (xs @ del # ys)" "nexts (view hh_next (elems M)) (xs @ del # ys) None"
    "prevs (view hh_prev (elems M)) None (xs @ del # ys)" by (auto simp: chain_ok_def)
  then have al: "alive (elems M) p" if "p \<in> set (xs @ del # ys)" for p using nexts_Some [OF d(2) that] by (auto dest: view_alive)
  obtain c where c: "cells (elems M) del = Some c" "hh_next c = first ys None" "hh_prev c = final None xs"
    using d by (auto simp: view_def)
  define h1 where "h1 = (case final None xs of Some q \<Rightarrow> upd (elems M) q (\<lambda>d. d\<lparr>hh_next := first ys None\<rparr>) | None \<Rightarrow> elems M)"
  define h2 where "h2 = (case first ys None of Some n \<Rightarrow> upd h1 n (\<lambda>d. d\<lparr>hh_prev := final None xs\<rparr>) | None \<Rightarrow> h1)"
  let ?b = "(buckets T ! ?i)\<lparr>bkt_count := bkt_count (buckets T ! ?i) - 1, hh_head := first (xs @ ys) None\<rparr>"
  define T1 where "T1 = T\<lparr>buckets := (buckets T)[?i := ?b]\<rparr>"
  define M1 where "M1 = M\<lparr>elems := h2, tables := (tables M)\<lparr>cells := (cells (tables M))(t \<mapsto> T1)\<rparr>\<rparr>"
  have q: "q \<in> set xs \<and> alive (elems M) q \<and> q \<noteq> del" if "final None xs = Some q" for q
    using final_in_set [OF that] d(1) al by auto
  have n: "n \<in> set ys \<and> alive (elems M) n" if "first ys None = Some n" for n
    using that al by (cases ys) auto
  have al1: "alive h1 = alive (elems M)" by (auto simp: h1_def upd_extent split: option.splits)
  have c1: "cells h1 del = Some c" using c(1) q by (auto simp: h1_def upd_def split: option.splits)
  have bk: "T\<lparr>buckets := (buckets T)[?i := (let b = (buckets T ! ?i)\<lparr>bkt_count := bkt_count (buckets T ! ?i) - 1\<rparr> in if hh_head b = Some del then b\<lparr>hh_head := hh_next c\<rparr> else b)]\<rparr> = T1"
    using hd(1) xy c(2) d(1) by (cases xs; cases "buckets T ! ?i") (auto simp: T1_def Let_def)
  have run: "HASH_DEL_IN_BKT M t bkt del = Some M1"
    using T'(1) i c c1 q n al1 bk
    by (auto simp: HASH_DEL_IN_BKT_def hash_access M1_def h1_def h2_def Let_def split: option.splits)
  have v: "view hh_next h2 = opt_upd (view hh_next (elems M)) (final None xs) (first ys None)"
    "view hh_prev h2 = opt_upd (view hh_prev (elems M)) (first ys None) (final None xs)" "rebucketed (elems M) h2"
    using q n al1 by (auto simp: h1_def h2_def view_simps rebucketed_def split: option.splits)
  have "buckets_ok h2 (num_buckets T) (buckets T1) (cs(?i := xs @ ys))"
    using buckets_remove [OF T'(6) i xy v(1,2), of ?b] v(3) hd(2) xy by (simp add: rebucketed_def T1_def)
  moreover have "members (2 ^ lg) (cs(?i := xs @ ys)) = S - {del}" using members_remove [OF ch _ xy] i T'(5,7) by simp
  ultimately have "table_ok M1 t T1 (S - {del})" using T' by (auto simp: table_ok_def M1_def T1_def)
  then show ?thesis using run v(3) by (auto simp: M1_def T1_def other_tables_def)
qed

subsection \<open>Making a table\<close>

lemma hash_bind_simps: "hash_bind (Some (Inl e)) f = Some (Inl e)" "hash_bind (Some (Inr x)) f = f x"
  by (simp_all add: hash_bind_def)

lemma make_table_ok:
  assumes "alive (elems M) p"
  shows "HASH_MAKE_TABLE M p = Some (Inl Out_of_memory) \<and> (limit (tables M) \<le> brk (tables M) \<or> bkt_room M < 32) \<or>
    (\<exists>M' t T. HASH_MAKE_TABLE M p = Some (Inr M') \<and> table_ok M' t T {} \<and> tbl_tail T = Some p \<and> num_items T = 0 \<and>
       (\<forall>i < 32. expand_mult (buckets T ! i) = 0) \<and> num_buckets T = 32 \<and>
       elems M' = upd (elems M) p (\<lambda>c. c\<lparr>hh_tbl := Some t\<rparr>) \<and> bkt_room M' = bkt_room M \<and>
       limit (tables M') = limit (tables M) \<and> brk (tables M') = Suc (brk (tables M)))"
proof (cases "brk (tables M) < limit (tables M) \<and> 32 \<le> bkt_room M")
  case False
  with assms show ?thesis
    by (auto simp: HASH_MAKE_TABLE_def new_def upd_elem_Some HASH_INITIAL_NUM_BUCKETS_def)
next
  case True
  define T where "T = \<lparr>buckets = replicate (unat HASH_INITIAL_NUM_BUCKETS) \<lparr>hh_head = None, bkt_count = 0, expand_mult = 0\<rparr>,
        num_buckets = HASH_INITIAL_NUM_BUCKETS, log2_num_buckets = HASH_INITIAL_NUM_BUCKETS_LOG2, num_items = 0,
        tbl_tail = Some p, ideal_chain_maxlen = 0, nonideal_items = 0, ineff_expands = 0, noexpand = 0,
        signature = HASH_SIGNATURE\<rparr>"
  define M' where "M' = M\<lparr>elems := upd (elems M) p (\<lambda>c. c\<lparr>hh_tbl := Some (brk (tables M))\<rparr>),
      tables := (tables M)\<lparr>cells := (cells (tables M))(brk (tables M) \<mapsto> T), brk := Suc (brk (tables M))\<rparr>\<rparr>"
  have "HASH_MAKE_TABLE M p = Some (Inr M')"
    using True assms by (auto simp: HASH_MAKE_TABLE_def new_def upd_elem_Some HASH_INITIAL_NUM_BUCKETS_def M'_def T_def)
  moreover have "table_ok M' (brk (tables M)) T {}"
    using initial_buckets [of "elems M'" 32 32]
    by (auto simp: table_ok_def M'_def T_def members_def HASH_INITIAL_NUM_BUCKETS_def HASH_INITIAL_NUM_BUCKETS_LOG2_def
        intro!: exI [of _ 5] exI [of _ "\<lambda>_. []"])
  moreover have "\<forall>i < 32. expand_mult (buckets T ! i) = 0" by (simp add: T_def HASH_INITIAL_NUM_BUCKETS_def)
  moreover have "tbl_tail T = Some p" "num_items T = 0" "num_buckets T = 32" "bkt_room M' = bkt_room M"
    "limit (tables M') = limit (tables M)" "brk (tables M') = Suc (brk (tables M))"
    "elems M' = upd (elems M) p (\<lambda>c. c\<lparr>hh_tbl := Some (brk (tables M))\<rparr>)"
    by (simp_all add: T_def M'_def HASH_INITIAL_NUM_BUCKETS_def)
  ultimately show ?thesis by blast
qed

subsection \<open>The representation of a hash\<close>

definition key_of :: "'e elem_heap \<Rightarrow> ptr \<Rightarrow> u8 list" where
  "key_of h p = (case cells h p of None \<Rightarrow> [] | Some c \<Rightarrow> take (unat (hh_keylen c)) (hh_key c))"

text \<open>The handle of an element holds its key and the hash value of the key.\<close>

definition filed :: "(u8 list \<Rightarrow> u32 \<Rightarrow> u32 \<times> u32) \<Rightarrow> 'e elem_heap \<Rightarrow> ptr \<Rightarrow> bool" where
  "filed fcn h p \<longleftrightarrow> (\<exists>c. cells h p = Some c \<and> unat (hh_keylen c) \<le> length (hh_key c) \<and>
     hh_hashv c = fst (fcn (take (unat (hh_keylen c)) (hh_key c)) 0))"

definition hash_rep :: "(u8 list \<Rightarrow> u32 \<Rightarrow> u32 \<times> u32) \<Rightarrow> 'e hash_mem \<Rightarrow> ptr option \<Rightarrow> ptr list \<Rightarrow> bool" where
  "hash_rep fcn M head ps \<longleftrightarrow> distinct ps \<and> head = first ps None \<and> nexts (view nxt (elems M)) ps None \<and>
     prevs (view prv (elems M)) None ps \<and> length ps < 2 ^ 32 \<and> (\<forall>p \<in> set ps. filed fcn (elems M) p) \<and>
     (ps \<noteq> [] \<longrightarrow> (\<exists>t T. table_ok M t T (set ps) \<and> tbl_tail T = Some (last ps) \<and> num_items T = of_nat (length ps) \<and>
        (\<forall>p \<in> set ps. view hh_tbl (elems M) p = Some (Some t))))"

text \<open>The number of buckets of a hash, and memory for tables that has not changed.\<close>

definition hash_size :: "'e hash_mem \<Rightarrow> ptr option \<Rightarrow> nat" where
  "hash_size M head = max 32 (case head of None \<Rightarrow> 0 | Some p \<Rightarrow> (case table_of M p of None \<Rightarrow> 0 | Some (t, T) \<Rightarrow> unat (num_buckets T)))"

definition same_room :: "'e hash_mem \<Rightarrow> 'e hash_mem \<Rightarrow> bool" where
  "same_room M M' \<longleftrightarrow> bkt_room M' = bkt_room M \<and> brk (tables M') = brk (tables M) \<and> limit (tables M') = limit (tables M)"

lemma same_room_refl [simp]: "same_room M M"
  by (simp add: same_room_def)

lemma info_cells:
  assumes "view info h' p = view info h p"
  shows "key_of h' p = key_of h p" "filed fcn h' p = filed fcn h p"
  using assms by (cases "cells h p"; cases "cells h' p"; auto simp: view_def info_def key_of_def filed_def)+

lemma find_SomeD: "find P xs = Some x \<Longrightarrow> x \<in> set xs \<and> P x"
  by (induction xs) (auto split: if_splits)

lemma find_in_bkt_walk:
  assumes "nexts (view hh_next h) c None"
  shows "HASH_FIND_IN_BKT h keyptr keylen (first c None) =
    Some (find (\<lambda>p. \<exists>d. cells h p = Some d \<and> hh_keylen d = keylen \<and> HASH_KEYCMP (hh_key d) keyptr keylen) c)"
  using assms
proof (induction c)
  case Nil
  then show ?case by (simp add: HASH_FIND_IN_BKT.simps)
next
  case (Cons p c)
  then obtain d where "cells h p = Some d" "hh_next d = first c None" by (auto simp: view_def)
  with Cons show ?case by (subst HASH_FIND_IN_BKT.simps) (auto simp: load_def)
qed

lemma key_match:
  assumes "filed fcn h p" and "unat keylen \<le> length keyptr"
  shows "(\<exists>d. cells h p = Some d \<and> hh_keylen d = keylen \<and> HASH_KEYCMP (hh_key d) keyptr keylen) \<longleftrightarrow>
    key_of h p = take (unat keylen) keyptr"
proof -
  obtain c where c: "cells h p = Some c" "unat (hh_keylen c) \<le> length (hh_key c)" using assms(1) by (auto simp: filed_def)
  have "hh_keylen c = keylen" if "take (unat (hh_keylen c)) (hh_key c) = take (unat keylen) keyptr"
  proof -
    from that have "length (take (unat (hh_keylen c)) (hh_key c)) = length (take (unat keylen) keyptr)" by simp
    then show ?thesis using c(2) assms(2) by (simp add: word_unat_eq_iff)
  qed
  then show ?thesis using c(1) by (auto simp: key_of_def HASH_KEYCMP_def)
qed

lemma hash_rep_frame:
  assumes r: "hash_rep fcn M head ps" and same: "\<And>p. p \<in> set ps \<Longrightarrow> cells (elems M') p = cells (elems M) p" "tables M' = tables M"
  shows "hash_rep fcn M' head ps"
proof -
  have v: "view g (elems M') p = view g (elems M) p" if "p \<in> set ps" for g p using same(1) [OF that] by (simp add: view_def)
  have "table_ok M' t T (set ps)" if "table_ok M t T (set ps)" for t T
    using that same(2) by (intro table_ok_frame [OF that]) (auto simp: table_ok_def v)
  then show ?thesis
    using r same(1) v [of _ hh_tbl] v [of _ nxt] v [of _ prv] nexts_cong [of ps "view nxt (elems M')" "view nxt (elems M)"] prevs_cong [of ps "view prv (elems M')" "view prv (elems M)"]
    unfolding hash_rep_def filed_def by fastforce
qed

subsection \<open>Deletion\<close>

text \<open>The insertion order after \<open>del\<close> is unlinked, and the tail of the table.\<close>

lemma hash_unlink:
  assumes r: "hash_rep fcn M head (us @ del # vs)" and ne: "us @ vs \<noteq> []"
  shows "\<exists>c h1 h2 t T T1. cells (elems M) del = Some c \<and> prv c = final None us \<and> nxt c = first vs None \<and>
    head = first (us @ del # vs) None \<and> table_of M (the head) = Some (t, T) \<and> cells (tables M) t = Some T \<and>
    T1 = (if tbl_tail T = Some del then T\<lparr>tbl_tail := prv c\<rparr> else T) \<and>
    h1 = (case prv c of Some q \<Rightarrow> upd (elems M) q (\<lambda>d. d\<lparr>nxt := nxt c\<rparr>) | None \<Rightarrow> elems M) \<and>
    h2 = (case nxt c of Some n \<Rightarrow> upd h1 n (\<lambda>d. d\<lparr>prv := prv c\<rparr>) | None \<Rightarrow> h1) \<and>
    (\<forall>q. prv c = Some q \<longrightarrow> alive (elems M) q) \<and> (\<forall>n. nxt c = Some n \<longrightarrow> alive h1 n) \<and> cells h1 del = Some c \<and>
    nexts (view nxt h2) (us @ vs) None \<and> prevs (view prv h2) None (us @ vs) \<and> view info h2 = view info (elems M) \<and>
    tbl_tail T1 = Some (last (us @ vs)) \<and> num_items T1 = of_nat (length (us @ del # vs)) \<and>
    table_ok (M\<lparr>elems := h2, tables := (tables M)\<lparr>cells := (cells (tables M))(t \<mapsto> T1)\<rparr>\<rparr>) t T1 (set (us @ del # vs)) \<and>
    (\<forall>p \<in> set (us @ del # vs). view hh_tbl h2 p = Some (Some t))"
proof -
  let ?ps = "us @ del # vs"
  obtain t T where t: "table_ok M t T (set ?ps)" "tbl_tail T = Some (last ?ps)" "num_items T = of_nat (length ?ps)"
      "\<forall>p \<in> set ?ps. view hh_tbl (elems M) p = Some (Some t)"
    using r by (auto simp: hash_rep_def)
  have h: "head = first ?ps None" "distinct ?ps" "nexts (view nxt (elems M)) ?ps None" "prevs (view prv (elems M)) None ?ps"
    using r unfolding hash_rep_def by blast+
  have Tc: "cells (tables M) t = Some T" using t(1) by (simp add: table_ok_def)
  have "the head \<in> set ?ps" using h(1) by (cases us) auto
  then have to: "table_of M (the head) = Some (t, T)" using t(4) Tc by (intro table_of_Some) auto
  have al: "alive (elems M) p" if "p \<in> set ?ps" for p using nexts_Some [OF h(3) that] by (auto dest: view_alive)
  obtain c where c: "cells (elems M) del = Some c" "prv c = final None us" "nxt c = first vs None"
    using h(3,4) by (auto simp: view_def)
  define h1 where "h1 = (case prv c of Some q \<Rightarrow> upd (elems M) q (\<lambda>d. d\<lparr>nxt := nxt c\<rparr>) | None \<Rightarrow> elems M)"
  define h2 where "h2 = (case nxt c of Some n \<Rightarrow> upd h1 n (\<lambda>d. d\<lparr>prv := prv c\<rparr>) | None \<Rightarrow> h1)"
  define T1 where "T1 = (if tbl_tail T = Some del then T\<lparr>tbl_tail := prv c\<rparr> else T)"
  have q: "alive (elems M) q \<and> q \<noteq> del" if "prv c = Some q" for q
    using final_in_set [of None us q] that h(2) al c(2) by auto
  have al1: "alive h1 = alive (elems M)" by (auto simp: h1_def upd_extent split: option.splits)
  have n: "alive h1 n" if "nxt c = Some n" for n
    using that al al1 c(3) by (cases vs) auto
  have c1: "cells h1 del = Some c" using c(1) q by (auto simp: h1_def upd_def split: option.splits)
  have v: "view nxt h2 = opt_upd (view nxt (elems M)) (final None us) (first vs None)"
    "view prv h2 = opt_upd (view prv (elems M)) (first vs None) (final None us)" "view info h2 = view info (elems M)"
    "view hh_next h2 = view hh_next (elems M)" "view hh_prev h2 = view hh_prev (elems M)"
    unfolding c(2,3) [symmetric] using q n al1 by (auto simp: h1_def h2_def view_simps split: option.splits)
  have ord: "nexts (view nxt h2) (us @ vs) None" "prevs (view prv h2) None (us @ vs)"
    unfolding v using nexts_unlink [OF h(3,2)] prevs_unlink [OF h(4,2)] by auto
  have "del \<noteq> last ?ps" if "vs \<noteq> []" using that h(2) by (metis distinct_append distinct.simps(2) last_appendR last_ConsR last_in_set list.distinct(1))
  then have tail: "tbl_tail T1 = Some (last (us @ vs))"
    using t(2) ne c(2) final_nonempty [of us None] by (cases "vs = []") (auto simp: T1_def)
  have "table_ok (M\<lparr>elems := h2, tables := (tables M)\<lparr>cells := (cells (tables M))(t \<mapsto> T1)\<rparr>\<rparr>) t T1 (set ?ps)"
    using v(4,5) info_fields(1) [OF v(3)] by (intro table_ok_frame [OF t(1)]) (simp_all add: T1_def)
  moreover have "\<forall>p \<in> set ?ps. view hh_tbl h2 p = Some (Some t)" using t(4) info_fields(2) [OF v(3)] by simp
  moreover have "num_items T1 = of_nat (length ?ps)" using t(3) by (simp add: T1_def)
  ultimately show ?thesis
    using c h(1) to Tc T1_def h1_def h2_def q n c1 ord v(3) tail by blast
qed

lemma delete_ok:
  assumes r: "hash_rep fcn M head (us @ del # vs)"
  shows "\<exists>M' head'. HASH_DELETE M head del = Some (M', head') \<and> hash_rep fcn M' head' (us @ vs) \<and>
    view info (elems M') = view info (elems M) \<and> same_room M M' \<and> hash_size M' head' \<le> hash_size M head"
proof (cases "us @ vs = []")
  case True
  then obtain t T c where "cells (tables M) t = Some T" "cells (elems M) del = Some c" "view hh_tbl (elems M) del = Some (Some t)"
    "head = Some del" "prv c = None" "nxt c = None" using r by (auto simp: hash_rep_def table_ok_def view_def)
  with True show ?thesis
    by (simp add: HASH_DELETE_def load_def dealloc_def table_of_Some hash_rep_def same_room_def hash_size_def)
next
  case False
  let ?ps = "us @ del # vs"
  obtain c h1 h2 t T T1 where c: "cells (elems M) del = Some c" "prv c = final None us" "nxt c = first vs None"
    and h: "head = first ?ps None" "table_of M (the head) = Some (t, T)" "cells (tables M) t = Some T"
    and T1: "T1 = (if tbl_tail T = Some del then T\<lparr>tbl_tail := prv c\<rparr> else T)"
    and h1: "h1 = (case prv c of Some q \<Rightarrow> upd (elems M) q (\<lambda>d. d\<lparr>nxt := nxt c\<rparr>) | None \<Rightarrow> elems M)"
    and h2: "h2 = (case nxt c of Some n \<Rightarrow> upd h1 n (\<lambda>d. d\<lparr>prv := prv c\<rparr>) | None \<Rightarrow> h1)"
    and al: "\<forall>q. prv c = Some q \<longrightarrow> alive (elems M) q" "\<forall>n. nxt c = Some n \<longrightarrow> alive h1 n" "cells h1 del = Some c"
    and ord: "nexts (view nxt h2) (us @ vs) None" "prevs (view prv h2) None (us @ vs)" "view info h2 = view info (elems M)"
    and tl: "tbl_tail T1 = Some (last (us @ vs))" "num_items T1 = of_nat (length ?ps)"
    and ok: "table_ok (M\<lparr>elems := h2, tables := (tables M)\<lparr>cells := (cells (tables M))(t \<mapsto> T1)\<rparr>\<rparr>) t T1 (set ?ps)"
    and tb: "\<forall>p \<in> set ?ps. view hh_tbl h2 p = Some (Some t)"
    using hash_unlink [OF r False] by blast
  define M1 where "M1 = M\<lparr>elems := h2, tables := (tables M)\<lparr>cells := (cells (tables M))(t \<mapsto> T1)\<rparr>\<rparr>"
  let ?head = "first (us @ vs) None" and ?bkt = "HASH_TO_BKT (hh_hashv c) (num_buckets T1)"
  obtain p where p: "?head = Some p" "p \<in> set ?ps" using False by (cases us; cases vs) auto
  have "view hh_tbl h2 p = Some (Some t)" using tb p(2) by blast
  then have to1: "table_of M1 p = Some (t, T1)" by (intro table_of_Some) (simp_all add: M1_def)
  have run: "HASH_DELETE M head del = do {
      M' \<leftarrow> HASH_DEL_IN_BKT M1 t ?bkt del;
      M' \<leftarrow> upd_table M' t (\<lambda>T. T\<lparr>num_items := num_items T - 1\<rparr>);
      Some (M', ?head) }"
  proof -
    have 1: "(if tbl_tail T = Some del then upd_table M t (\<lambda>T. T\<lparr>tbl_tail := prv c\<rparr>) else Some M) =
        Some (M\<lparr>tables := (tables M)\<lparr>cells := (cells (tables M))(t \<mapsto> T1)\<rparr>\<rparr>)" (is "_ = Some ?M0")
      using h(3) T1 by (auto simp: upd_table_Some fun_upd_idem)
    have 2: "(case prv c of Some q \<Rightarrow> do { M \<leftarrow> upd_elem ?M0 q (\<lambda>d. d\<lparr>nxt := nxt c\<rparr>); Some (M, head) } | None \<Rightarrow> Some (?M0, nxt c)) =
        Some (?M0\<lparr>elems := h1\<rparr>, ?head)"
      using h(1) h1 al(1) c(2,3) by (cases us rule: rev_cases) (auto simp: upd_elem_Some split: option.splits)
    have 3: "(case nxt c of Some n \<Rightarrow> upd_elem (?M0\<lparr>elems := h1\<rparr>) n (\<lambda>d. d\<lparr>prv := prv c\<rparr>) | None \<Rightarrow> Some (?M0\<lparr>elems := h1\<rparr>)) = Some M1"
      using h2 al(2) by (auto simp: upd_elem_Some M1_def split: option.splits)
    have 4: "\<not> (prv c = None \<and> nxt c = None)" using False c(2,3) by (cases us rule: rev_cases; cases vs) auto
    have 5: "cells (elems (?M0\<lparr>elems := h1\<rparr>)) del = Some c" using al(3) by simp
    obtain p0 where p0: "head = Some p0" using h(1) by (cases us) auto
    show ?thesis
      by (simp only: HASH_DELETE_def load_def c(1) p0 h(2) [unfolded p0 option.sel] 1 2 [unfolded p0] 3 if_not_P [OF 4] 5 to1 p(1)
          Option.bind.bind_lunit prod.case)
  qed
  have "view hh_hashv h2 del = Some (hh_hashv c)" using info_fields(1) [OF ord(3)] c(1) by (simp add: view_def)
  then have "unat ?bkt = bucket_of (elems M1) (num_buckets T1) del" by (simp add: bucket_of_def M1_def)
  from del_in_bkt_ok [OF ok [folded M1_def] _ this] obtain M2 T2 where 2: "HASH_DEL_IN_BKT M1 t ?bkt del = Some M2"
    "table_ok M2 t T2 (set ?ps - {del})" "rebucketed (elems M1) (elems M2)" "num_items T2 = num_items T1" "tbl_tail T2 = tbl_tail T1"
    "other_tables t M1 M2" "num_buckets T2 = num_buckets T1" by auto
  define M3 where "M3 = M2\<lparr>tables := (tables M2)\<lparr>cells := (cells (tables M2))(t \<mapsto> T2\<lparr>num_items := num_items T2 - 1\<rparr>)\<rparr>\<rparr>"
  have T2: "cells (tables M2) t = Some T2" using 2(2) by (simp add: table_ok_def)
  have d: "distinct ?ps" "length ?ps < 2 ^ 32" "\<forall>p \<in> set ?ps. filed fcn (elems M) p" using r unfolding hash_rep_def by blast+
  then have s: "set ?ps - {del} = set (us @ vs)" by auto
  have ok3: "table_ok M3 t (T2\<lparr>num_items := num_items T2 - 1\<rparr>) (set (us @ vs))"
    by (rule table_ok_frame [OF 2(2) [unfolded s]]) (simp_all add: M3_def)
  have v: "view nxt (elems M3) = view nxt h2" "view prv (elems M3) = view prv h2" "view info (elems M3) = view info h2"
    using 2(3) by (simp_all add: rebucketed_def M3_def M1_def)
  have i: "view info (elems M3) = view info (elems M)" using v(3) ord(3) by (rule trans)
  have "filed fcn (elems M3) p" if "p \<in> set (us @ vs)" for p
    using d(3) that info_cells(2) [OF fun_cong [OF i], of fcn p] by auto
  moreover have tb3: "\<forall>p \<in> set (us @ vs). view hh_tbl (elems M3) p = Some (Some t)" using tb info_fields(2) [OF v(3)] by auto
  moreover have "num_items T2 - 1 = of_nat (length (us @ vs))" using 2(4) tl(2) by simp
  ultimately have "hash_rep fcn M3 ?head (us @ vs)"
    using ok3 False d(1,2) ord(1,2) tl(1) 2(5) unfolding hash_rep_def v by (auto intro!: exI [of _ t] exI [of _ "T2\<lparr>num_items := num_items T2 - 1\<rparr>"])
  moreover have "HASH_DELETE M head del = Some (M3, ?head)" unfolding run using 2(1) T2 by (simp add: upd_table_Some M3_def)
  moreover have "same_room M M3" using 2(6) by (simp add: other_tables_def same_room_def M1_def M3_def)
  moreover have "p \<in> set (us @ vs)" using p(1) by (cases us; cases vs) auto
  then have "table_of M3 p = Some (t, T2\<lparr>num_items := num_items T2 - 1\<rparr>)" using tb3 by (intro table_of_Some) (simp_all add: M3_def)
  then have "hash_size M3 ?head \<le> hash_size M head" using 2(7) h(1,2) T1 p(1) by (cases us) (simp_all add: hash_size_def)
  ultimately show ?thesis using i by blast
qed

subsection \<open>Counting, clearing and checking\<close>

lemma hash_rep_table:
  assumes "hash_rep fcn M head ps" and "ps \<noteq> []"
  shows "\<exists>t T. head = Some (hd ps) \<and> table_of M (hd ps) = Some (t, T) \<and> table_ok M t T (set ps) \<and>
    num_items T = of_nat (length ps) \<and> tbl_tail T = Some (last ps) \<and> (\<forall>p \<in> set ps. view hh_tbl (elems M) p = Some (Some t))"
proof -
  obtain t T where t: "table_ok M t T (set ps)" "num_items T = of_nat (length ps)" "tbl_tail T = Some (last ps)"
    "\<forall>p \<in> set ps. view hh_tbl (elems M) p = Some (Some t)" using assms by (auto simp: hash_rep_def)
  moreover have "head = Some (hd ps)" using assms by (cases ps) (auto simp: hash_rep_def)
  moreover have "table_of M (hd ps) = Some (t, T)"
    using t(1,4) hd_in_set [OF assms(2)] by (intro table_of_Some) (auto simp: table_ok_def)
  ultimately show ?thesis by blast
qed

lemma cnt_ok: "hash_rep fcn M head ps \<Longrightarrow> HASH_CNT M head = Some (of_nat (length ps))"
  using hash_rep_table [of fcn M head ps] by (cases "ps = []") (auto simp: HASH_CNT_def hash_rep_def)

lemma clear_ok:
  assumes "hash_rep fcn M head ps"
  shows "\<exists>M'. HASH_CLEAR M head = Some (M', None) \<and> hash_rep fcn M' None [] \<and> elems M' = elems M \<and> same_room M M'"
proof (cases "ps = []")
  case True
  with assms show ?thesis by (auto simp: HASH_CLEAR_def hash_rep_def)
next
  case False
  then show ?thesis
    using hash_rep_table [OF assms False] by (auto simp: HASH_CLEAR_def hash_rep_def dealloc_def table_ok_def same_room_def)
qed

lemma fsck_bucket_ok:
  "nexts (view hh_next h) c None \<Longrightarrow> prevs (view hh_prev h) b c \<Longrightarrow>
   fsck_bucket h b n (first c None) = Some (Some (n + of_nat (length c)))"
proof (induction c arbitrary: b n)
  case Nil
  then show ?case by (simp add: fsck_bucket.simps)
next
  case (Cons p c)
  then obtain d where "cells h p = Some d" "hh_next d = first c None" "hh_prev d = b" by (auto simp: view_def)
  with Cons show ?case by (subst fsck_bucket.simps) (simp add: load_def add.assoc)
qed

lemma fsck_buckets_ok:
  assumes "\<And>j. j < length bs \<Longrightarrow> hh_head (bs ! j) = first (os ! j) None \<and> bkt_count (bs ! j) = of_nat (length (os ! j)) \<and>
      nexts (view hh_next h) (os ! j) None \<and> prevs (view hh_prev h) None (os ! j)"
    and "length os = length bs"
  shows "fsck_buckets h n bs = Some (Some (n + of_nat (length (concat os))))"
  using assms
proof (induction bs arbitrary: n os)
  case (Cons b bs)
  then obtain c os' where os: "os = c # os'" by (cases os) auto
  have 0: "hh_head b = first c None" "bkt_count b = of_nat (length c)" "nexts (view hh_next h) c None" "prevs (view hh_prev h) None c"
    using Cons.prems(1) [of 0] os by auto
  have "fsck_buckets h (n + of_nat (length c)) bs = Some (Some (n + of_nat (length c) + of_nat (length (concat os'))))"
  proof (rule Cons.IH)
    fix j assume "j < length bs"
    with Cons.prems(1) [of "Suc j"] os show "hh_head (bs ! j) = first (os' ! j) None \<and> bkt_count (bs ! j) = of_nat (length (os' ! j)) \<and>
      nexts (view hh_next h) (os' ! j) None \<and> prevs (view hh_prev h) None (os' ! j)" by simp
  qed (use Cons.prems(2) os in simp)
  with 0 fsck_bucket_ok [OF 0(3,4), of 0] os show ?case by (simp add: add.assoc)
qed simp

lemma fsck_order_ok:
  "nexts (view nxt h) ps None \<Longrightarrow> prevs (view prv h) b ps \<Longrightarrow>
   fsck_order h b n (first ps None) = Some (Some (n + of_nat (length ps)))"
proof (induction ps arbitrary: b n)
  case Nil
  then show ?case by (simp add: fsck_order.simps)
next
  case (Cons p c)
  then obtain d where "cells h p = Some d" "nxt d = first c None" "prv d = b" by (auto simp: view_def)
  with Cons show ?case by (subst fsck_order.simps) (simp add: load_def add.assoc)
qed

text \<open>The chains of a table, bucket by bucket.\<close>

lemma table_chains:
  assumes "table_ok M t T S"
  shows "\<exists>os. unat (num_buckets T) = length (buckets T) \<and> map hh_head (buckets T) = map (\<lambda>c. first c None) os \<and>
    distinct (concat os) \<and> set (concat os) = S \<and> (\<forall>c \<in> set os. nexts (view hh_next (elems M)) c None) \<and>
    fsck_buckets (elems M) 0 (buckets T) = Some (Some (of_nat (length (concat os))))"
proof -
  obtain lg cs where T: "lg \<le> 30" "num_buckets T = 2 ^ lg" "length (buckets T) = 2 ^ lg"
    "buckets_ok (elems M) (num_buckets T) (buckets T) cs" "members (2 ^ lg) cs = S"
    using assms by (auto simp: table_ok_def)
  let ?os = "map cs [0..<2 ^ lg]"
  have "unat (num_buckets T) = length (buckets T)" using unat_exp [of lg] T(1-3) by simp
  moreover have ch: "chain_ok (elems M) (num_buckets T) i (cs i)" if "i < 2 ^ lg" for i using T(3,4) that by (simp add: buckets_ok_def)
  moreover have "fsck_buckets (elems M) 0 (buckets T) = Some (Some (0 + of_nat (length (concat ?os))))"
    using T(3,4) by (intro fsck_buckets_ok) (auto simp: buckets_ok_def chain_ok_def)
  moreover have "set (concat ?os) = S" unfolding T(5) [symmetric] by (auto simp: members_def)
  moreover have "distinct (concat ?os)" by (rule distinct_chains [OF ch])
  moreover have "map hh_head (buckets T) = map (\<lambda>c. first c None) ?os" using T(3,4) by (intro nth_equalityI) (auto simp: buckets_ok_def)
  moreover have "\<forall>c \<in> set ?os. nexts (view hh_next (elems M)) c None" using ch by (auto simp: chain_ok_def)
  ultimately show ?thesis by (metis add_0)
qed

lemma fsck_ok:
  assumes r: "hash_rep fcn M head ps"
  shows "HASH_FSCK M head = Some True"
proof (cases "ps = []")
  case True
  with r show ?thesis by (simp add: HASH_FSCK_def hash_rep_def)
next
  case False
  obtain t T where t: "head = Some (hd ps)" "table_of M (hd ps) = Some (t, T)" "table_ok M t T (set ps)" "num_items T = of_nat (length ps)"
    using hash_rep_table [OF r False] by blast
  from table_chains [OF t(3)] obtain os where os: "unat (num_buckets T) = length (buckets T)" "distinct (concat os)" "set (concat os) = set ps"
    "fsck_buckets (elems M) 0 (buckets T) = Some (Some (of_nat (length (concat os))))" by blast
  moreover have "distinct ps" using r by (simp add: hash_rep_def)
  with os(2,3) have "length (concat os) = length ps" by (metis distinct_card)
  moreover have "fsck_order (elems M) None 0 head = Some (Some (of_nat (length ps)))"
    using r fsck_order_ok [of "elems M" ps None 0] by (simp add: hash_rep_def)
  ultimately show ?thesis using t by (simp add: HASH_FSCK_def)
qed

subsection \<open>Sorting\<close>

definition order_list :: "'e mem \<Rightarrow> ptr option \<Rightarrow> ptr list \<Rightarrow> bool" where
  "order_list h head ps \<longleftrightarrow> head = first ps None \<and> distinct ps \<and> nexts (get_next h) ps None \<and> prevs (get_prev h) None ps"

lemma hash_close:
  assumes "emitted hash_variant h ps" "distinct ps" "ps \<noteq> []" "\<forall>p \<in> set ps. alive h p"
  shows "\<exists>h'. close_list hash_variant h (first ps None) (final None ps) = Some h' \<and> order_list h' (first ps None) ps \<and> same_payload h h'"
proof (cases ps rule: rev_cases)
  case (snoc us p)
  with assms show ?thesis
    by (cases us) (auto simp: emitted_def butlast_append order_list_def link_simps hash_variant_def)
qed (use assms in simp)

interpretation hash_sort: list_sort order_list hash_variant
proof unfold_locales
  show "order_list h head ps \<Longrightarrow> head = first ps None \<and> distinct ps \<and> nexts (get_next h) ps (if circular hash_variant then head else None)"
    for h :: "'e mem" and head ps by (simp add: order_list_def hash_variant_def)
  show "counts hash_variant INT_MAX" by (simp add: counts_def hash_variant_def INT_MAX_def)
qed (fact hash_close)

lemma view_payload:
  assumes "same_payload h h'" and g: "\<And>c c'. link.more c = link.more c' \<Longrightarrow> g c = g c'"
  shows "view g h' = view g h"
proof
  fix p
  have "payload h' p = payload h p" using assms(1) by (simp add: same_payload_def)
  then have "map_option link.more (cells h' p) = map_option link.more (cells h p)" by (simp add: payload_def load_def)
  then show "view g h' p = view g h p"
    using g [of "the (cells h' p)" "the (cells h p)"] by (cases "cells h p"; cases "cells h' p") (simp_all add: view_def)
qed

lemma payload_fields:
  fixes h h' :: "'e elem_heap"
  assumes "same_payload h h'"
  shows "view hh_next h' = view hh_next h" "view hh_prev h' = view hh_prev h" "view info h' = view info h"
proof -
  have "hh_next c = hh_next c'" "hh_prev c = hh_prev c'" "info c = info c'" if "link.more c = link.more c'" for c c' :: "'e UT_hash_handle_scheme"
    using that by (cases c; cases c'; simp add: info_def)+
  then show "view hh_next h' = view hh_next h" "view hh_prev h' = view hh_prev h" "view info h' = view info h"
    by (intro view_payload [OF assms]; blast)+
qed

lemma srt_ok:
  assumes r: "hash_rep fcn M head ps" and C: "ranks cmp C" and n: "length ps \<le> 2 ^ 30"
  shows "\<exists>M' head'. HASH_SRT M head cmp = Some (M', head') \<and> hash_rep fcn M' head' (sort (by_payload (elems M) C) ps) \<and>
    same_payload (elems M) (elems M') \<and> same_room M M'"
proof (cases "ps = []")
  case True
  with r show ?thesis by (simp add: HASH_SRT_def hash_rep_def)
next
  case False
  let ?qs = "sort (by_payload (elems M) C) ps"
  obtain t T where t: "head = Some (hd ps)" "table_of M (hd ps) = Some (t, T)" "table_ok M t T (set ps)" "num_items T = of_nat (length ps)"
    "\<forall>p \<in> set ps. view hh_tbl (elems M) p = Some (Some t)"
    using hash_rep_table [OF r False] by blast
  have Tc: "cells (tables M) t = Some T" using t(3) by (simp add: table_ok_def)
  have "order_list (elems M) head ps" using r by (simp add: hash_rep_def order_list_def view_simps)
  from hash_sort.loop [OF this False C n sorted_runs_1] obtain h' head' where
    s: "sort_loop hash_variant cmp 1 (elems M) head = Some (h', head', final None ?qs)" "order_list h' head' ?qs" "same_payload (elems M) h'"
    by auto
  define T1 where "T1 = T\<lparr>tbl_tail := final None ?qs\<rparr>"
  define M' where "M' = M\<lparr>elems := h', tables := (tables M)\<lparr>cells := (cells (tables M))(t \<mapsto> T1)\<rparr>\<rparr>"
  have run: "HASH_SRT M head cmp = Some (M', head')"
    using s(1) t(1,2) Tc by (simp add: HASH_SRT_def upd_table_Some M'_def T1_def)
  have v: "view hh_next h' = view hh_next (elems M)" "view hh_prev h' = view hh_prev (elems M)" "view info h' = view info (elems M)"
    by (rule payload_fields [OF s(3)])+
  have q: "set ?qs = set ps" "length ?qs = length ps" "?qs \<noteq> []" using False by (simp_all flip: length_greater_0_conv)
  have "table_ok M' t T1 (set ?qs)"
    unfolding q(1) using v(1,2) info_fields(1) [OF v(3)] by (intro table_ok_frame [OF t(3)]) (simp_all add: M'_def T1_def)
  moreover have "filed fcn h' p" if "p \<in> set ps" for p
    using r that info_cells(2) [OF fun_cong [OF v(3)], of fcn p] by (simp add: hash_rep_def)
  moreover have "tbl_tail T1 = Some (last ?qs)" using final_nonempty [OF q(3)] by (simp add: T1_def)
  moreover have "\<forall>p \<in> set ps. view hh_tbl h' p = Some (Some t)" using t(5) info_fields(2) [OF v(3)] by simp
  moreover have "length ps < 2 ^ 32" using r by (simp add: hash_rep_def)
  moreover have "elems M' = h'" "num_items T1 = num_items T" by (simp_all add: M'_def T1_def)
  ultimately have "hash_rep fcn M' head' ?qs"
    using s(2) t(4) q unfolding hash_rep_def order_list_def view_simps by metis
  then show ?thesis using run s(3) by (simp add: M'_def same_room_def)
qed

subsection \<open>Iteration\<close>

text \<open>A loop over the hash that deletes the elements of a test, as \<^verbatim>\<open>HASH_ITER\<close> is there for.\<close>

definition prune_body :: "(ptr \<Rightarrow> bool) \<Rightarrow> ptr \<Rightarrow> 'e hash_mem \<times> ptr option \<Rightarrow> ('e hash_mem \<times> ptr option) option" where
  "prune_body test p = (\<lambda>(M, head). if test p then HASH_DELETE M head p else Some (M, head))"

lemma prune_walk:
  assumes "hash_rep fcn M head (ds @ ps)"
  shows "\<exists>M' head'. hash_iter (prune_body test) (first ps None) (first (tl ps) None) (M, head) = Some (M', head') \<and>
    hash_rep fcn M' head' (ds @ filter (\<lambda>p. \<not> test p) ps) \<and> view info (elems M') = view info (elems M) \<and> same_room M M' \<and>
    hash_size M' head' \<le> hash_size M head"
  using assms
proof (induction ps arbitrary: M head ds)
  case Nil
  then show ?case by (simp add: hash_iter.simps)
next
  case (Cons p ps)
  obtain M1 head1 es where 1: "prune_body test p (M, head) = Some (M1, head1)" "hash_rep fcn M1 head1 (es @ ps)"
      "es = (if test p then ds else ds @ [p])" "view info (elems M1) = view info (elems M)" "same_room M M1" "hash_size M1 head1 \<le> hash_size M head"
    using delete_ok [OF Cons.prems] Cons.prems by (cases "test p") (fastforce simp: prune_body_def)+
  have "(case first ps None of Some q \<Rightarrow> get_next (elems (fst (M1, head1))) q | None \<Rightarrow> Some None) = Some (first (tl ps) None)"
    using 1(2) by (cases ps) (auto simp: hash_rep_def view_simps)
  with 1(1) have "hash_iter (prune_body test) (first (p # ps) None) (first (tl (p # ps)) None) (M, head) =
      hash_iter (prune_body test) (first ps None) (first (tl ps) None) (M1, head1)"
    by (subst hash_iter.simps) (simp add: case_prod_unfold)
  with Cons.IH [OF 1(2)] 1(3-6) show ?case by (auto simp: same_room_def)
qed

lemma prune_ok:
  assumes "hash_rep fcn M head ps"
  shows "\<exists>M' head'. HASH_ITER (prune_body test) head (M, head) = Some (M', head') \<and>
    hash_rep fcn M' head' (filter (\<lambda>p. \<not> test p) ps) \<and> view info (elems M') = view info (elems M) \<and> same_room M M' \<and>
    hash_size M' head' \<le> hash_size M head"
proof -
  have h: "head = first ps None" "(case head of Some p \<Rightarrow> get_next (elems (fst (M, head))) p | None \<Rightarrow> Some None) = Some (first (tl ps) None)"
    using assms by (cases ps; auto simp: hash_rep_def view_simps)+
  then have "HASH_ITER (prune_body test) head (M, head) = hash_iter (prune_body test) head (first (tl ps) None) (M, head)"
    unfolding HASH_ITER_def h(2) by simp
  with prune_walk [of fcn M head "[]" ps test] assms h(1) show ?thesis by simp
qed

subsection \<open>Operations and their specification\<close>

text \<open>A hash is a dictionary: the elements with their keys, in the order of insertion.\<close>

type_synonym dict = "(ptr \<times> u8 list) list"

datatype hash_op = Op_add "u8 list" u32 ptr | Op_find "u8 list" u32 | Op_replace "u8 list" u32 ptr | Op_delete ptr
  | Op_count | Op_prune "ptr \<Rightarrow> bool" | Op_clear

datatype hash_out = No_output | Found "ptr option" | Counted u32

fun hash_step :: "(u8 list \<Rightarrow> u32 \<Rightarrow> u32 \<times> u32) \<Rightarrow> 'e hash_mem \<times> ptr option \<Rightarrow> hash_op \<Rightarrow>
    (hash_exit + ('e hash_mem \<times> ptr option) \<times> hash_out) option" where
  "hash_step fcn (M, head) (Op_add keyptr keylen add) =
     hash_bind (HASH_ADD_KEYPTR fcn M head keyptr keylen add) (\<lambda>(M, p). Some (Inr ((M, Some p), No_output)))"
| "hash_step fcn (M, head) (Op_find keyptr keylen) = do {
     out \<leftarrow> HASH_FIND fcn M head keyptr keylen;
     Some (Inr ((M, head), Found out))
   }"
| "hash_step fcn (M, head) (Op_replace keyptr keylen add) =
     hash_bind (HASH_REPLACE fcn M head keyptr keylen add) (\<lambda>((M, p), replaced). Some (Inr ((M, Some p), Found replaced)))"
| "hash_step fcn (M, head) (Op_delete del) = do {
     s \<leftarrow> HASH_DELETE M head del;
     Some (Inr (s, No_output))
   }"
| "hash_step fcn (M, head) Op_count = do {
     n \<leftarrow> HASH_CNT M head;
     Some (Inr ((M, head), Counted n))
   }"
| "hash_step fcn (M, head) (Op_prune test) = do {
     s \<leftarrow> HASH_ITER (prune_body test) head (M, head);
     Some (Inr (s, No_output))
   }"
| "hash_step fcn (M, head) Op_clear = do {
     s \<leftarrow> HASH_CLEAR M head;
     Some (Inr (s, No_output))
   }"

fun hash_run :: "(u8 list \<Rightarrow> u32 \<Rightarrow> u32 \<times> u32) \<Rightarrow> 'e hash_mem \<times> ptr option \<Rightarrow> hash_op list \<Rightarrow>
    (hash_exit + ('e hash_mem \<times> ptr option) \<times> hash_out list) option" where
  "hash_run fcn s [] = Some (Inr (s, []))"
| "hash_run fcn s (op # ops) =
     hash_bind (hash_step fcn s op) (\<lambda>(s, out). hash_bind (hash_run fcn s ops) (\<lambda>(s, outs). Some (Inr (s, out # outs))))"

definition dict_lookup :: "dict \<Rightarrow> u8 list \<Rightarrow> ptr option" where
  "dict_lookup d k = map_option fst (find (\<lambda>e. snd e = k) d)"

fun dict_step :: "dict \<Rightarrow> hash_op \<Rightarrow> dict \<times> hash_out" where
  "dict_step d (Op_add keyptr keylen add) = (d @ [(add, take (unat keylen) keyptr)], No_output)"
| "dict_step d (Op_find keyptr keylen) = (d, Found (dict_lookup d (take (unat keylen) keyptr)))"
| "dict_step d (Op_replace keyptr keylen add) =
     (filter (\<lambda>e. snd e \<noteq> take (unat keylen) keyptr) d @ [(add, take (unat keylen) keyptr)], Found (dict_lookup d (take (unat keylen) keyptr)))"
| "dict_step d (Op_delete del) = (filter (\<lambda>e. fst e \<noteq> del) d, No_output)"
| "dict_step d Op_count = (d, Counted (of_nat (length d)))"
| "dict_step d (Op_prune test) = (filter (\<lambda>e. \<not> test (fst e)) d, No_output)"
| "dict_step d Op_clear = ([], No_output)"

fun dict_run :: "dict \<Rightarrow> hash_op list \<Rightarrow> dict \<times> hash_out list" where
  "dict_run d [] = (d, [])"
| "dict_run d (op # ops) = (let (d, out) = dict_step d op; (d, outs) = dict_run d ops in (d, out # outs))"

text \<open>What the caller owes: elements that exist and are not in the hash yet, keys that are as long as stated
  and, for \<^verbatim>\<open>HASH_ADD\<close>, not in the hash yet.\<close>

fun op_ok :: "(ptr \<Rightarrow> bool) \<Rightarrow> dict \<Rightarrow> hash_op \<Rightarrow> bool" where
  "op_ok al d (Op_add keyptr keylen add) \<longleftrightarrow> al add \<and> add \<notin> fst ` set d \<and> take (unat keylen) keyptr \<notin> snd ` set d \<and>
     unat keylen \<le> length keyptr \<and> Suc (length d) < 2 ^ 32"
| "op_ok al d (Op_find keyptr keylen) \<longleftrightarrow> unat keylen \<le> length keyptr"
| "op_ok al d (Op_replace keyptr keylen add) \<longleftrightarrow> al add \<and> add \<notin> fst ` set d \<and> unat keylen \<le> length keyptr \<and> Suc (length d) < 2 ^ 32"
| "op_ok al d (Op_delete del) \<longleftrightarrow> del \<in> fst ` set d"
| "op_ok al d op \<longleftrightarrow> True"

fun ops_ok :: "(ptr \<Rightarrow> bool) \<Rightarrow> dict \<Rightarrow> hash_op list \<Rightarrow> bool" where
  "ops_ok al d [] \<longleftrightarrow> True"
| "ops_ok al d (op # ops) \<longleftrightarrow> op_ok al d op \<and> ops_ok al (fst (dict_step d op)) ops"

definition dict_rep :: "(u8 list \<Rightarrow> u32 \<Rightarrow> u32 \<times> u32) \<Rightarrow> 'e hash_mem \<Rightarrow> ptr option \<Rightarrow> dict \<Rightarrow> bool" where
  "dict_rep fcn M head d \<longleftrightarrow> hash_rep fcn M head (map fst d) \<and> distinct (map snd d) \<and> (\<forall>e \<in> set d. key_of (elems M) (fst e) = snd e)"

text \<open>The operations that may allocate.\<close>

fun allocates :: "hash_op \<Rightarrow> nat" where
  "allocates (Op_add _ _ _) = 1"
| "allocates (Op_replace _ _ _) = 1"
| "allocates op = 0"

text \<open>Memory after \<open>n\<close> operations that may allocate.\<close>

definition grown :: "nat \<Rightarrow> 'e hash_mem \<times> ptr option \<Rightarrow> 'e hash_mem \<times> ptr option \<Rightarrow> bool" where
  "grown n = (\<lambda>(M, head) (M', head'). alive (elems M') = alive (elems M) \<and> bkt_room M' = bkt_room M \<and>
     limit (tables M') = limit (tables M) \<and> brk (tables M') \<le> brk (tables M) + n \<and> hash_size M' head' \<le> hash_size M head * 2 ^ n)"

lemma grown_0:
  assumes "view info (elems M') = view info (elems M)" and "same_room M M'" and "hash_size M' head' \<le> hash_size M head"
  shows "grown 0 (M, head) (M', head')"
  using assms(2,3) info_fields(5) [OF assms(1)] by (simp add: grown_def same_room_def)

lemma grown_trans:
  assumes "grown m (M, head) (M', head')" and "grown n (M', head') (M'', head'')"
  shows "grown (m + n) (M, head) (M'', head'')"
proof -
  have "hash_size M'' head'' \<le> hash_size M' head' * 2 ^ n" using assms(2) by (simp add: grown_def)
  also have "\<dots> \<le> hash_size M head * 2 ^ m * 2 ^ n" using assms(1) by (intro mult_le_mono1) (simp add: grown_def)
  finally show ?thesis using assms by (simp add: grown_def power_add mult.assoc)
qed

lemma dict_rep_filter:
  assumes "dict_rep fcn M head d" and "hash_rep fcn M' head' (map fst (filter P d))" and "view info (elems M') = view info (elems M)"
  shows "dict_rep fcn M' head' (filter P d)"
  using assms info_cells(1) [OF fun_cong [OF assms(3)]] by (auto simp: dict_rep_def distinct_map_filter)

lemma dict_keys_unique: "distinct (map snd d) \<Longrightarrow> (p, k) \<in> set d \<Longrightarrow> (q, k) \<in> set d \<Longrightarrow> p = q"
  using inj_on_eq_iff [of snd "set d" "(p, k)" "(q, k)"] by (simp add: distinct_map)

lemma dict_lookup_iff:
  assumes "distinct (map snd d)"
  shows "dict_lookup d k = Some p \<longleftrightarrow> (p, k) \<in> set d"
proof (cases "find (\<lambda>e. snd e = k) d")
  case None
  then have "(p, k) \<notin> set d" by (auto simp: find_None_iff)
  with None show ?thesis by (simp add: dict_lookup_def)
next
  case (Some e)
  with find_SomeD [OF Some] dict_keys_unique [OF assms, of "fst e" k p] show ?thesis
    by (cases e) (auto simp: dict_lookup_def)
qed

lemma dict_lookup_None: "dict_lookup d k = None \<longleftrightarrow> k \<notin> snd ` set d"
  by (force simp: dict_lookup_def find_None_iff)

lemma delete_dict:
  assumes r: "dict_rep fcn M head d" and del: "del \<in> fst ` set d"
  shows "\<exists>M' head'. HASH_DELETE M head del = Some (M', head') \<and> dict_rep fcn M' head' (filter (\<lambda>e. fst e \<noteq> del) d) \<and>
    grown 0 (M, head) (M', head')"
proof -
  have h: "hash_rep fcn M head (map fst d)" using r by (simp add: dict_rep_def)
  obtain us vs where uv: "map fst d = us @ del # vs" using del split_list [of del "map fst d"] by auto
  have "distinct (us @ del # vs)" using h uv by (simp add: hash_rep_def)
  then have "filter (\<lambda>p. p \<noteq> del) us = us" "filter (\<lambda>p. p \<noteq> del) vs = vs" by (auto simp: filter_id_conv)
  then have "filter (\<lambda>p. p \<noteq> del) (us @ del # vs) = us @ vs" by simp
  then have "map fst (filter (\<lambda>e. fst e \<noteq> del) d) = us @ vs" using filter_map [of "\<lambda>p. p \<noteq> del" fst d] uv by (simp add: o_def)
  with delete_ok [OF h [unfolded uv]] dict_rep_filter [OF r] grown_0 show ?thesis by metis
qed

text \<open>The hash functions: a value that does not depend on the number of buckets, and its low bits.\<close>

locale hash_function =
  fixes fcn :: "u8 list \<Rightarrow> u32 \<Rightarrow> u32 \<times> u32"
  assumes value_and_bucket: "fcn bytes n = (fst (fcn bytes 0), HASH_TO_BKT (fst (fcn bytes 0)) n)"
begin

lemma filed_bucket:
  assumes "filed fcn h p"
  shows "bucket_of h n p = unat (snd (fcn (key_of h p) n))"
  using assms value_and_bucket [of "key_of h p" n] by (auto simp: filed_def bucket_of_def key_of_def view_def)

lemma find_ok:
  assumes r: "hash_rep fcn M head ps" and k: "unat keylen \<le> length keyptr"
  shows "\<exists>r. HASH_FIND fcn M head keyptr keylen = Some r \<and>
    (case r of None \<Rightarrow> \<forall>p \<in> set ps. key_of (elems M) p \<noteq> take (unat keylen) keyptr
     | Some p \<Rightarrow> p \<in> set ps \<and> key_of (elems M) p = take (unat keylen) keyptr)"
proof (cases "ps = []")
  case True
  with r show ?thesis by (simp add: hash_rep_def HASH_FIND_def)
next
  case False
  let ?K = "take (unat keylen) keyptr"
  obtain t T where t: "table_ok M t T (set ps)" "\<forall>p \<in> set ps. view hh_tbl (elems M) p = Some (Some t)"
    and f: "\<forall>p \<in> set ps. filed fcn (elems M) p" and h: "head = Some (hd ps)"
    using r False by (cases ps) (auto simp: hash_rep_def)
  obtain lg cs where T: "cells (tables M) t = Some T" "lg \<le> 30" "num_buckets T = 2 ^ lg"
    "length (buckets T) = 2 ^ lg" "buckets_ok (elems M) (num_buckets T) (buckets T) cs" "members (2 ^ lg) cs = set ps"
    using t(1) by (auto simp: table_ok_def)
  define bkt where "bkt = snd (fcn ?K (num_buckets T))"
  have "bkt = HASH_TO_BKT (fst (fcn ?K 0)) (num_buckets T)" unfolding bkt_def by (subst value_and_bucket) simp
  then have i: "unat bkt < 2 ^ lg" using bucket_less [of lg] T(2,3) by simp
  then have ch: "chain_ok (elems M) (num_buckets T) (unat bkt) (cs (unat bkt))" "hh_head (buckets T ! unat bkt) = first (cs (unat bkt)) None"
    using T(4,5) by (auto simp: buckets_ok_def)
  let ?m = "\<lambda>p. \<exists>d. cells (elems M) p = Some d \<and> hh_keylen d = keylen \<and> HASH_KEYCMP (hh_key d) keyptr keylen"
  have sub: "set (cs (unat bkt)) \<subseteq> set ps" using T(6) i by (auto simp: members_def)
  have m: "?m p \<longleftrightarrow> key_of (elems M) p = ?K" if "p \<in> set ps" for p using key_match f that k by blast
  have "HASH_FIND fcn M head keyptr keylen = Some (find ?m (cs (unat bkt)))" (is "?F = _")
    using h False t(2) T(1,4) i ch table_of_Some [of M "hd ps" t T] find_in_bkt_walk [of "elems M" "cs (unat bkt)" keyptr keylen]
    by (auto simp: HASH_FIND_def bucket_at_Some bkt_def chain_ok_def split: prod.splits)
  moreover have mem: "p \<in> set (cs (unat bkt))" if "p \<in> set ps" "key_of (elems M) p = ?K" for p
  proof -
    have "p \<in> members (2 ^ lg) cs" using that(1) T(6) by simp
    then obtain j where j: "j < 2 ^ lg" "p \<in> set (cs j)" by (auto simp: members_def)
    then have "bucket_of (elems M) (num_buckets T) p = j" using T(4,5) by (auto simp: buckets_ok_def chain_ok_def)
    then have "j = unat bkt" using filed_bucket [of "elems M" p "num_buckets T"] that f by (auto simp: bkt_def)
    with j show ?thesis by simp
  qed
  moreover have "find ?m (cs (unat bkt)) = find (\<lambda>p. key_of (elems M) p = ?K) (cs (unat bkt))"
    using m sub by (intro find_cong) auto
  ultimately have "?F = Some (find (\<lambda>p. key_of (elems M) p = ?K) (cs (unat bkt)))" by (simp only:)
  moreover have "case find (\<lambda>p. key_of (elems M) p = ?K) (cs (unat bkt)) of
      None \<Rightarrow> \<forall>p \<in> set ps. key_of (elems M) p \<noteq> ?K | Some p \<Rightarrow> p \<in> set ps \<and> key_of (elems M) p = ?K"
  proof (cases "find (\<lambda>p. key_of (elems M) p = ?K) (cs (unat bkt))")
    case None
    then have "\<forall>p \<in> set (cs (unat bkt)). key_of (elems M) p \<noteq> ?K" by (simp add: find_None_iff)
    then show ?thesis unfolding None using mem by auto
  next
    case (Some p)
    then show ?thesis using find_SomeD [OF Some] sub by auto
  qed
  ultimately show ?thesis by blast
qed

lemma hash_file_core:
  assumes T: "table_ok M t T (set ps)" "tbl_tail T = Some add" "num_items T = of_nat (length ps)"
    and tbl: "view hh_tbl (elems M) hd0 = Some (Some t)" "\<forall>p \<in> set ps. view hh_tbl (elems M) p = Some (Some t)"
    and ps: "\<forall>p \<in> set ps. filed fcn (elems M) p" "distinct ps" "Suc (length ps) < 2 ^ 32" "first ps (Some add) = Some hd0"
    and add: "add \<notin> set ps" "cells (elems M) add = Some c" "hh_key c = keyptr" "hh_keylen c = keylen" "unat keylen \<le> length keyptr"
    and room: "bkt_room M \<le> 2 ^ 30"
  shows "hash_file fcn keyptr keylen add (M, hd0) = Some (Inl Out_of_memory) \<and> bkt_room M < 2 * unat (num_buckets T) \<or>
    (\<exists>M' T'. hash_file fcn keyptr keylen add (M, hd0) = Some (Inr (M', hd0)) \<and> table_ok M' t T' (set (ps @ [add])) \<and>
       num_items T' = of_nat (length (ps @ [add])) \<and> tbl_tail T' = Some add \<and> (\<forall>p \<in> set (ps @ [add]). view hh_tbl (elems M') p = Some (Some t)) \<and>
       (\<forall>p \<in> set (ps @ [add]). filed fcn (elems M') p) \<and> view nxt (elems M') = view nxt (elems M) \<and> view prv (elems M') = view prv (elems M) \<and>
       (\<forall>p. p \<noteq> add \<longrightarrow> view info (elems M') p = view info (elems M) p) \<and> key_of (elems M') add = take (unat keylen) keyptr \<and>
       hash_size M' (Some hd0) \<le> max 32 (2 * unat (num_buckets T)) \<and> same_room M M')"
proof -
  let ?K = "take (unat keylen) keyptr"
  obtain v bkt where vb: "fcn ?K (num_buckets T) = (v, bkt)" by (cases "fcn ?K (num_buckets T)")
  then have v: "v = fst (fcn ?K 0)" "bkt = HASH_TO_BKT v (num_buckets T)" using value_and_bucket [of ?K "num_buckets T"] by auto
  define T2 where "T2 = T\<lparr>num_items := num_items T + 1\<rparr>"
  define M2 where "M2 = M\<lparr>tables := (tables M)\<lparr>cells := (cells (tables M))(t \<mapsto> T2)\<rparr>,
      elems := upd (upd (elems M) add (\<lambda>c. c\<lparr>hh_tbl := Some t\<rparr>)) add (\<lambda>c. c\<lparr>hh_hashv := v\<rparr>)\<rparr>"
  have al: "alive (elems M) add" using add(2) by (simp add: alive_def)
  have Tc: "cells (tables M) t = Some T" using T(1) by (simp add: table_ok_def)
  have other: "cells (elems M2) p = cells (elems M) p" if "p \<noteq> add" for p using that by (simp add: M2_def upd_def)
  have new: "cells (elems M2) add = Some (c\<lparr>hh_tbl := Some t, hh_hashv := v\<rparr>)" using add(2) by (simp add: M2_def upd_def)
  have run: "hash_file fcn keyptr keylen add (M, hd0) = hash_bind (HASH_ADD_TO_BKT M2 t bkt add) (\<lambda>M. Some (Inr (M, hd0)))"
    using table_of_Some [OF tbl(1) Tc] Tc al vb
    by (simp add: hash_file_def upd_table_Some upd_elem_Some upd_extent M2_def T2_def)
  have ok2: "table_ok M2 t T2 (set ps)"
  proof (rule table_ok_frame [OF T(1)])
    fix q assume "q \<in> set ps"
    then have "cells (elems M2) q = cells (elems M) q" using other add(1) by metis
    then show "view hh_next (elems M2) q = view hh_next (elems M) q" "view hh_prev (elems M2) q = view hh_prev (elems M) q"
      "view hh_hashv (elems M2) q = view hh_hashv (elems M) q" by (simp_all add: view_def)
  qed (simp_all add: M2_def T2_def)
  have "bucket_of (elems M2) (num_buckets T2) add = unat bkt" using new v by (simp add: bucket_of_def view_def T2_def)
  moreover have "num_items T2 = of_nat (Suc (length ps))" using T(3) by (simp add: T2_def)
  moreover from this have "num_items T2 \<noteq> 0" using unat_u32_of_nat [OF ps(3)] by (metis nat.distinct(1) unat_0)
  ultimately consider "HASH_ADD_TO_BKT M2 t bkt add = Some (Inl Out_of_memory)" "bkt_room M < 2 * unat (num_buckets T)"
    | M' T' where "HASH_ADD_TO_BKT M2 t bkt add = Some (Inr M')" "table_ok M' t T' (insert add (set ps))" "rebucketed (elems M2) (elems M')"
       "num_items T' = of_nat (Suc (length ps))" "tbl_tail T' = Some add" "other_tables t M2 M'" "unat (num_buckets T') \<le> 2 * unat (num_buckets T)"
    using add_to_bkt_ok [OF ok2 add(1), of bkt] new room T(2) by (auto simp: alive_def view_def M2_def T2_def)
  then show ?thesis
  proof cases
    case 1
    then show ?thesis unfolding run by (simp add: hash_bind_def)
  next
    case (2 M' T')
    have i: "view info (elems M') = view info (elems M2)" "view nxt (elems M') = view nxt (elems M2)" "view prv (elems M') = view prv (elems M2)"
      using 2(3) by (auto simp: rebucketed_def)
    have ord: "view nxt (elems M') = view nxt (elems M)" "view prv (elems M') = view prv (elems M)"
      unfolding i by (auto simp: M2_def view_upd_other)
    have "filed fcn (elems M2) add" using new add(3-5) v(1) by (simp add: filed_def)
    moreover have "filed fcn (elems M2) p" if "p \<in> set ps" for p
    proof -
      have "p \<noteq> add" using that add(1) by blast
      from other [OF this] show ?thesis using ps(1) that by (simp add: filed_def)
    qed
    ultimately have f: "\<forall>p \<in> set (ps @ [add]). filed fcn (elems M') p"
      using info_cells(2) [of "elems M'" _ "elems M2"] i(1) by auto
    have "view hh_tbl (elems M2) p = Some (Some t)" if "p \<in> set (ps @ [add])" for p
      using that tbl(2) new other [of p] add(1) by (cases "p = add") (auto simp: view_def)
    then have tb: "\<forall>p \<in> set (ps @ [add]). view hh_tbl (elems M') p = Some (Some t)" using info_fields(2) [OF i(1)] by simp
    have "key_of (elems M') add = ?K" using new add(3,4) info_cells(1) [of "elems M'" add "elems M2"] i(1) by (simp add: key_of_def)
    moreover have "\<forall>p. p \<noteq> add \<longrightarrow> view info (elems M') p = view info (elems M) p" using i(1) other by (simp add: view_def)
    moreover have "hd0 \<in> set (ps @ [add])" using ps(4) by (cases ps) auto
    then have "table_of M' hd0 = Some (t, T')" using tb 2(2) by (intro table_of_Some) (auto simp: table_ok_def)
    then have "hash_size M' (Some hd0) \<le> max 32 (2 * unat (num_buckets T))" using 2(7) by (simp add: hash_size_def)
    moreover have "same_room M M'" using 2(6) by (simp add: other_tables_def same_room_def M2_def)
    moreover have "table_ok M' t T' (set (ps @ [add]))" "num_items T' = of_nat (length (ps @ [add]))" using 2(2,4) by simp_all
    moreover have "hash_file fcn keyptr keylen add (M, hd0) = Some (Inr (M', hd0))" unfolding run using 2(1) by (simp add: hash_bind_def)
    ultimately show ?thesis using 2(5) tb f ord by blast
  qed
qed

lemma hash_file_ok:
  assumes T: "table_ok M t T (set ps)" "tbl_tail T = Some add" "num_items T = of_nat (length ps)"
    and tbl: "view hh_tbl (elems M) hd0 = Some (Some t)" "\<forall>p \<in> set ps. view hh_tbl (elems M) p = Some (Some t)"
    and ps: "\<forall>p \<in> set ps. filed fcn (elems M) p" "distinct ps" "Suc (length ps) < 2 ^ 32" "first ps (Some add) = Some hd0"
    and add: "add \<notin> set ps" "cells (elems M) add = Some c" "hh_key c = keyptr" "hh_keylen c = keylen" "unat keylen \<le> length keyptr"
    and ord: "nexts (view nxt (elems M)) (ps @ [add]) None" "prevs (view prv (elems M)) None (ps @ [add])"
    and room: "bkt_room M \<le> 2 ^ 30"
  shows "hash_file fcn keyptr keylen add (M, hd0) = Some (Inl Out_of_memory) \<and> bkt_room M < 2 * unat (num_buckets T) \<or>
    (\<exists>M'. hash_file fcn keyptr keylen add (M, hd0) = Some (Inr (M', hd0)) \<and> hash_rep fcn M' (Some hd0) (ps @ [add]) \<and>
       (\<forall>p. p \<noteq> add \<longrightarrow> view info (elems M') p = view info (elems M) p) \<and> key_of (elems M') add = take (unat keylen) keyptr \<and>
       hash_size M' (Some hd0) \<le> max 32 (2 * unat (num_buckets T)) \<and> same_room M M')"
  using hash_file_core [OF T tbl ps add room]
proof (elim disjE exE conjE)
  fix M' T'
  assume 1: "hash_file fcn keyptr keylen add (M, hd0) = Some (Inr (M', hd0))" "table_ok M' t T' (set (ps @ [add]))"
    "num_items T' = of_nat (length (ps @ [add]))" "tbl_tail T' = Some add" "\<forall>p \<in> set (ps @ [add]). view hh_tbl (elems M') p = Some (Some t)"
    "\<forall>p \<in> set (ps @ [add]). filed fcn (elems M') p" "view nxt (elems M') = view nxt (elems M)" "view prv (elems M') = view prv (elems M)"
    "\<forall>p. p \<noteq> add \<longrightarrow> view info (elems M') p = view info (elems M) p" "key_of (elems M') add = take (unat keylen) keyptr"
    "hash_size M' (Some hd0) \<le> max 32 (2 * unat (num_buckets T))" "same_room M M'"
  have "distinct (ps @ [add])" "length (ps @ [add]) < 2 ^ 32" "Some hd0 = first (ps @ [add]) None" "last (ps @ [add]) = add"
    using ps add(1) by simp_all
  then have "hash_rep fcn M' (Some hd0) (ps @ [add])" using 1(2-8) ord unfolding hash_rep_def by metis
  then show ?thesis using 1 by blast
qed blast

lemma append_ok:
  assumes r: "hash_rep fcn M head ps" and add: "add \<notin> set ps" "cells (elems M) add = Some c" "nxt c = None"
  shows "hash_append M head add = Some (Inl Out_of_memory) \<and> (limit (tables M) \<le> brk (tables M) \<or> bkt_room M < 32) \<or>
    (\<exists>M' t T hd0 c'. hash_append M head add = Some (Inr (M', hd0)) \<and> table_ok M' t T (set ps) \<and> tbl_tail T = Some add \<and>
       num_items T = of_nat (length ps) \<and> view hh_tbl (elems M') hd0 = Some (Some t) \<and>
       (\<forall>p \<in> set ps. view hh_tbl (elems M') p = Some (Some t) \<and> view info (elems M') p = view info (elems M) p) \<and>
       first ps (Some add) = Some hd0 \<and> cells (elems M') add = Some c' \<and> hh_key c' = hh_key c \<and> hh_keylen c' = hh_keylen c \<and>
       nexts (view nxt (elems M')) (ps @ [add]) None \<and> prevs (view prv (elems M')) None (ps @ [add]) \<and>
       (\<forall>p. p \<noteq> add \<longrightarrow> view info (elems M') p = view info (elems M) p) \<and> bkt_room M' = bkt_room M \<and>
       limit (tables M') = limit (tables M) \<and> brk (tables M') \<le> Suc (brk (tables M)) \<and> unat (num_buckets T) \<le> hash_size M head)"
proof (cases ps rule: rev_cases)
  case Nil
  then have h: "head = None" using r by (simp add: hash_rep_def)
  have al: "alive (elems M) add" using add(2) by (simp add: alive_def)
  let ?M = "M\<lparr>elems := upd (elems M) add (\<lambda>c. c\<lparr>prv := None\<rparr>)\<rparr>"
  have run: "hash_append M head add = hash_bind (HASH_MAKE_TABLE ?M add) (\<lambda>M. Some (Inr (M, add)))"
    using h al by (simp add: hash_append_def upd_elem_Some)
  have "alive (elems ?M) add" using al by (simp add: upd_extent)
  from make_table_ok [OF this] consider "HASH_MAKE_TABLE ?M add = Some (Inl Out_of_memory)" "limit (tables M) \<le> brk (tables M) \<or> bkt_room M < 32"
    | M' t T where "HASH_MAKE_TABLE ?M add = Some (Inr M')" "table_ok M' t T {}" "tbl_tail T = Some add" "num_items T = 0" "num_buckets T = 32"
       "elems M' = upd (elems ?M) add (\<lambda>c. c\<lparr>hh_tbl := Some t\<rparr>)" "bkt_room M' = bkt_room M"
       "limit (tables M') = limit (tables M)" "brk (tables M') = Suc (brk (tables M))" by auto
  then show ?thesis
  proof cases
    case 1
    then show ?thesis unfolding run by (simp add: hash_bind_simps)
  next
    case (2 M' t T)
    have "cells (elems M') add = Some (c\<lparr>prv := None, hh_tbl := Some t\<rparr>)" "\<forall>p. p \<noteq> add \<longrightarrow> cells (elems M') p = cells (elems M) p"
      using add(2) 2(6) by (simp_all add: upd_def)
    moreover have "unat (num_buckets T) \<le> hash_size M head" using 2(5) by (simp add: hash_size_def)
    moreover have "hash_append M head add = Some (Inr (M', add))" unfolding run using 2(1) by (simp add: hash_bind_simps)
    ultimately show ?thesis using 2 Nil add(3) by (auto simp: view_def intro!: exI [of _ M'])
  qed
next
  case (snoc us q)
  then obtain t T where t: "table_ok M t T (set ps)" "tbl_tail T = Some q" "num_items T = of_nat (length ps)"
      "\<forall>p \<in> set ps. view hh_tbl (elems M) p = Some (Some t)"
    and h: "head = Some (hd ps)" "first ps (Some add) = Some (hd ps)" using r by (cases us) (auto simp: hash_rep_def)
  have Tc: "cells (tables M) t = Some T" using t(1) by (simp add: table_ok_def)
  have al: "alive (elems M) add" "alive (elems M) q" "add \<noteq> q"
    using add(1,2) r snoc by (auto simp: hash_rep_def alive_def filed_def)
  define M' where "M' = M\<lparr>elems := upd (upd (elems M) q (\<lambda>c. c\<lparr>nxt := Some add\<rparr>)) add (\<lambda>c. c\<lparr>prv := Some q\<rparr>),
      tables := (tables M)\<lparr>cells := (cells (tables M))(t \<mapsto> T\<lparr>tbl_tail := Some add\<rparr>)\<rparr>\<rparr>"
  have hd: "view hh_tbl (elems M) (hd ps) = Some (Some t)" using t(4) snoc hd_in_set [of ps] by auto
  then have to: "table_of M (hd ps) = Some (t, T)" using Tc by (rule table_of_Some)
  then have run: "hash_append M head add = Some (Inr (M', hd ps))"
    using h(1) t(2) al Tc by (simp add: hash_append_def upd_elem_Some upd_table_Some upd_extent M'_def)
  have v: "view info (elems M') = view info (elems M)" "view hh_next (elems M') = view hh_next (elems M)"
    "view hh_prev (elems M') = view hh_prev (elems M)" "view nxt (elems M') = (view nxt (elems M))(q \<mapsto> Some add)"
    "view prv (elems M') = (view prv (elems M))(add \<mapsto> Some q)"
    using al by (simp_all add: M'_def view_simps)
  have room: "bkt_room M' = bkt_room M" "limit (tables M') = limit (tables M)" "brk (tables M') = brk (tables M)"
    "unat (num_buckets T) \<le> hash_size M head" using to h(1) by (simp_all add: M'_def hash_size_def)
  have "table_ok M' t (T\<lparr>tbl_tail := Some add\<rparr>) (set ps)"
    by (rule table_ok_frame [OF t(1)]) (use v(2,3) info_fields(1) [OF v(1)] in \<open>simp_all add: M'_def\<close>)
  moreover have "view nxt (elems M) add = Some None" using add(2,3) by (simp add: view_def)
  then have "nexts (view nxt (elems M')) (ps @ [add]) None" "prevs (view prv (elems M')) None (ps @ [add])"
    using r snoc add(1) al(3) unfolding v by (auto simp: hash_rep_def)
  moreover have "cells (elems M') add = Some (c\<lparr>prv := Some q\<rparr>)" using add(2) al(3) by (simp add: M'_def upd_def)
  ultimately show ?thesis
    using run t(3,4) h(2) v(1) info_fields(2) [OF v(1)] hd
    by - (rule disjI2, rule exI [of _ M'], rule exI [of _ t], rule exI [of _ "T\<lparr>tbl_tail := Some add\<rparr>"], rule exI [of _ "hd ps"],
        rule exI [of _ "c\<lparr>prv := Some q\<rparr>"], simp add: room)
qed

lemma add_ok:
  assumes r: "hash_rep fcn M head ps" and add: "add \<notin> set ps" "alive (elems M) add" and k: "unat keylen \<le> length keyptr"
    and n: "Suc (length ps) < 2 ^ 32" and room: "bkt_room M \<le> 2 ^ 30"
  shows "HASH_ADD_KEYPTR fcn M head keyptr keylen add = Some (Inl Out_of_memory) \<and>
      (limit (tables M) \<le> brk (tables M) \<or> bkt_room M < 2 * hash_size M head) \<or>
    (\<exists>M' hd0. HASH_ADD_KEYPTR fcn M head keyptr keylen add = Some (Inr (M', hd0)) \<and> hash_rep fcn M' (Some hd0) (ps @ [add]) \<and>
       (\<forall>p. p \<noteq> add \<longrightarrow> view info (elems M') p = view info (elems M) p) \<and> key_of (elems M') add = take (unat keylen) keyptr \<and>
       bkt_room M' = bkt_room M \<and> limit (tables M') = limit (tables M) \<and> brk (tables M') \<le> Suc (brk (tables M)) \<and>
       hash_size M' (Some hd0) \<le> 2 * hash_size M head)"
proof -
  obtain c where c: "cells (elems M) add = Some c" using add(2) by (auto simp: alive_def)
  define M1 where "M1 = M\<lparr>elems := upd (upd (elems M) add (\<lambda>c. c\<lparr>nxt := None\<rparr>)) add (\<lambda>c. c\<lparr>hh_key := keyptr, hh_keylen := keylen\<rparr>)\<rparr>"
  have run: "HASH_ADD_KEYPTR fcn M head keyptr keylen add = hash_bind (hash_append M1 head add) (hash_file fcn keyptr keylen add)"
    using add(2) by (simp add: HASH_ADD_KEYPTR_def upd_elem_Some upd_extent M1_def)
  have other: "cells (elems M1) p = cells (elems M) p" if "p \<noteq> add" for p using that by (simp add: M1_def upd_def)
  have r1: "hash_rep fcn M1 head ps"
  proof (rule hash_rep_frame [OF r])
    fix p assume "p \<in> set ps"
    then show "cells (elems M1) p = cells (elems M) p" using other add(1) by metis
  qed (simp add: M1_def)
  have c1: "cells (elems M1) add = Some (c\<lparr>nxt := None, hh_key := keyptr, hh_keylen := keylen\<rparr>)" using c by (simp add: M1_def upd_def)
  have size1: "hash_size M1 head = hash_size M head"
    by (auto simp: hash_size_def table_of_def load_def M1_def upd_def c split: option.splits)
  have room1: "bkt_room M1 = bkt_room M" "tables M1 = tables M" by (simp_all add: M1_def)
  have f1: "filed fcn (elems M1) p" if "p \<in> set ps" for p using r1 that by (simp add: hash_rep_def)
  from append_ok [OF r1 add(1) c1] consider "hash_append M1 head add = Some (Inl Out_of_memory)" "limit (tables M1) \<le> brk (tables M1) \<or> bkt_room M1 < 32"
    | M' t T hd0 c' where "hash_append M1 head add = Some (Inr (M', hd0))" "table_ok M' t T (set ps)" "tbl_tail T = Some add"
       "num_items T = of_nat (length ps)" "view hh_tbl (elems M') hd0 = Some (Some t)"
       "\<forall>p \<in> set ps. view hh_tbl (elems M') p = Some (Some t) \<and> view info (elems M') p = view info (elems M1) p"
       "first ps (Some add) = Some hd0" "cells (elems M') add = Some c'" "hh_key c' = keyptr" "hh_keylen c' = keylen"
       "nexts (view nxt (elems M')) (ps @ [add]) None" "prevs (view prv (elems M')) None (ps @ [add])"
       "\<forall>p. p \<noteq> add \<longrightarrow> view info (elems M') p = view info (elems M1) p" "bkt_room M' = bkt_room M1"
       "limit (tables M') = limit (tables M1)" "brk (tables M') \<le> Suc (brk (tables M1))" "unat (num_buckets T) \<le> hash_size M1 head"
    by auto
  then show ?thesis
  proof cases
    case 1
    then show ?thesis unfolding run by (auto simp: hash_bind_def M1_def hash_size_def)
  next
    case (2 M' t T hd0 c')
    have d: "distinct ps" using r by (simp add: hash_rep_def)
    have t: "\<forall>p \<in> set ps. view hh_tbl (elems M') p = Some (Some t)" "\<forall>p \<in> set ps. filed fcn (elems M') p"
      using 2(6) f1 info_cells(2) [of "elems M'" _ "elems M1" fcn] by auto
    have "bkt_room M' \<le> 2 ^ 30" using 2(14) room by (simp add: M1_def)
    note f = hash_file_ok [OF 2(2-5) t d n 2(7) add(1) 2(8-10) k 2(11,12) this]
    moreover have "\<forall>p. p \<noteq> add \<longrightarrow> view info (elems M') p = view info (elems M) p" using 2(13) other by (simp add: view_def)
    moreover have "max 32 (2 * unat (num_buckets T)) \<le> 2 * hash_size M head" "2 * unat (num_buckets T) \<le> 2 * hash_size M head"
      using 2(17) unfolding size1 by (simp_all add: hash_size_def)
    ultimately show ?thesis using 2(1,14-16) room1 unfolding run by (fastforce simp: hash_bind_def same_room_def)
  qed
qed

lemma find_dict:
  assumes r: "dict_rep fcn M head d" and k: "unat keylen \<le> length keyptr"
  shows "HASH_FIND fcn M head keyptr keylen = Some (dict_lookup d (take (unat keylen) keyptr))"
proof -
  let ?K = "take (unat keylen) keyptr"
  have h: "hash_rep fcn M head (map fst d)" "distinct (map snd d)" "\<forall>e \<in> set d. key_of (elems M) (fst e) = snd e"
    using r by (auto simp: dict_rep_def)
  from find_ok [OF h(1) k] obtain o' where o: "HASH_FIND fcn M head keyptr keylen = Some o'"
    "case o' of None \<Rightarrow> \<forall>p \<in> set (map fst d). key_of (elems M) p \<noteq> ?K | Some p \<Rightarrow> p \<in> set (map fst d) \<and> key_of (elems M) p = ?K" by blast
  have "o' = dict_lookup d ?K"
  proof (cases o')
    case None
    then have "?K \<notin> snd ` set d" using o(2) h(3) by force
    then show ?thesis using None dict_lookup_None by metis
  next
    case (Some p)
    then have "(p, ?K) \<in> set d" using o(2) h(3) by force
    then show ?thesis using Some dict_lookup_iff [OF h(2), of ?K p] by simp
  qed
  with o(1) show ?thesis by simp
qed

lemma add_dict:
  assumes r: "dict_rep fcn M head d" and op: "alive (elems M) add" "add \<notin> fst ` set d" "take (unat keylen) keyptr \<notin> snd ` set d"
      "unat keylen \<le> length keyptr" "Suc (length d) < 2 ^ 32" and room: "bkt_room M \<le> 2 ^ 30"
  shows "HASH_ADD_KEYPTR fcn M head keyptr keylen add = Some (Inl Out_of_memory) \<and>
      (limit (tables M) \<le> brk (tables M) \<or> bkt_room M < 2 * hash_size M head) \<or>
    (\<exists>M' p. HASH_ADD_KEYPTR fcn M head keyptr keylen add = Some (Inr (M', p)) \<and>
      dict_rep fcn M' (Some p) (d @ [(add, take (unat keylen) keyptr)]) \<and> grown 1 (M, head) (M', Some p))"
proof -
  have h: "hash_rep fcn M head (map fst d)" "distinct (map snd d)" "\<forall>e \<in> set d. key_of (elems M) (fst e) = snd e"
    using r by (auto simp: dict_rep_def)
  have "add \<notin> set (map fst d)" "Suc (length (map fst d)) < 2 ^ 32" using op(2,5) by auto
  from add_ok [OF h(1) this(1) op(1,4) this(2) room] show ?thesis
  proof (elim disjE)
    assume "\<exists>M' hd0. HASH_ADD_KEYPTR fcn M head keyptr keylen add = Some (Inr (M', hd0)) \<and> hash_rep fcn M' (Some hd0) (map fst d @ [add]) \<and>
       (\<forall>p. p \<noteq> add \<longrightarrow> view info (elems M') p = view info (elems M) p) \<and> key_of (elems M') add = take (unat keylen) keyptr \<and>
       bkt_room M' = bkt_room M \<and> limit (tables M') = limit (tables M) \<and> brk (tables M') \<le> Suc (brk (tables M)) \<and>
       hash_size M' (Some hd0) \<le> 2 * hash_size M head"
    then obtain M' p where 1: "HASH_ADD_KEYPTR fcn M head keyptr keylen add = Some (Inr (M', p))" "hash_rep fcn M' (Some p) (map fst d @ [add])"
      "\<forall>q. q \<noteq> add \<longrightarrow> view info (elems M') q = view info (elems M) q" "key_of (elems M') add = take (unat keylen) keyptr"
      "bkt_room M' = bkt_room M" "limit (tables M') = limit (tables M)" "brk (tables M') \<le> Suc (brk (tables M))"
      "hash_size M' (Some p) \<le> 2 * hash_size M head" by blast
    have "key_of (elems M') (fst e) = snd e" if "e \<in> set d" for e
    proof -
      have "fst e \<noteq> add" using that op(2) by force
      then show ?thesis using 1(3) info_cells(1) [of "elems M'" "fst e" "elems M"] h(3) that by simp
    qed
    then have "dict_rep fcn M' (Some p) (d @ [(add, take (unat keylen) keyptr)])"
      using 1(2,4) h(2) op(3) by (auto simp: dict_rep_def)
    moreover have "alive (elems M') q = alive (elems M) q" for q
    proof (cases "q = add")
      case True
      have "filed fcn (elems M') add" using 1(2) by (simp add: hash_rep_def)
      then show ?thesis using True op(1) by (auto simp: filed_def alive_def)
    next
      case False
      then show ?thesis using 1(3) alive_view [of "elems M'" q info] alive_view [of "elems M" q info] by simp
    qed
    then have "grown 1 (M, head) (M', Some p)" using 1(5-8) by (simp add: grown_def fun_eq_iff)
    ultimately show ?thesis using 1(1) by blast
  qed blast
qed

lemma replace_dict:
  assumes r: "dict_rep fcn M head d" and op: "op_ok (alive (elems M)) d (Op_replace keyptr keylen add)" and room: "bkt_room M \<le> 2 ^ 30"
  shows "HASH_REPLACE fcn M head keyptr keylen add = Some (Inl Out_of_memory) \<and>
      (limit (tables M) \<le> brk (tables M) \<or> bkt_room M < 2 * hash_size M head) \<or>
    (\<exists>M' p. HASH_REPLACE fcn M head keyptr keylen add = Some (Inr ((M', p), dict_lookup d (take (unat keylen) keyptr))) \<and>
      dict_rep fcn M' (Some p) (filter (\<lambda>e. snd e \<noteq> take (unat keylen) keyptr) d @ [(add, take (unat keylen) keyptr)]) \<and>
      grown 1 (M, head) (M', Some p))"
proof -
  let ?K = "take (unat keylen) keyptr" and ?d = "filter (\<lambda>e. snd e \<noteq> take (unat keylen) keyptr) d"
  have f: "HASH_FIND fcn M head keyptr keylen = Some (dict_lookup d ?K)" using find_dict [OF r] op by simp
  have "\<exists>M1 head1. (case dict_lookup d ?K of Some r \<Rightarrow> HASH_DELETE M head r | None \<Rightarrow> Some (M, head)) = Some (M1, head1) \<and>
      dict_rep fcn M1 head1 ?d \<and> grown 0 (M, head) (M1, head1)"
  proof (cases "dict_lookup d ?K")
    case None
    then have "\<forall>e \<in> set d. snd e \<noteq> ?K" unfolding dict_lookup_None by (metis image_eqI)
    then have "?d = d" by (simp add: filter_id_conv)
    with None r show ?thesis by (simp add: grown_0)
  next
    case (Some q)
    have d: "distinct (map snd d)" "distinct (map fst d)" using r by (auto simp: dict_rep_def hash_rep_def)
    have q: "(q, ?K) \<in> set d" using Some dict_lookup_iff [OF d(1)] by blast
    have "snd e \<noteq> ?K \<longleftrightarrow> fst e \<noteq> q" if "e \<in> set d" for e
      using d q that dict_keys_unique [OF d(1), of q ?K "fst e"] eq_key_imp_eq_value [OF d(2), of q ?K "snd e"] by (cases e) auto
    then have "?d = filter (\<lambda>e. fst e \<noteq> q) d" by (intro filter_cong) auto
    with delete_dict [OF r, of q] q Some show ?thesis by force
  qed
  then obtain M1 head1 where 1: "(case dict_lookup d ?K of Some r \<Rightarrow> HASH_DELETE M head r | None \<Rightarrow> Some (M, head)) = Some (M1, head1)"
    "dict_rep fcn M1 head1 ?d" "grown 0 (M, head) (M1, head1)" by blast
  have run: "HASH_REPLACE fcn M head keyptr keylen add =
      hash_bind (HASH_ADD_KEYPTR fcn M1 head1 keyptr keylen add) (\<lambda>s. Some (Inr (s, dict_lookup d ?K)))"
    unfolding HASH_REPLACE_def f using 1(1) by simp
  have "alive (elems M1) add" "add \<notin> fst ` set ?d" "?K \<notin> snd ` set ?d" "unat keylen \<le> length keyptr" "bkt_room M1 \<le> 2 ^ 30"
    using op 1(3) room by (auto simp: grown_def)
  moreover have "Suc (length ?d) < 2 ^ 32" using op length_filter_le [of "\<lambda>e. snd e \<noteq> ?K" d] by (simp del: length_filter_le)
  ultimately have "HASH_ADD_KEYPTR fcn M1 head1 keyptr keylen add = Some (Inl Out_of_memory) \<and>
      (limit (tables M1) \<le> brk (tables M1) \<or> bkt_room M1 < 2 * hash_size M1 head1) \<or>
    (\<exists>M' p. HASH_ADD_KEYPTR fcn M1 head1 keyptr keylen add = Some (Inr (M', p)) \<and>
      dict_rep fcn M' (Some p) (?d @ [(add, ?K)]) \<and> grown 1 (M1, head1) (M', Some p))"
    using add_dict [OF 1(2)] by blast
  then show ?thesis
  proof (elim disjE exE conjE)
    fix M' p
    assume 2: "HASH_ADD_KEYPTR fcn M1 head1 keyptr keylen add = Some (Inr (M', p))" "dict_rep fcn M' (Some p) (?d @ [(add, ?K)])"
      "grown 1 (M1, head1) (M', Some p)"
    then show ?thesis unfolding run using grown_trans [OF 1(3) 2(3)] by (simp add: hash_bind_def)
  qed (use 1(3) in \<open>simp_all add: run hash_bind_def grown_def\<close>)
qed

lemma step_ok:
  assumes r: "dict_rep fcn M head d" and op: "op_ok (alive (elems M)) d op" and room: "bkt_room M \<le> 2 ^ 30"
  shows "hash_step fcn (M, head) op = Some (Inl Out_of_memory) \<and> allocates op = 1 \<and>
      (limit (tables M) \<le> brk (tables M) \<or> bkt_room M < 2 * hash_size M head) \<or>
    (\<exists>M' head'. hash_step fcn (M, head) op = Some (Inr ((M', head'), snd (dict_step d op))) \<and>
      dict_rep fcn M' head' (fst (dict_step d op)) \<and> grown (allocates op) (M, head) (M', head'))"
proof (cases op)
  case (Op_add keyptr keylen add)
  with add_dict [OF r _ _ _ _ _ room, of add keylen keyptr] op show ?thesis by (auto simp: hash_bind_def)
next
  case (Op_find keyptr keylen)
  with find_dict [OF r] op r show ?thesis by (simp add: grown_0)
next
  case (Op_replace keyptr keylen add)
  with replace_dict [OF r _ room, of keyptr keylen add] op show ?thesis by (auto simp: hash_bind_def)
next
  case (Op_delete del)
  with delete_dict [OF r, of del] op show ?thesis by auto
next
  case Op_count
  then show ?thesis using cnt_ok [of fcn M head "map fst d"] r by (auto simp: dict_rep_def grown_0)
next
  case (Op_prune test)
  have h: "hash_rep fcn M head (map fst d)" using r by (simp add: dict_rep_def)
  have "map fst (filter (\<lambda>e. \<not> test (fst e)) d) = filter (\<lambda>p. \<not> test p) (map fst d)" by (simp add: filter_map o_def)
  with prune_ok [OF h, of test] dict_rep_filter [OF r] grown_0 Op_prune show ?thesis by fastforce
next
  case Op_clear
  have h: "hash_rep fcn M head (map fst d)" using r by (simp add: dict_rep_def)
  from clear_ok [OF h] obtain M' where 1: "HASH_CLEAR M head = Some (M', None)" "hash_rep fcn M' None []" "elems M' = elems M" "same_room M M'" by blast
  have "grown 0 (M, head) (M', None)" using 1(3,4) by (intro grown_0) (simp_all add: hash_size_def)
  with 1 Op_clear show ?thesis by (simp add: dict_rep_def)
qed

lemma run_ok:
  assumes "dict_rep fcn M head d" and "ops_ok (alive (elems M)) d ops" and "bkt_room M \<le> 2 ^ 30"
  shows "hash_run fcn (M, head) ops = Some (Inl Out_of_memory) \<and>
      (limit (tables M) < brk (tables M) + sum_list (map allocates ops) \<or> bkt_room M < hash_size M head * 2 ^ sum_list (map allocates ops)) \<or>
    (\<exists>M' head'. hash_run fcn (M, head) ops = Some (Inr ((M', head'), snd (dict_run d ops))) \<and>
      dict_rep fcn M' head' (fst (dict_run d ops)) \<and> grown (sum_list (map allocates ops)) (M, head) (M', head'))"
  using assms
proof (induction ops arbitrary: M head d)
  case Nil
  then show ?case by (simp add: grown_0)
next
  case (Cons op ops)
  let ?n = "sum_list (map allocates ops)"
  have op: "op_ok (alive (elems M)) d op" "ops_ok (alive (elems M)) (fst (dict_step d op)) ops" using Cons.prems(2) by auto
  from step_ok [OF Cons.prems(1) op(1) Cons.prems(3)] show ?case
  proof (elim disjE exE conjE)
    assume 1: "hash_step fcn (M, head) op = Some (Inl Out_of_memory)" "allocates op = 1"
    have run: "hash_run fcn (M, head) (op # ops) = Some (Inl Out_of_memory)" using 1(1) by (simp add: hash_bind_def)
    assume "limit (tables M) \<le> brk (tables M)"
    then show ?thesis using run 1(2) by simp
  next
    assume 1: "hash_step fcn (M, head) op = Some (Inl Out_of_memory)" "allocates op = 1" "bkt_room M < 2 * hash_size M head"
    have run: "hash_run fcn (M, head) (op # ops) = Some (Inl Out_of_memory)" using 1(1) by (simp add: hash_bind_def)
    have "2 * hash_size M head * 1 \<le> 2 * hash_size M head * 2 ^ ?n" by (intro mult_le_mono2) simp
    then have "bkt_room M < 2 * hash_size M head * 2 ^ ?n" using 1(3) by linarith
    also have "\<dots> = hash_size M head * 2 ^ sum_list (map allocates (op # ops))" using 1(2) by simp
    finally have "bkt_room M < hash_size M head * 2 ^ sum_list (map allocates (op # ops))" .
    then show ?thesis using run by blast
  next
    fix M1 head1
    assume 1: "hash_step fcn (M, head) op = Some (Inr ((M1, head1), snd (dict_step d op)))" "dict_rep fcn M1 head1 (fst (dict_step d op))"
      "grown (allocates op) (M, head) (M1, head1)"
    have g: "ops_ok (alive (elems M1)) (fst (dict_step d op)) ops" "bkt_room M1 \<le> 2 ^ 30" "bkt_room M1 = bkt_room M"
      "limit (tables M1) = limit (tables M)" "brk (tables M1) \<le> brk (tables M) + allocates op"
      "hash_size M1 head1 * 2 ^ ?n \<le> hash_size M head * 2 ^ allocates op * 2 ^ ?n"
      using op(2) Cons.prems(3) 1(3) by (simp_all add: grown_def)
    have d: "dict_run d (op # ops) = (fst (dict_run (fst (dict_step d op)) ops), snd (dict_step d op) # snd (dict_run (fst (dict_step d op)) ops))"
      by (simp add: case_prod_unfold Let_def)
    from Cons.IH [OF 1(2) g(1,2)] show ?thesis
    proof (elim disjE exE conjE)
      assume 2: "hash_run fcn (M1, head1) ops = Some (Inl Out_of_memory)" "limit (tables M1) < brk (tables M1) + ?n"
      then show ?thesis using 1(1) g by (simp add: hash_bind_def)
    next
      assume 2: "hash_run fcn (M1, head1) ops = Some (Inl Out_of_memory)" "bkt_room M1 < hash_size M1 head1 * 2 ^ ?n"
      from less_le_trans [OF 2(2) g(6)] have "bkt_room M < hash_size M head * 2 ^ sum_list (map allocates (op # ops))"
        unfolding g(3) by (simp add: power_add mult.assoc)
      then show ?thesis using 1(1) 2(1) by (simp add: hash_bind_def)
    next
      fix M2 head2
      assume 2: "hash_run fcn (M1, head1) ops = Some (Inr ((M2, head2), snd (dict_run (fst (dict_step d op)) ops)))"
        "dict_rep fcn M2 head2 (fst (dict_run (fst (dict_step d op)) ops))" "grown ?n (M1, head1) (M2, head2)"
      then show ?thesis using 1(1) grown_trans [OF 1(3) 2(3)] unfolding d by (simp add: hash_bind_def)
    qed
  qed
qed

end

subsection \<open>The hash functions of the program\<close>

lemmas hash_fcn_defs = HASH_BER_def HASH_SAX_def HASH_FNV_def HASH_OAT_def HASH_JEN_def HASH_SFH_def HASH_MUR_def HASH_TO_BKT_def

interpretation ber: hash_function HASH_BER
  by unfold_locales (simp add: hash_fcn_defs Let_def)

interpretation sax: hash_function HASH_SAX
  by unfold_locales (simp add: hash_fcn_defs Let_def)

interpretation fnv: hash_function HASH_FNV
  by unfold_locales (simp add: hash_fcn_defs Let_def)

interpretation oat: hash_function HASH_OAT
  by unfold_locales (simp add: hash_fcn_defs Let_def)

interpretation jen: hash_function HASH_JEN
  by unfold_locales (simp add: hash_fcn_defs Let_def case_prod_unfold)

interpretation sfh: hash_function HASH_SFH
  by unfold_locales (simp add: hash_fcn_defs Let_def case_prod_unfold)

interpretation mur: hash_function HASH_MUR
  by unfold_locales (simp add: hash_fcn_defs Let_def case_prod_unfold)

lemma hash_functions: "fcn \<in> {HASH_BER, HASH_SAX, HASH_FNV, HASH_OAT, HASH_JEN, HASH_SFH, HASH_MUR} \<Longrightarrow> hash_function fcn"
  using ber.hash_function_axioms sax.hash_function_axioms fnv.hash_function_axioms oat.hash_function_axioms jen.hash_function_axioms
    sfh.hash_function_axioms mur.hash_function_axioms by auto

subsection \<open>Properties\<close>

text \<open>C9: a hash behaves like a dictionary that remembers the order of insertion, whichever of the seven hash
  functions is compiled in.  Every sequence of additions, lookups, replacements, deletions, counts,
  deleting iterations and clears that respects the contract runs without undefined behaviour and gives the answers of
  the dictionary, the elements stay filed under their keys through every doubling of the buckets, and the
  consistency check of \<^verbatim>\<open>HASH_DEBUG\<close> finds nothing.  The program exits instead only when \<^verbatim>\<open>malloc\<close> may fail: memory for fewer
  tables than additions, or for fewer buckets than the additions can ask for.\<close>

theorem hash_runs_like_dict:
  assumes "fcn \<in> {HASH_BER, HASH_SAX, HASH_FNV, HASH_OAT, HASH_JEN, HASH_SFH, HASH_MUR}"
    and "dict_rep fcn M head d" and "ops_ok (alive (elems M)) d ops" and "bkt_room M \<le> 2 ^ 30"
  shows "(\<exists>M' head'. hash_run fcn (M, head) ops = Some (Inr ((M', head'), snd (dict_run d ops))) \<and>
      dict_rep fcn M' head' (fst (dict_run d ops)) \<and> HASH_FSCK M' head' = Some True) \<or>
    hash_run fcn (M, head) ops = Some (Inl Out_of_memory) \<and>
      (limit (tables M) < brk (tables M) + sum_list (map allocates ops) \<or> bkt_room M < hash_size M head * 2 ^ sum_list (map allocates ops))"
  using hash_function.run_ok [OF hash_functions [OF assms(1)] assms(2-4)] fsck_ok unfolding dict_rep_def by blast

text \<open>Three elements, none of them in a hash, and room for four tables.\<close>

definition sample_hash :: "unit hash_mem" where
  "sample_hash = \<lparr>elems = \<lparr>cells = (\<lambda>p. if p < 3 then Some \<lparr>nxt = None, prv = None, hh_tbl = None, hh_prev = None, hh_next = None,
       hh_key = [], hh_keylen = 0, hh_hashv = 0\<rparr> else None), brk = 3, limit = 3\<rparr>, tables = empty_heap 4, bkt_room = 1024\<rparr>"

definition sample_ops :: "hash_op list" where
  "sample_ops = [Op_add [7, 1] 2 0, Op_add [3] 1 1, Op_find [3, 9] 1, Op_replace [7, 1, 5] 2 2, Op_delete 1, Op_count]"

lemma sample_dict: "dict_rep fcn sample_hash None []"
  by (simp add: dict_rep_def hash_rep_def)

lemma sample_ops_ok: "ops_ok (alive (elems sample_hash)) [] sample_ops"
  by (simp add: sample_ops_def sample_hash_def alive_def)

theorem hash_runs_like_dict_witness:
  "\<exists>M' head'. hash_run HASH_JEN (sample_hash, None) sample_ops =
      Some (Inr ((M', head'), [No_output, No_output, Found (Some 1), Found (Some 0), No_output, Counted 1])) \<and>
    dict_rep HASH_JEN M' head' [(2, [7, 1])] \<and> HASH_FSCK M' head' = Some True"
proof -
  have r: "dict_run [] sample_ops = ([(2, [7, 1])], [No_output, No_output, Found (Some 1), Found (Some 0), No_output, Counted 1])"
    by (simp add: sample_ops_def dict_lookup_def)
  have s: "bkt_room sample_hash = 1024" "limit (tables sample_hash) = 4" "brk (tables sample_hash) = 0" "hash_size sample_hash None = 32"
    "sum_list (map allocates sample_ops) = 3" by (simp_all add: sample_hash_def empty_heap_def hash_size_def sample_ops_def)
  show ?thesis using hash_runs_like_dict [OF _ sample_dict sample_ops_ok, of HASH_JEN] unfolding r s by simp
qed

text \<open>C26: sorting a hash ends, leaves every element in the hash and reorders the insertion order into the stable
  sorting of the elements, so that lookups find what they found before and the consistency check passes.\<close>

theorem hash_sort_reorders:
  assumes "hash_rep fcn M head ps" and "ranks cmp C" and "length ps \<le> 2 ^ 30"
  shows "\<exists>M' head'. HASH_SRT M head cmp = Some (M', head') \<and> hash_rep fcn M' head' (sort (by_payload (elems M) C) ps) \<and>
    same_payload (elems M) (elems M') \<and> (\<forall>p. key_of (elems M') p = key_of (elems M) p) \<and> HASH_FSCK M' head' = Some True"
proof -
  from srt_ok [OF assms] obtain M' head' where 1: "HASH_SRT M head cmp = Some (M', head')" "hash_rep fcn M' head' (sort (by_payload (elems M) C) ps)"
    "same_payload (elems M) (elems M')" by blast
  then show ?thesis using fsck_ok [OF 1(2)] info_cells(1) [OF fun_cong [OF payload_fields(3) [OF 1(3)]]] by blast
qed

text \<open>The three elements with the keys 3, 1 and 2, sorted by their keys.\<close>

definition key_byte :: "unit UT_hash_handle_ext \<Rightarrow> nat" where
  "key_byte x = unat (hd (take (unat (hh_keylen \<lparr>nxt = None, prv = None, \<dots> = x\<rparr>)) (hh_key \<lparr>nxt = None, prv = None, \<dots> = x\<rparr>) @ [0]))"

definition bytecmp :: "unit UT_hash_handle_ext \<Rightarrow> unit UT_hash_handle_ext \<Rightarrow> int" where
  "bytecmp a b = int (key_byte a) - int (key_byte b)"

lemma key_byte_payload:
  assumes "key_of h p = [k]"
  shows "key_byte (the (payload h p)) = unat k"
proof -
  obtain c where c: "cells h p = Some c" using assms by (cases "cells h p") (auto simp: key_of_def)
  have "hh_keylen \<lparr>nxt = None, prv = None, \<dots> = link.more c\<rparr> = hh_keylen c" "hh_key \<lparr>nxt = None, prv = None, \<dots> = link.more c\<rparr> = hh_key c"
    by (cases c; simp)+
  then show ?thesis using assms c by (simp add: key_byte_def payload_def load_def key_of_def)
qed

lemma bytecmp_ranks: "ranks bytecmp (key key_byte default)"
  by (auto simp: ranks_def bytecmp_def)

theorem hash_sort_reorders_witness:
  "\<exists>M head M' head'. hash_run HASH_JEN (sample_hash, None) [Op_add [3] 1 0, Op_add [1] 1 1, Op_add [2] 1 2] = Some (Inr ((M, head), [No_output, No_output, No_output])) \<and>
     HASH_SRT M head bytecmp = Some (M', head') \<and> hash_rep HASH_JEN M' head' [1, 2, 0] \<and> HASH_FSCK M' head' = Some True"
proof -
  let ?ops = "[Op_add [3] 1 0, Op_add [1] 1 1, Op_add [2] 1 2]"
  have "ops_ok (alive (elems sample_hash)) [] ?ops" by (simp add: sample_hash_def alive_def)
  from jen.run_ok [OF sample_dict this] obtain M head where 1:
    "hash_run HASH_JEN (sample_hash, None) ?ops = Some (Inr ((M, head), [No_output, No_output, No_output]))"
    "dict_rep HASH_JEN M head [(0, [3]), (1, [1]), (2, [2])]"
    by (auto simp: sample_hash_def empty_heap_def hash_size_def)
  then have "key_byte (the (payload (elems M) 0)) = 3" "key_byte (the (payload (elems M) 1)) = 1" "key_byte (the (payload (elems M) 2)) = 2"
    using key_byte_payload [of "elems M"] by (auto simp: dict_rep_def)
  then have "sort (by_payload (elems M) (key key_byte default)) [0, 1, 2] = [1, 2, 0]" by (simp add: by_payload_def)
  with hash_sort_reorders [OF _ bytecmp_ranks, of HASH_JEN M head "[0, 1, 2]"] 1 show ?thesis by (auto simp: dict_rep_def)
qed

end
