(* ===== verification/Ut_Hash_Select.thy ===== *)
theory Ut_Hash_Select
  imports Ut_Hash
begin

text \<open>
  \<^verbatim>\<open>HASH_SELECT\<close> of \<^verbatim>\<open>2PCKVStore/uthash.h\<close>: the elements of one hash that pass a test are put into a second hash as well,
  through a second handle in the element.  The second handles are a memory of their own under the
  addresses of the elements.
\<close>

subsection \<open>Model\<close>

text \<open>Putting the element \<open>p\<close>, whose first handle is \<open>c\<close>, into the hash \<open>dst\<close>; \<open>last_elt\<close> is the element selected before.\<close>

definition select_elem :: "'a UT_hash_handle_scheme \<Rightarrow> ptr \<Rightarrow> 'e hash_mem \<times> ptr option \<times> ptr option \<Rightarrow>
    (hash_exit + 'e hash_mem \<times> ptr option \<times> ptr option) option" where
  "select_elem c p = (\<lambda>(N, dst, last_elt). do {
     N \<leftarrow> upd_elem N p (\<lambda>d. d\<lparr>hh_key := hh_key c, hh_keylen := hh_keylen c, hh_hashv := hh_hashv c\<rparr>);
     N \<leftarrow> upd_elem N p (\<lambda>d. d\<lparr>prv := last_elt\<rparr>);
     N \<leftarrow> upd_elem N p (\<lambda>d. d\<lparr>nxt := None\<rparr>);
     N \<leftarrow> (case last_elt of Some l \<Rightarrow> upd_elem N l (\<lambda>d. d\<lparr>nxt := Some p\<rparr>) | None \<Rightarrow> Some N);
     hash_bind (case dst of
          None \<Rightarrow> hash_bind (HASH_MAKE_TABLE N p) (\<lambda>N. Some (Inr (N, p)))
        | Some q \<Rightarrow> do { (t, T) \<leftarrow> table_of N q; N \<leftarrow> upd_elem N p (\<lambda>d. d\<lparr>hh_tbl := Some t\<rparr>); Some (Inr (N, q)) })
       (\<lambda>(N, q). do {
          (t, T) \<leftarrow> table_of N p;
          hash_bind (HASH_ADD_TO_BKT N t (HASH_TO_BKT (hh_hashv c) (num_buckets T)) p) (\<lambda>N. do {
            (t, T) \<leftarrow> table_of N q;
            N \<leftarrow> upd_table N t (\<lambda>T. T\<lparr>num_items := num_items T + 1\<rparr>);
            Some (Inr (N, Some q, Some p))
          })
        })
   })"

partial_function (option) select_chain :: "(ptr \<Rightarrow> bool) \<Rightarrow> 'a elem_heap \<Rightarrow> ptr option \<Rightarrow> 'e hash_mem \<times> ptr option \<times> ptr option \<Rightarrow>
    (hash_exit + 'e hash_mem \<times> ptr option \<times> ptr option) option" where
  "select_chain cond h src_hh s =
     (case src_hh of
        None \<Rightarrow> Some (Inr s)
      | Some p \<Rightarrow> do {
          c \<leftarrow> load h p;
          r \<leftarrow> (if cond p then select_elem c p s else Some (Inr s));
          (case r of Inl e \<Rightarrow> Some (Inl e) | Inr s \<Rightarrow> select_chain cond h (hh_next c) s)
        })"

fun select_buckets :: "(ptr \<Rightarrow> bool) \<Rightarrow> 'a elem_heap \<Rightarrow> UT_hash_bucket list \<Rightarrow> 'e hash_mem \<times> ptr option \<times> ptr option \<Rightarrow>
    (hash_exit + 'e hash_mem \<times> ptr option \<times> ptr option) option" where
  "select_buckets cond h [] s = Some (Inr s)"
| "select_buckets cond h (b # bs) s = hash_bind (select_chain cond h (hh_head b) s) (select_buckets cond h bs)"

definition HASH_SELECT :: "'e hash_mem \<Rightarrow> ptr option \<Rightarrow> 'a hash_mem \<Rightarrow> ptr option \<Rightarrow> (ptr \<Rightarrow> bool) \<Rightarrow>
    (hash_exit + 'e hash_mem \<times> ptr option) option" where
  "HASH_SELECT N dst M src cond =
     (case src of
        None \<Rightarrow> Some (Inr (N, dst))
      | Some s \<Rightarrow> do {
          (t, T) \<leftarrow> table_of M s;
          bs \<leftarrow> (if unat (num_buckets T) \<le> length (buckets T) then Some (take (unat (num_buckets T)) (buckets T)) else None);
          hash_bind (select_buckets cond (elems M) bs (N, dst, None)) (\<lambda>(N, dst, last_elt). Some (Inr (N, dst)))
        })"

subsection \<open>What a selection builds\<close>

text \<open>Like \<^const>\<open>hash_rep\<close>, except that the tail of the table is the first element.\<close>

definition selected :: "(u8 list \<Rightarrow> u32 \<Rightarrow> u32 \<times> u32) \<Rightarrow> 'e hash_mem \<Rightarrow> ptr option \<Rightarrow> ptr list \<Rightarrow> bool" where
  "selected fcn N dst qs \<longleftrightarrow> distinct qs \<and> dst = first qs None \<and> nexts (view nxt (elems N)) qs None \<and>
     prevs (view prv (elems N)) None qs \<and> length qs < 2 ^ 32 \<and> (\<forall>p \<in> set qs. filed fcn (elems N) p) \<and>
     (qs \<noteq> [] \<longrightarrow> (\<exists>t T. table_ok N t T (set qs) \<and> tbl_tail T = Some (hd qs) \<and> num_items T = of_nat (length qs) \<and>
        (\<forall>p \<in> set qs. view hh_tbl (elems N) p = Some (Some t))))"

text \<open>The stores before the element is filed.\<close>

lemma select_links:
  fixes h :: "'e elem_heap" and k n v
  assumes al: "alive h p" "\<forall>q \<in> set qs. alive h q" and qs: "p \<notin> set qs" "distinct qs"
    and ord: "nexts (view nxt h) qs None" "prevs (view prv h) None qs"
  defines "h0 \<equiv> upd (upd (upd h p (\<lambda>d. d\<lparr>hh_key := k, hh_keylen := n, hh_hashv := v\<rparr>)) p (\<lambda>d. d\<lparr>prv := final None qs\<rparr>)) p (\<lambda>d. d\<lparr>nxt := None\<rparr>)"
  defines "h1 \<equiv> (case final None qs of Some l \<Rightarrow> upd h0 l (\<lambda>d. d\<lparr>nxt := Some p\<rparr>) | None \<Rightarrow> h0)"
  shows "nexts (view nxt h1) (qs @ [p]) None" "prevs (view prv h1) None (qs @ [p])" "view hh_next h1 = view hh_next h" "view hh_prev h1 = view hh_prev h"
    "\<And>q. q \<noteq> p \<Longrightarrow> view info h1 q = view info h q" "alive h1 = alive h" "\<exists>d. cells h1 p = Some d \<and> hh_key d = k \<and> hh_keylen d = n \<and> hh_hashv d = v"
    "\<And>l. final None qs = Some l \<Longrightarrow> alive h0 l"
proof -
  have l: "l \<in> set qs \<and> alive h l \<and> l \<noteq> p" if "final None qs = Some l" for l
    using final_in_set [OF that] al(2) qs(1) by auto
  have key: "view g (upd h p (\<lambda>d. d\<lparr>hh_key := k, hh_keylen := n, hh_hashv := v\<rparr>)) = view g h" if "g = hh_next \<or> g = hh_prev \<or> g = nxt \<or> g = prv" for g
    using that by (intro view_upd_other) auto
  have n: "view nxt h1 = opt_upd ((view nxt h)(p \<mapsto> None)) (final None qs) (Some p)"
    using al(1) l by (auto simp: h1_def h0_def view_simps key split: option.splits)
  have p: "view prv h1 = (view prv h)(p \<mapsto> final None qs)"
    using al(1) by (auto simp: h1_def h0_def view_simps key split: option.splits)
  show "view hh_next h1 = view hh_next h" "view hh_prev h1 = view hh_prev h" "alive h1 = alive h"
    by (auto simp: h1_def h0_def view_simps key split: option.splits)
  show "prevs (view prv h1) None (qs @ [p])" unfolding p using ord(2) qs(1) by simp
  show "nexts (view nxt h1) (qs @ [p]) None" unfolding n using ord(1) qs by (cases qs rule: rev_cases) auto
  show "view info h1 q = view info h q" if "q \<noteq> p" for q
    using that by (auto simp: h1_def h0_def view_simps split: option.splits) (simp_all add: view_def upd_def)
  show "\<exists>d. cells h1 p = Some d \<and> hh_key d = k \<and> hh_keylen d = n \<and> hh_hashv d = v"
    using al(1) l by (auto simp: h1_def h0_def alive_def upd_def split: option.splits)
  show "alive h0 l" if "final None qs = Some l" for l using l [OF that] by (simp add: h0_def upd_extent)
qed

lemma info_field:
  assumes "view info h' p = view info h p"
  shows "view hh_tbl h' p = view hh_tbl h p" "view hh_hashv h' p = view hh_hashv h p"
  using assms by (cases "cells h p"; cases "cells h' p"; simp add: view_def info_def)+

text \<open>The element and its table before it is filed in a bucket.\<close>

definition to_file :: "'a UT_hash_handle_scheme \<Rightarrow> ptr \<Rightarrow> 'e elem_heap \<Rightarrow> 'e hash_mem \<Rightarrow> ptr \<Rightarrow> UT_hash_table \<Rightarrow> ptr list \<Rightarrow> bool" where
  "to_file c p h N t T qs \<longleftrightarrow> table_ok N t T (set qs) \<and> tbl_tail T = Some (hd (qs @ [p])) \<and> num_items T = of_nat (length qs) \<and>
     (qs = [] \<longrightarrow> num_buckets T = 32 \<and> (\<forall>i < 32. expand_mult (buckets T ! i) = 0)) \<and>
     (\<forall>q \<in> set (qs @ [p]). view hh_tbl (elems N) q = Some (Some t)) \<and>
     nexts (view nxt (elems N)) (qs @ [p]) None \<and> prevs (view prv (elems N)) None (qs @ [p]) \<and>
     (\<forall>q. q \<noteq> p \<longrightarrow> view info (elems N) q = view info h q) \<and> alive (elems N) = alive h \<and>
     (\<exists>d. cells (elems N) p = Some d \<and> hh_key d = hh_key c \<and> hh_keylen d = hh_keylen c \<and> hh_hashv d = hh_hashv c)"

lemma select_prepare:
  assumes r: "selected fcn N dst qs" and p: "p \<notin> set qs" "alive (elems N) p"
  shows "select_elem c p (N, dst, final None qs) = Some (Inl Out_of_memory) \<and>
      (qs = [] \<and> limit (tables N) \<le> brk (tables N) \<or> bkt_room N < 32) \<or>
    (\<exists>N' t T. to_file c p (elems N) N' t T qs \<and> bkt_room N' = bkt_room N \<and> unat (num_buckets T) \<le> hash_size N dst \<and>
       select_elem c p (N, dst, final None qs) =
         hash_bind (HASH_ADD_TO_BKT N' t (HASH_TO_BKT (hh_hashv c) (num_buckets T)) p) (\<lambda>N. do {
            (t, T) \<leftarrow> table_of N (hd (qs @ [p]));
            N \<leftarrow> upd_table N t (\<lambda>T. T\<lparr>num_items := num_items T + 1\<rparr>);
            Some (Inr (N, Some (hd (qs @ [p])), Some p))
          }))"
proof -
  have s: "distinct qs" "dst = first qs None" "nexts (view nxt (elems N)) qs None" "prevs (view prv (elems N)) None qs"
    using r unfolding selected_def by blast+
  have al: "\<forall>q \<in> set qs. alive (elems N) q" using nexts_Some [OF s(3)] by (blast dest: view_alive)
  define h0 where "h0 = upd (upd (upd (elems N) p (\<lambda>d. d\<lparr>hh_key := hh_key c, hh_keylen := hh_keylen c, hh_hashv := hh_hashv c\<rparr>)) p (\<lambda>d. d\<lparr>prv := final None qs\<rparr>)) p (\<lambda>d. d\<lparr>nxt := None\<rparr>)"
  define h1 where "h1 = (case final None qs of Some l \<Rightarrow> upd h0 l (\<lambda>d. d\<lparr>nxt := Some p\<rparr>) | None \<Rightarrow> h0)"
  note l = select_links [OF p(2) al p(1) s(1,3,4), where k = "hh_key c" and n = "hh_keylen c" and v = "hh_hashv c", folded h0_def, folded h1_def]
  obtain d where d: "cells h1 p = Some d" "hh_key d = hh_key c" "hh_keylen d = hh_keylen c" "hh_hashv d = hh_hashv c" using l(7) by blast
  have al1: "alive h1 p" using l(6) p(2) by simp
  have lk: "(case final None qs of Some l \<Rightarrow> upd_elem (N\<lparr>elems := h0\<rparr>) l (\<lambda>d. d\<lparr>nxt := Some p\<rparr>) | None \<Rightarrow> Some (N\<lparr>elems := h0\<rparr>)) = Some (N\<lparr>elems := h1\<rparr>)"
    using l(8) by (auto simp: h1_def upd_elem_Some split: option.splits)
  have run: "select_elem c p (N, dst, final None qs) = hash_bind (case dst of
          None \<Rightarrow> hash_bind (HASH_MAKE_TABLE (N\<lparr>elems := h1\<rparr>) p) (\<lambda>N. Some (Inr (N, p)))
        | Some q \<Rightarrow> do { (t, T) \<leftarrow> table_of (N\<lparr>elems := h1\<rparr>) q; N \<leftarrow> upd_elem (N\<lparr>elems := h1\<rparr>) p (\<lambda>d. d\<lparr>hh_tbl := Some t\<rparr>); Some (Inr (N, q)) })
       (\<lambda>(N, q). do {
          (t, T) \<leftarrow> table_of N p;
          hash_bind (HASH_ADD_TO_BKT N t (HASH_TO_BKT (hh_hashv c) (num_buckets T)) p) (\<lambda>N. do {
            (t, T) \<leftarrow> table_of N q;
            N \<leftarrow> upd_table N t (\<lambda>T. T\<lparr>num_items := num_items T + 1\<rparr>);
            Some (Inr (N, Some q, Some p))
          })
        })"
    using p(2) lk [unfolded h0_def] by (simp add: select_elem_def upd_elem_Some upd_extent)
  have filed: "to_file c p (elems N) N' t T qs"
    if e: "elems N' = upd h1 p (\<lambda>d. d\<lparr>hh_tbl := Some t\<rparr>)" and T: "table_ok N' t T (set qs)" "tbl_tail T = Some (hd (qs @ [p]))"
      "num_items T = of_nat (length qs)" "qs = [] \<longrightarrow> num_buckets T = 32 \<and> (\<forall>i < 32. expand_mult (buckets T ! i) = 0)"
      and tbl: "\<forall>q \<in> set qs. view hh_tbl h1 q = Some (Some t)" for N' t T
  proof -
    have "view nxt (elems N') = view nxt h1" "view prv (elems N') = view prv h1" "alive (elems N') = alive h1"
      unfolding e by (auto intro!: view_upd_other simp: upd_extent)
    moreover have "view hh_tbl (elems N') q = Some (Some t)" if "q \<in> set (qs @ [p])" for q
      using that tbl al1 unfolding e by (auto simp: view_next)
    moreover have "view info (elems N') q = view info (elems N) q" if "q \<noteq> p" for q
      using l(5) [OF that] that unfolding e by (simp add: view_def upd_def)
    moreover have "\<exists>d. cells (elems N') p = Some d \<and> hh_key d = hh_key c \<and> hh_keylen d = hh_keylen c \<and> hh_hashv d = hh_hashv c"
      using d unfolding e by (simp add: upd_def)
    ultimately show ?thesis using T l(1,2,6) unfolding to_file_def by metis
  qed
  show ?thesis
  proof (cases "qs = []")
    case True
    from make_table_ok [of "N\<lparr>elems := h1\<rparr>" p] al1 consider "HASH_MAKE_TABLE (N\<lparr>elems := h1\<rparr>) p = Some (Inl Out_of_memory)"
         "limit (tables N) \<le> brk (tables N) \<or> bkt_room N < 32"
      | N' t T where "HASH_MAKE_TABLE (N\<lparr>elems := h1\<rparr>) p = Some (Inr N')" "table_ok N' t T {}" "tbl_tail T = Some p" "num_items T = 0"
         "\<forall>i < 32. expand_mult (buckets T ! i) = 0" "num_buckets T = 32" "elems N' = upd h1 p (\<lambda>c. c\<lparr>hh_tbl := Some t\<rparr>)" "bkt_room N' = bkt_room N"
      by auto
    then show ?thesis
    proof cases
      case 1
      then show ?thesis unfolding run using True s(2) by (auto simp: hash_bind_def)
    next
      case (2 N' t T)
      have f: "to_file c p (elems N) N' t T qs" using 2 True by (intro filed) auto
      have "table_of N' p = Some (t, T)" using f by (intro table_of_Some) (auto simp: to_file_def table_ok_def)
      then show ?thesis unfolding run using f 2(1,6,8) True s(2)
        by (intro disjI2 exI [of _ N'] exI [of _ t] exI [of _ T]) (simp add: hash_bind_simps hash_size_def)
    qed
  next
    case False
    obtain t T where t: "table_ok N t T (set qs)" "tbl_tail T = Some (hd qs)" "num_items T = of_nat (length qs)"
        "\<forall>q \<in> set qs. view hh_tbl (elems N) q = Some (Some t)"
      using r False unfolding selected_def by blast
    have dst: "dst = Some (hd qs)" "hd qs \<in> set qs" "hd (qs @ [p]) = hd qs" using s(2) False by (cases qs; simp)+
    have i: "view info h1 q = view info (elems N) q" if "q \<in> set qs" for q using that p(1) l(5) by metis
    have tb: "\<forall>q \<in> set qs. view hh_tbl h1 q = Some (Some t)" and hv: "\<forall>q \<in> set qs. view hh_hashv h1 q = view hh_hashv (elems N) q"
      using t(4) info_field [OF i] by auto
    define N' where "N' = N\<lparr>elems := upd h1 p (\<lambda>d. d\<lparr>hh_tbl := Some t\<rparr>)\<rparr>"
    have Tc: "cells (tables N) t = Some T" using t(1) by (simp add: table_ok_def)
    have "table_of N (hd qs) = Some (t, T)" using t(4) dst(2) Tc by (intro table_of_Some) auto
    then have sz: "unat (num_buckets T) \<le> hash_size N dst" using dst(1) by (simp add: hash_size_def)
    have "table_ok N' t T (set qs)"
    proof (rule table_ok_frame [OF t(1)])
      fix q assume "q \<in> set qs"
      then have "q \<noteq> p" "view hh_hashv h1 q = view hh_hashv (elems N) q" using p(1) hv by auto
      then show "view hh_next (elems N') q = view hh_next (elems N) q" "view hh_prev (elems N') q = view hh_prev (elems N) q"
        "view hh_hashv (elems N') q = view hh_hashv (elems N) q"
        using l(3,4) [symmetric] by (simp_all add: N'_def view_def upd_def)
    qed (simp_all add: N'_def Tc)
    then have f: "to_file c p (elems N) N' t T qs" using t False tb dst(3) by (intro filed) (auto simp: N'_def)
    then have "table_of N' p = Some (t, T)" by (intro table_of_Some) (auto simp: to_file_def table_ok_def)
    moreover have "table_of (N\<lparr>elems := h1\<rparr>) (hd qs) = Some (t, T)" using tb dst(2) Tc by (intro table_of_Some) auto
    ultimately show ?thesis unfolding run using f al1 dst sz
      by (intro disjI2 exI [of _ N'] exI [of _ t] exI [of _ T]) (simp add: hash_bind_simps upd_elem_Some N'_def)
  qed
qed

text \<open>A stretch of the loop that has put the elements \<open>ds\<close> behind \<open>qs\<close> into the hash, and too little memory for it.\<close>

definition put_in :: "(u8 list \<Rightarrow> u32 \<Rightarrow> u32 \<times> u32) \<Rightarrow> 'a elem_heap \<Rightarrow> 'e hash_mem \<Rightarrow> ptr option \<Rightarrow> ptr list \<Rightarrow> ptr list \<Rightarrow>
    'e hash_mem \<Rightarrow> ptr option \<Rightarrow> bool" where
  "put_in fcn h N dst qs ds N' dst' \<longleftrightarrow> selected fcn N' dst' (qs @ ds) \<and> (\<forall>q. q \<notin> set ds \<longrightarrow> view info (elems N') q = view info (elems N) q) \<and>
     (\<forall>p \<in> set ds. key_of (elems N') p = key_of h p) \<and> alive (elems N') = alive (elems N) \<and> bkt_room N' = bkt_room N \<and>
     hash_size N' dst' \<le> hash_size N dst * 2 ^ length ds \<and> (ds = [] \<longrightarrow> tables N' = tables N)"

definition no_room :: "'e hash_mem \<Rightarrow> ptr option \<Rightarrow> ptr list \<Rightarrow> ptr list \<Rightarrow> bool" where
  "no_room N dst qs ds \<longleftrightarrow> qs = [] \<and> limit (tables N) \<le> brk (tables N) \<or> bkt_room N < hash_size N dst * 2 ^ length ds"

context hash_function
begin

lemma select_elem_ok:
  assumes r: "selected fcn N dst qs" and p: "p \<notin> set qs" "alive (elems N) p" "Suc (length qs) < 2 ^ 32"
    and c: "unat (hh_keylen c) \<le> length (hh_key c)" "hh_hashv c = fst (fcn (take (unat (hh_keylen c)) (hh_key c)) 0)"
    and room: "bkt_room N \<le> 2 ^ 30"
  shows "select_elem c p (N, dst, final None qs) = Some (Inl Out_of_memory) \<and>
      (qs = [] \<and> limit (tables N) \<le> brk (tables N) \<or> bkt_room N < 2 * hash_size N dst) \<or>
    (\<exists>N' dst'. select_elem c p (N, dst, final None qs) = Some (Inr (N', dst', final None (qs @ [p]))) \<and> selected fcn N' dst' (qs @ [p]) \<and>
       (\<forall>q. q \<noteq> p \<longrightarrow> view info (elems N') q = view info (elems N) q) \<and> key_of (elems N') p = take (unat (hh_keylen c)) (hh_key c) \<and>
       alive (elems N') = alive (elems N) \<and> bkt_room N' = bkt_room N \<and> hash_size N' dst' \<le> 2 * hash_size N dst)"
proof -
  from select_prepare [OF r p(1,2), of c] show ?thesis
  proof (elim disjE exE conjE)
    fix N1 t T
    assume 1: "to_file c p (elems N) N1 t T qs" "bkt_room N1 = bkt_room N" "unat (num_buckets T) \<le> hash_size N dst" "select_elem c p (N, dst, final None qs) =
         hash_bind (HASH_ADD_TO_BKT N1 t (HASH_TO_BKT (hh_hashv c) (num_buckets T)) p) (\<lambda>N. do {
            (t, T) \<leftarrow> table_of N (hd (qs @ [p]));
            N \<leftarrow> upd_table N t (\<lambda>T. T\<lparr>num_items := num_items T + 1\<rparr>);
            Some (Inr (N, Some (hd (qs @ [p])), Some p))
          })"
    let ?bkt = "HASH_TO_BKT (hh_hashv c) (num_buckets T)"
    note room1 = 1(2) and size1 = 1(3) and run1 = 1(4)
    obtain d where d: "cells (elems N1) p = Some d" "hh_key d = hh_key c" "hh_keylen d = hh_keylen c" "hh_hashv d = hh_hashv c"
      using 1(1) unfolding to_file_def by blast
    have ok: "table_ok N1 t T (set qs)" "num_items T = of_nat (length qs)" "tbl_tail T = Some (hd (qs @ [p]))"
      "qs = [] \<longrightarrow> num_buckets T = 32 \<and> (\<forall>i < 32. expand_mult (buckets T ! i) = 0)"
      using 1(1) unfolding to_file_def by blast+
    have tb1: "\<forall>q \<in> set (qs @ [p]). view hh_tbl (elems N1) q = Some (Some t)" and ord: "nexts (view nxt (elems N1)) (qs @ [p]) None"
      "prevs (view prv (elems N1)) None (qs @ [p])" and i: "\<And>q. q \<noteq> p \<Longrightarrow> view info (elems N1) q = view info (elems N) q"
      and al: "alive (elems N1) = alive (elems N)"
      using 1(1) unfolding to_file_def by blast+
    have b: "unat ?bkt = bucket_of (elems N1) (num_buckets T) p" using d by (simp add: bucket_of_def view_def)
    have n: "num_items T \<noteq> 0 \<or> set qs = {} \<and> expand_mult (buckets T ! unat ?bkt) = 0"
    proof (cases "qs = []")
      case True
      then have "num_buckets T = 2 ^ 5" "\<forall>i < 32. expand_mult (buckets T ! i) = 0" using ok(4) by simp_all
      moreover from this have "unat ?bkt < 32" using bucket_less [of 5 "hh_hashv c"] by simp
      ultimately show ?thesis using True by simp
    next
      case False
      then show ?thesis using ok(2) unat_u32_of_nat [of "length qs"] p(3) by (metis Suc_lessD length_0_conv unat_0)
    qed
    have "alive (elems N1) p" "view hh_tbl (elems N1) p = Some (Some t)" "bkt_room N1 \<le> 2 ^ 30" using al tb1 p(2) 1(2) room by auto
    from add_to_bkt_ok [OF ok(1) p(1) this(1,2) b n this(3)] consider "HASH_ADD_TO_BKT N1 t ?bkt p = Some (Inl Out_of_memory)" "bkt_room N < 2 * unat (num_buckets T)"
      | N2 T2 where "HASH_ADD_TO_BKT N1 t ?bkt p = Some (Inr N2)" "table_ok N2 t T2 (insert p (set qs))" "rebucketed (elems N1) (elems N2)"
         "num_items T2 = of_nat (length qs)" "tbl_tail T2 = Some (hd (qs @ [p]))" "other_tables t N1 N2" "unat (num_buckets T2) \<le> 2 * unat (num_buckets T)"
      using ok(2,3) room1 by auto
    then show ?thesis
    proof cases
      case 1
      then show ?thesis using run1 size1 by (simp add: hash_bind_simps)
    next
      case (2 N2 T2)
      have v: "view nxt (elems N2) = view nxt (elems N1)" "view prv (elems N2) = view prv (elems N1)" "view info (elems N2) = view info (elems N1)"
        using 2(3) by (auto simp: rebucketed_def)
      define T3 where "T3 = T2\<lparr>num_items := num_items T2 + 1\<rparr>"
      define N3 where "N3 = N2\<lparr>tables := (tables N2)\<lparr>cells := (cells (tables N2))(t \<mapsto> T3)\<rparr>\<rparr>"
      have tb: "\<forall>q \<in> set (qs @ [p]). view hh_tbl (elems N2) q = Some (Some t)" using tb1 info_fields(2) [OF v(3)] by simp
      have T2: "cells (tables N2) t = Some T2" using 2(2) by (simp add: table_ok_def)
      have "hd (qs @ [p]) \<in> set (qs @ [p])" by (rule hd_in_set) simp
      then have "table_of N2 (hd (qs @ [p])) = Some (t, T2)" using tb T2 by (intro table_of_Some) auto
      then have run: "select_elem c p (N, dst, final None qs) = Some (Inr (N3, Some (hd (qs @ [p])), final None (qs @ [p])))"
        using run1 2(1) T2 by (simp add: hash_bind_simps upd_table_Some N3_def T3_def)
      have "table_ok N3 t T3 (insert p (set qs))" by (rule table_ok_frame [OF 2(2)]) (simp_all add: N3_def T3_def)
      then have "table_ok N3 t T3 (set (qs @ [p]))" by simp
      moreover have "filed fcn (elems N3) q" if "q \<in> set (qs @ [p])" for q
      proof (cases "q = p")
        case True
        have "filed fcn (elems N1) p" using d c by (simp add: filed_def)
        then show ?thesis using True info_cells(2) [OF fun_cong [OF v(3)], of fcn p] by (simp add: N3_def)
      next
        case False
        then have "filed fcn (elems N) q" "view info (elems N2) q = view info (elems N) q" using that r i v(3) by (auto simp: selected_def)
        then show ?thesis using info_cells(2) [of "elems N2" q "elems N" fcn] by (simp add: N3_def)
      qed
      moreover have "tbl_tail T3 = Some (hd (qs @ [p]))" "num_items T3 = of_nat (length (qs @ [p]))" using 2(4,5) by (simp_all add: T3_def)
      moreover have "Some (hd (qs @ [p])) = first (qs @ [p]) None" by (cases qs) auto
      moreover have "distinct (qs @ [p])" using r p(1) by (simp add: selected_def)
      ultimately have "selected fcn N3 (Some (hd (qs @ [p]))) (qs @ [p])"
        using ord tb p(3) unfolding selected_def by (auto simp: N3_def v)
      moreover have "key_of (elems N3) p = take (unat (hh_keylen c)) (hh_key c)"
        using d info_cells(1) [OF fun_cong [OF v(3)], of p] by (simp add: N3_def key_of_def)
      moreover have "\<forall>q. q \<noteq> p \<longrightarrow> view info (elems N3) q = view info (elems N) q" using i v(3) by (simp add: N3_def)
      moreover have "alive (elems N3) = alive (elems N)" using al info_fields(5) [OF v(3)] by (simp add: N3_def)
      moreover have "bkt_room N3 = bkt_room N" using 2(6) room1 by (simp add: N3_def other_tables_def)
      moreover have "table_of N3 (hd (qs @ [p])) = Some (t, T3)"
        using tb \<open>hd (qs @ [p]) \<in> set (qs @ [p])\<close> by (intro table_of_Some) (auto simp: N3_def)
      then have "hash_size N3 (Some (hd (qs @ [p]))) \<le> 2 * hash_size N dst" using 2(7) size1 by (simp add: hash_size_def T3_def)
      ultimately show ?thesis using run by blast
    qed
  qed (auto simp: hash_size_def)
qed

lemma put_in_trans:
  assumes "put_in fcn h N dst qs ds N' dst'" and "put_in fcn h N' dst' (qs @ ds) es N'' dst''" and "set ds \<inter> set es = {}"
  shows "put_in fcn h N dst qs (ds @ es) N'' dst''"
proof -
  have "hash_size N'' dst'' \<le> hash_size N' dst' * 2 ^ length es" using assms(2) by (simp add: put_in_def)
  also have "\<dots> \<le> hash_size N dst * 2 ^ length ds * 2 ^ length es" using assms(1) by (intro mult_le_mono1) (simp add: put_in_def)
  finally have "hash_size N'' dst'' \<le> hash_size N dst * 2 ^ length (ds @ es)" by (simp add: power_add mult.assoc)
  moreover have "key_of (elems N'') p = key_of h p" if "p \<in> set ds" for p
    using assms that info_cells(1) [of "elems N''" p "elems N'"] by (auto simp: put_in_def)
  ultimately show ?thesis using assms by (auto simp: put_in_def)
qed

lemma no_room_trans:
  assumes "put_in fcn h N dst qs ds N' dst'" and "no_room N' dst' (qs @ ds) es"
  shows "no_room N dst qs (ds @ es)"
proof -
  have "hash_size N' dst' * 2 ^ length es \<le> hash_size N dst * 2 ^ length ds * 2 ^ length es"
    using assms(1) by (intro mult_le_mono1) (simp add: put_in_def)
  then have "hash_size N' dst' * 2 ^ length es \<le> hash_size N dst * 2 ^ length (ds @ es)" by (simp only: power_add mult.assoc length_append)
  then show ?thesis using assms unfolding no_room_def put_in_def by (metis append_is_Nil_conv less_le_trans)
qed

lemma no_room_mono:
  assumes "no_room N dst qs ds"
  shows "no_room N dst qs (ds @ es)"
proof -
  have "hash_size N dst * 2 ^ length ds \<le> hash_size N dst * 2 ^ length (ds @ es)" by (intro mult_le_mono2 power_increasing) auto
  then show ?thesis using assms unfolding no_room_def by (metis less_le_trans)
qed

lemma select_chain_ok:
  assumes "selected fcn N dst qs" and "nexts (view hh_next h) c None" "distinct (qs @ c)" "\<forall>p \<in> set c. filed fcn h p \<and> alive (elems N) p"
    "length (qs @ c) < 2 ^ 32" "bkt_room N \<le> 2 ^ 30"
  shows "select_chain cond h (first c None) (N, dst, final None qs) = Some (Inl Out_of_memory) \<and> no_room N dst qs (filter cond c) \<or>
    (\<exists>N' dst'. select_chain cond h (first c None) (N, dst, final None qs) = Some (Inr (N', dst', final None (qs @ filter cond c))) \<and>
       put_in fcn h N dst qs (filter cond c) N' dst')"
  using assms
proof (induction c arbitrary: N dst qs)
  case Nil
  then show ?case by (subst (1 2) select_chain.simps) (auto simp: put_in_def)
next
  case (Cons p c)
  obtain d where d: "cells h p = Some d" "hh_next d = first c None" using Cons.prems(2) by (auto simp: view_def)
  have fd: "unat (hh_keylen d) \<le> length (hh_key d)" "hh_hashv d = fst (fcn (take (unat (hh_keylen d)) (hh_key d)) 0)"
    using Cons.prems(4) d(1) by (auto simp: filed_def)
  have rest: "nexts (view hh_next h) c None" "\<forall>q \<in> set c. filed fcn h q" using Cons.prems(2,4) by auto
  show ?case
  proof (cases "cond p")
    case False
    have "select_chain cond h (first (p # c) None) (N, dst, final None qs) = select_chain cond h (first c None) (N, dst, final None qs)"
      using False d by (subst select_chain.simps) (simp add: load_def)
    with Cons.IH [OF Cons.prems(1) rest(1)] Cons.prems False show ?thesis by auto
  next
    case True
    have "p \<notin> set qs" "alive (elems N) p" "Suc (length qs) < 2 ^ 32" using Cons.prems by auto
    from select_elem_ok [OF Cons.prems(1) this fd Cons.prems(6)] show ?thesis
    proof (elim disjE conjE exE)
      fix N1 dst1
      assume 1: "select_elem d p (N, dst, final None qs) = Some (Inr (N1, dst1, final None (qs @ [p])))" "selected fcn N1 dst1 (qs @ [p])"
        "\<forall>q. q \<noteq> p \<longrightarrow> view info (elems N1) q = view info (elems N) q" "key_of (elems N1) p = take (unat (hh_keylen d)) (hh_key d)"
        "alive (elems N1) = alive (elems N)" "bkt_room N1 = bkt_room N" "hash_size N1 dst1 \<le> 2 * hash_size N dst"
      have put: "put_in fcn h N dst qs [p] N1 dst1" using 1 d(1) by (simp add: put_in_def key_of_def)
      have step: "select_chain cond h (first (p # c) None) (N, dst, final None qs) = select_chain cond h (first c None) (N1, dst1, final None (qs @ [p]))"
        using True d 1(1) by (subst select_chain.simps) (simp add: load_def)
      have pre: "distinct ((qs @ [p]) @ c)" "\<forall>q \<in> set c. filed fcn h q \<and> alive (elems N1) q" "length ((qs @ [p]) @ c) < 2 ^ 32" "bkt_room N1 \<le> 2 ^ 30"
        using Cons.prems(3-6) 1(5,6) by auto
      have dj: "set [p] \<inter> set (filter cond c) = {}" using Cons.prems(3) by auto
      have f: "filter cond (p # c) = [p] @ filter cond c" using True by simp
      from Cons.IH [OF 1(2) rest(1) pre] show ?thesis unfolding step f
        using put_in_trans [OF put _ dj] no_room_trans [OF put] by (metis append.assoc)
    next
      assume 1: "select_elem d p (N, dst, final None qs) = Some (Inl Out_of_memory)" "qs = []" "limit (tables N) \<le> brk (tables N)"
      then show ?thesis using True d by (subst select_chain.simps) (simp add: load_def no_room_def)
    next
      assume 1: "select_elem d p (N, dst, final None qs) = Some (Inl Out_of_memory)" "bkt_room N < 2 * hash_size N dst"
      then have "no_room N dst qs [p]" by (simp add: no_room_def)
      from no_room_mono [OF this, of "filter cond c"] show ?thesis using True d 1(1) by (subst select_chain.simps) (simp add: load_def)
    qed
  qed
qed

lemma select_buckets_ok:
  assumes "selected fcn N dst qs" and "\<forall>c \<in> set os. nexts (view hh_next h) c None" "distinct (qs @ concat os)"
    "\<forall>p \<in> set (concat os). filed fcn h p \<and> alive (elems N) p" "length (qs @ concat os) < 2 ^ 32" "bkt_room N \<le> 2 ^ 30"
    "map hh_head bs = map (\<lambda>c. first c None) os"
  shows "select_buckets cond h bs (N, dst, final None qs) = Some (Inl Out_of_memory) \<and> no_room N dst qs (filter cond (concat os)) \<or>
    (\<exists>N' dst'. select_buckets cond h bs (N, dst, final None qs) = Some (Inr (N', dst', final None (qs @ filter cond (concat os)))) \<and>
       put_in fcn h N dst qs (filter cond (concat os)) N' dst')"
  using assms
proof (induction os arbitrary: N dst qs bs)
  case Nil
  then show ?case by (auto simp: put_in_def)
next
  case (Cons c os)
  then obtain b bs' where bs: "bs = b # bs'" "hh_head b = first c None" "map hh_head bs' = map (\<lambda>c. first c None) os" by auto
  have f: "filter cond (concat (c # os)) = filter cond c @ filter cond (concat os)" by simp
  have "nexts (view hh_next h) c None" "distinct (qs @ c)" "\<forall>p \<in> set c. filed fcn h p \<and> alive (elems N) p" "length (qs @ c) < 2 ^ 32"
    using Cons.prems(2-5) by auto
  from select_chain_ok [OF Cons.prems(1) this Cons.prems(6), of cond] show ?case
  proof (elim disjE exE conjE)
    fix N1 dst1
    assume 1: "select_chain cond h (first c None) (N, dst, final None qs) = Some (Inr (N1, dst1, final None (qs @ filter cond c)))"
      "put_in fcn h N dst qs (filter cond c) N1 dst1"
    have step: "select_buckets cond h bs (N, dst, final None qs) = select_buckets cond h bs' (N1, dst1, final None (qs @ filter cond c))"
      using 1(1) bs by (simp add: hash_bind_simps)
    have s1: "selected fcn N1 dst1 (qs @ filter cond c)" "alive (elems N1) = alive (elems N)" "bkt_room N1 = bkt_room N"
      using 1(2) by (auto simp: put_in_def)
    have "length ((qs @ filter cond c) @ concat os) \<le> length (qs @ concat (c # os))" by simp
    then have len: "length ((qs @ filter cond c) @ concat os) < 2 ^ 32" using Cons.prems(5) by (rule le_less_trans)
    have pre: "\<forall>c \<in> set os. nexts (view hh_next h) c None" "distinct ((qs @ filter cond c) @ concat os)"
      "\<forall>p \<in> set (concat os). filed fcn h p \<and> alive (elems N1) p" "bkt_room N1 \<le> 2 ^ 30"
      using Cons.prems(2,3,4,6) s1(2,3) by auto
    have dj: "set (filter cond c) \<inter> set (filter cond (concat os)) = {}" using Cons.prems(3) by auto
    from Cons.IH [OF s1(1) pre(1-3) len pre(4) bs(3)] show ?thesis unfolding step f
      using put_in_trans [OF 1(2) _ dj] no_room_trans [OF 1(2)] by (metis append.assoc)
  next
    assume 1: "select_chain cond h (first c None) (N, dst, final None qs) = Some (Inl Out_of_memory)" "no_room N dst qs (filter cond c)"
    then show ?thesis unfolding f using bs no_room_mono [OF 1(2)] by (simp add: hash_bind_simps)
  qed
qed

lemma select_ok:
  assumes r: "hash_rep fcn M src ps" and al: "\<forall>p \<in> set ps. alive (elems N) p" and room: "bkt_room N \<le> 2 ^ 30"
  shows "\<exists>qs. distinct qs \<and> set qs = {p \<in> set ps. cond p} \<and>
    (HASH_SELECT N None M src cond = Some (Inl Out_of_memory) \<and> (limit (tables N) \<le> brk (tables N) \<or> bkt_room N < 32 * 2 ^ length qs) \<or>
     (\<exists>N' dst'. HASH_SELECT N None M src cond = Some (Inr (N', dst')) \<and> selected fcn N' dst' qs \<and>
        (\<forall>p \<in> set qs. key_of (elems N') p = key_of (elems M) p)))"
proof (cases "ps = []")
  case True
  with r show ?thesis by (intro exI [of _ "[]"]) (simp add: hash_rep_def HASH_SELECT_def selected_def)
next
  case False
  obtain t T where t: "src = Some (hd ps)" "table_of M (hd ps) = Some (t, T)" "table_ok M t T (set ps)"
    using hash_rep_table [OF r False] by blast
  from table_chains [OF t(3)] obtain os where os: "unat (num_buckets T) = length (buckets T)" "map hh_head (buckets T) = map (\<lambda>c. first c None) os"
    "distinct (concat os)" "set (concat os) = set ps" "\<forall>c \<in> set os. nexts (view hh_next (elems M)) c None" by blast
  have d: "distinct ps" "length ps < 2 ^ 32" "\<forall>p \<in> set ps. filed fcn (elems M) p" using r unfolding hash_rep_def by blast+
  then have "length (concat os) < 2 ^ 32" using os(3,4) by (metis distinct_card)
  moreover have "selected fcn N None []" by (simp add: selected_def)
  moreover have "\<forall>p \<in> set (concat os). filed fcn (elems M) p \<and> alive (elems N) p" unfolding os(4) using d(3) al by blast
  ultimately have "select_buckets cond (elems M) (buckets T) (N, None, final None []) = Some (Inl Out_of_memory) \<and> no_room N None [] (filter cond (concat os)) \<or>
    (\<exists>N' dst'. select_buckets cond (elems M) (buckets T) (N, None, final None []) = Some (Inr (N', dst', final None ([] @ filter cond (concat os)))) \<and>
       put_in fcn (elems M) N None [] (filter cond (concat os)) N' dst')"
    using os(2,3,5) room by (intro select_buckets_ok) simp_all
  moreover have "HASH_SELECT N None M src cond =
      hash_bind (select_buckets cond (elems M) (buckets T) (N, None, final None [])) (\<lambda>(N, dst, last_elt). Some (Inr (N, dst)))"
    using t os(1) by (simp add: HASH_SELECT_def)
  moreover have "distinct (filter cond (concat os))" "set (filter cond (concat os)) = {p \<in> set ps. cond p}"
    using os(3) unfolding os(4) [symmetric] by auto
  ultimately show ?thesis
    by (intro exI [of _ "filter cond (concat os)"]) (auto simp: hash_bind_simps no_room_def hash_size_def put_in_def simp del: set_filter set_concat)
qed

text \<open>With the tail put right a selection is a hash; lookups do not read the tail.\<close>

lemma selected_find:
  assumes r: "selected fcn N dst qs" and k: "unat keylen \<le> length keyptr"
  shows "\<exists>r. HASH_FIND fcn N dst keyptr keylen = Some r \<and>
    (case r of None \<Rightarrow> \<forall>p \<in> set qs. key_of (elems N) p \<noteq> take (unat keylen) keyptr
     | Some p \<Rightarrow> p \<in> set qs \<and> key_of (elems N) p = take (unat keylen) keyptr)"
proof (cases "qs = []")
  case True
  with r show ?thesis by (simp add: selected_def HASH_FIND_def)
next
  case False
  obtain t T where t: "table_ok N t T (set qs)" "num_items T = of_nat (length qs)" "\<forall>p \<in> set qs. view hh_tbl (elems N) p = Some (Some t)"
    using r False unfolding selected_def by blast
  define T' where "T' = T\<lparr>tbl_tail := Some (last qs)\<rparr>"
  define N' where "N' = N\<lparr>tables := (tables N)\<lparr>cells := (cells (tables N))(t \<mapsto> T')\<rparr>\<rparr>"
  have "table_ok N' t T' (set qs)" by (rule table_ok_frame [OF t(1)]) (simp_all add: N'_def T'_def)
  moreover have e: "elems N' = elems N" "tbl_tail T' = Some (last qs)" "num_items T' = num_items T" by (simp_all add: N'_def T'_def)
  ultimately have r': "hash_rep fcn N' dst qs" using r t(2,3) unfolding hash_rep_def selected_def by metis
  have dst: "dst = Some (hd qs)" using r False by (cases qs) (simp_all add: selected_def)
  have "cells (tables N) t = Some T" using t(1) by (simp add: table_ok_def)
  then have "table_of N (hd qs) = Some (t, T)" "table_of N' (hd qs) = Some (t, T')"
    using t(3) False by (auto intro!: table_of_Some simp: N'_def)
  then have "HASH_FIND fcn N' dst keyptr keylen = HASH_FIND fcn N dst keyptr keylen"
    using dst by (simp add: HASH_FIND_def N'_def T'_def)
  with find_ok [OF r' k] show ?thesis by (simp only: e)
qed

text \<open>The next addition follows the tail of the table, which is the first element.\<close>

lemma selected_add:
  assumes r: "selected fcn N dst (p # q # qs)" and add: "add \<notin> set (p # q # qs)" "alive (elems N) add" and k: "unat keylen \<le> length keyptr"
    and n: "length (p # q # qs) + 1 < 2 ^ 32" and room: "bkt_room N \<le> 2 ^ 30" "2 * hash_size N dst \<le> bkt_room N"
  shows "\<exists>N'. HASH_ADD_KEYPTR fcn N dst keyptr keylen add = Some (Inr (N', p)) \<and> HASH_FSCK N' (Some p) = Some False \<and>
    nexts (view nxt (elems N')) [p, add] None"
proof -
  let ?ps = "p # q # qs"
  obtain t T where t: "table_ok N t T (set ?ps)" "tbl_tail T = Some p" "num_items T = of_nat (length ?ps)"
      "\<forall>x \<in> set ?ps. view hh_tbl (elems N) x = Some (Some t)"
    using r by (auto simp: selected_def)
  have s: "dst = Some p" "distinct ?ps" "\<forall>x \<in> set ?ps. filed fcn (elems N) x" "view prv (elems N) p = Some None" "alive (elems N) p"
    using r by (auto simp: selected_def dest: view_alive)
  obtain c where c: "cells (elems N) add = Some c" using add(2) by (auto simp: alive_def)
  have Tc: "cells (tables N) t = Some T" using t(1) by (simp add: table_ok_def)
  have to: "table_of N p = Some (t, T)" using t(4) Tc by (intro table_of_Some) auto
  define h1 where "h1 = upd (upd (elems N) add (\<lambda>c. c\<lparr>nxt := None\<rparr>)) add (\<lambda>c. c\<lparr>hh_key := keyptr, hh_keylen := keylen\<rparr>)"
  define h2 where "h2 = upd (upd h1 p (\<lambda>c. c\<lparr>nxt := Some add\<rparr>)) add (\<lambda>c. c\<lparr>prv := Some p\<rparr>)"
  define T1 where "T1 = T\<lparr>tbl_tail := Some add\<rparr>"
  define N1 where "N1 = N\<lparr>elems := h2, tables := (tables N)\<lparr>cells := (cells (tables N))(t \<mapsto> T1)\<rparr>\<rparr>"
  have pa: "p \<noteq> add" using add(1) by auto
  have "table_of (N\<lparr>elems := h1\<rparr>) p = Some (t, T)" using t(4) pa Tc by (intro table_of_Some) (auto simp: h1_def view_def upd_def)
  then have run: "HASH_ADD_KEYPTR fcn N dst keyptr keylen add = hash_file fcn keyptr keylen add (N1, p)"
    using add(2) s(1,5) t(2) Tc
    by (simp add: HASH_ADD_KEYPTR_def hash_append_def upd_elem_Some upd_table_Some upd_extent hash_bind_simps h1_def h2_def N1_def T1_def)
  have other: "view info h2 x = view info (elems N) x" "view hh_next h2 x = view hh_next (elems N) x" "view hh_prev h2 x = view hh_prev (elems N) x"
    if "x \<noteq> add" for x
  proof -
    have "cells h2 x = map_option (\<lambda>d. if x = p then d\<lparr>nxt := Some add\<rparr> else d) (cells (elems N) x)"
      using that pa by (cases "cells (elems N) x") (auto simp: h2_def h1_def upd_def)
    then show "view info h2 x = view info (elems N) x" "view hh_next h2 x = view hh_next (elems N) x" "view hh_prev h2 x = view hh_prev (elems N) x"
      by (cases "cells (elems N) x"; simp add: view_def info_def)+
  qed
  have x: "x \<noteq> add" if "x \<in> set ?ps" for x using that add(1) by blast
  obtain c' where c': "cells h2 add = Some c'" "hh_key c' = keyptr" "hh_keylen c' = keylen" "nxt c' = None" "prv c' = Some p"
    using c pa by (simp add: h2_def h1_def upd_def)
  have vp: "view nxt h2 p = Some (Some add)" "view prv h2 p = Some None"
    using s(4,5) pa by (auto simp: h2_def h1_def view_def upd_def alive_def)
  have ok: "table_ok N1 t T1 (set ?ps)"
  proof (rule table_ok_frame [OF t(1)])
    fix y assume "y \<in> set ?ps"
    then have "y \<noteq> add" by (rule x)
    from other [OF this] info_field(2) [OF other(1) [OF this]] show "view hh_next (elems N1) y = view hh_next (elems N) y"
      "view hh_prev (elems N1) y = view hh_prev (elems N) y" "view hh_hashv (elems N1) y = view hh_hashv (elems N) y" by (simp_all add: N1_def)
  qed (simp_all add: N1_def T1_def)
  have "view hh_tbl (elems N1) y = Some (Some t) \<and> filed fcn (elems N1) y" if "y \<in> set ?ps" for y
    using t(4) s(3) that info_field(1) [OF other(1) [OF x [OF that]]] info_cells(2) [OF other(1) [OF x [OF that]], of fcn] unfolding N1_def by auto
  then have tb: "view hh_tbl (elems N1) p = Some (Some t)" "\<forall>x \<in> set ?ps. view hh_tbl (elems N1) x = Some (Some t)"
    "\<forall>x \<in> set ?ps. filed fcn (elems N1) x" by auto
  have sz: "unat (num_buckets T1) \<le> hash_size N dst" using to s(1) by (simp add: hash_size_def T1_def)
  have pre: "tbl_tail T1 = Some add" "num_items T1 = of_nat (length ?ps)" "Suc (length ?ps) < 2 ^ 32" "first ?ps (Some add) = Some p"
    "cells (elems N1) add = Some c'" "bkt_room N1 \<le> 2 ^ 30" "\<not> bkt_room N1 < 2 * unat (num_buckets T1)"
    using t(3) n c'(1) room sz by (simp_all add: N1_def T1_def)
  from hash_file_core [OF ok pre(1,2) tb s(2) pre(3,4) add(1) pre(5) c'(2,3) k pre(6)] pre(7)
  obtain N' T' where 1: "hash_file fcn keyptr keylen add (N1, p) = Some (Inr (N', p))" "table_ok N' t T' (set (?ps @ [add]))"
    "num_items T' = of_nat (length (?ps @ [add]))" "\<forall>x \<in> set (?ps @ [add]). view hh_tbl (elems N') x = Some (Some t)"
    "view nxt (elems N') = view nxt (elems N1)" "view prv (elems N') = view prv (elems N1)" by blast
  have ord: "nexts (view nxt (elems N')) [p, add] None" "prevs (view prv (elems N')) None [p, add]"
    unfolding 1(5,6) using vp c' by (simp_all add: N1_def) (simp_all add: view_def)
  obtain k where os: "unat (num_buckets T') = length (buckets T')" "fsck_buckets (elems N') 0 (buckets T') = Some (Some k)"
    using table_chains [OF 1(2)] by (elim exE conjE) blast
  have "table_of N' p = Some (t, T')" using 1(2,4) by (intro table_of_Some) (auto simp: table_ok_def)
  moreover have "num_items T' \<noteq> 2"
  proof
    assume "num_items T' = 2"
    then have "unat (of_nat (length (?ps @ [add])) :: u32) = 2" using 1(3) by simp
    then show False using unat_u32_of_nat [of "length (?ps @ [add])"] n by simp
  qed
  moreover have "fsck_order (elems N') None 0 (Some p) = Some (Some 2)" using fsck_order_ok [OF ord, of 0] by simp
  ultimately have "HASH_FSCK N' (Some p) = Some False" using os by (simp add: HASH_FSCK_def)
  then show ?thesis using run 1(1) ord(1) by auto
qed

end

subsection \<open>Properties\<close>

text \<open>C27: selecting from a hash into an empty one ends, and the new hash holds exactly the elements that pass the test,
  under their keys: a lookup finds the selected element with the key, and nothing when there is none.
  The program exits instead only when memory for the table or for the buckets may run out.\<close>

theorem hash_select_finds_selected:
  assumes "fcn \<in> {HASH_BER, HASH_SAX, HASH_FNV, HASH_OAT, HASH_JEN, HASH_SFH, HASH_MUR}"
    and "hash_rep fcn M src ps" and "\<forall>p \<in> set ps. alive (elems N) p" and "bkt_room N \<le> 2 ^ 30"
  shows "HASH_SELECT N None M src cond = Some (Inl Out_of_memory) \<and>
      (limit (tables N) \<le> brk (tables N) \<or> bkt_room N < 32 * 2 ^ card {p \<in> set ps. cond p}) \<or>
    (\<exists>N' dst'. HASH_SELECT N None M src cond = Some (Inr (N', dst')) \<and>
       (\<forall>p \<in> set ps. cond p \<longrightarrow> key_of (elems N') p = key_of (elems M) p) \<and>
       (\<forall>keyptr keylen. unat keylen \<le> length keyptr \<longrightarrow> (\<exists>r. HASH_FIND fcn N' dst' keyptr keylen = Some r \<and>
          (case r of None \<Rightarrow> \<forall>p \<in> set ps. cond p \<longrightarrow> key_of (elems M) p \<noteq> take (unat keylen) keyptr
           | Some p \<Rightarrow> p \<in> set ps \<and> cond p \<and> key_of (elems M) p = take (unat keylen) keyptr))))"
proof -
  note f = hash_functions [OF assms(1)]
  from hash_function.select_ok [OF f assms(2-4), of cond] obtain qs where qs: "distinct qs" "set qs = {p \<in> set ps. cond p}"
    "HASH_SELECT N None M src cond = Some (Inl Out_of_memory) \<and> (limit (tables N) \<le> brk (tables N) \<or> bkt_room N < 32 * 2 ^ length qs) \<or>
     (\<exists>N' dst'. HASH_SELECT N None M src cond = Some (Inr (N', dst')) \<and> selected fcn N' dst' qs \<and>
        (\<forall>p \<in> set qs. key_of (elems N') p = key_of (elems M) p))" by blast
  have n: "length qs = card {p \<in> set ps. cond p}" using qs(1,2) by (metis distinct_card)
  from qs(3) show ?thesis
  proof (elim disjE exE conjE)
    fix N' dst'
    assume 1: "HASH_SELECT N None M src cond = Some (Inr (N', dst'))" "selected fcn N' dst' qs" "\<forall>p \<in> set qs. key_of (elems N') p = key_of (elems M) p"
    have "\<exists>r. HASH_FIND fcn N' dst' keyptr keylen = Some r \<and>
          (case r of None \<Rightarrow> \<forall>p \<in> set ps. cond p \<longrightarrow> key_of (elems M) p \<noteq> take (unat keylen) keyptr
           | Some p \<Rightarrow> p \<in> set ps \<and> cond p \<and> key_of (elems M) p = take (unat keylen) keyptr)" if "unat keylen \<le> length keyptr" for keyptr keylen
      using hash_function.selected_find [OF f 1(2) that] 1(3) qs(2) by (auto split: option.splits)
    then show ?thesis using 1(1,3) qs(2) by blast
  qed (use n in auto)
qed

text \<open>The elements 0, 1 and 2 with the keys 3, 1 and 2, of which the last two are selected.\<close>

lemma sample_source:
  "\<exists>M head. hash_run HASH_JEN (sample_hash, None) [Op_add [3] 1 0, Op_add [1] 1 1, Op_add [2] 1 2] =
      Some (Inr ((M, head), [No_output, No_output, No_output])) \<and> dict_rep HASH_JEN M head [(0, [3]), (1, [1]), (2, [2])]"
proof -
  have "ops_ok (alive (elems sample_hash)) [] [Op_add [3] 1 0, Op_add [1] 1 1, Op_add [2] 1 2]" by (simp add: sample_hash_def alive_def)
  from jen.run_ok [OF sample_dict this] show ?thesis by (auto simp: sample_hash_def empty_heap_def hash_size_def)
qed

theorem hash_select_finds_selected_witness:
  "\<exists>M head N dst. hash_run HASH_JEN (sample_hash, None) [Op_add [3] 1 0, Op_add [1] 1 1, Op_add [2] 1 2] =
       Some (Inr ((M, head), [No_output, No_output, No_output])) \<and>
     HASH_SELECT sample_hash None M head (\<lambda>p. p \<noteq> 0) = Some (Inr (N, dst)) \<and>
     HASH_FIND HASH_JEN N dst [2] 1 = Some (Some 2) \<and> HASH_FIND HASH_JEN N dst [3] 1 = Some None"
proof -
  obtain M head where M: "hash_run HASH_JEN (sample_hash, None) [Op_add [3] 1 0, Op_add [1] 1 1, Op_add [2] 1 2] =
      Some (Inr ((M, head), [No_output, No_output, No_output]))" "dict_rep HASH_JEN M head [(0, [3]), (1, [1]), (2, [2])]"
    using sample_source by blast
  have r: "hash_rep HASH_JEN M head [0, 1, 2]" and k: "key_of (elems M) 0 = [3]" "key_of (elems M) 1 = [1]" "key_of (elems M) 2 = [2]"
    using M(2) by (auto simp: dict_rep_def)
  have s: "\<forall>p \<in> set [0, 1, 2]. alive (elems sample_hash) p" "bkt_room sample_hash = 1024" "limit (tables sample_hash) = 4"
    "brk (tables sample_hash) = 0" by (auto simp: sample_hash_def alive_def empty_heap_def)
  have "{p \<in> set [0, 1, 2 :: ptr]. p \<noteq> 0} = {1, 2}" by auto
  then have "card {p \<in> set [0, 1, 2 :: ptr]. p \<noteq> 0} = 2" by simp
  with hash_select_finds_selected [OF _ r s(1), of "\<lambda>p. p \<noteq> 0"] s(2-4) obtain N dst where
    1: "HASH_SELECT sample_hash None M head (\<lambda>p. p \<noteq> 0) = Some (Inr (N, dst))" and
    2: "\<And>keyptr keylen. unat keylen \<le> length keyptr \<Longrightarrow> (\<exists>r. HASH_FIND HASH_JEN N dst keyptr keylen = Some r \<and>
          (case r of None \<Rightarrow> \<forall>p \<in> set [0, 1, 2]. p \<noteq> 0 \<longrightarrow> key_of (elems M) p \<noteq> take (unat keylen) keyptr
           | Some p \<Rightarrow> p \<in> set [0, 1, 2] \<and> p \<noteq> 0 \<and> key_of (elems M) p = take (unat keylen) keyptr))" by auto
  obtain r3 where "HASH_FIND HASH_JEN N dst [3] 1 = Some r3" "case r3 of None \<Rightarrow> \<forall>p \<in> set [0, 1, 2]. p \<noteq> 0 \<longrightarrow> key_of (elems M) p \<noteq> take (unat (1 :: u32)) [3]
      | Some p \<Rightarrow> p \<in> set [0, 1, 2] \<and> p \<noteq> 0 \<and> key_of (elems M) p = take (unat (1 :: u32)) [3]" using 2 [of 1 "[3]"] by auto
  then have "HASH_FIND HASH_JEN N dst [3] 1 = Some None" using k by (cases r3) auto
  moreover have "HASH_FIND HASH_JEN N dst [2] 1 = Some (Some 2)" using 2 [of 1 "[2]"] k by (auto split: option.splits)
  ultimately show ?thesis using M(1) 1 by blast
qed

text \<open>The tail of the new table stays at its first element.  Once two or more elements were selected, the
  next addition links its element behind the first one: iteration visits only these two, and the
  consistency check fails.\<close>

theorem hash_select_misplaces_tail:
  assumes "selected fcn N dst (p # q # qs)" and "add \<notin> set (p # q # qs)" "alive (elems N) add" "unat keylen \<le> length keyptr"
    and "length (p # q # qs) + 1 < 2 ^ 32" "bkt_room N \<le> 2 ^ 30" "2 * hash_size N dst \<le> bkt_room N"
    and "fcn \<in> {HASH_BER, HASH_SAX, HASH_FNV, HASH_OAT, HASH_JEN, HASH_SFH, HASH_MUR}"
  shows "\<exists>N'. HASH_ADD_KEYPTR fcn N dst keyptr keylen add = Some (Inr (N', p)) \<and> HASH_FSCK N' (Some p) = Some False \<and>
    nexts (view nxt (elems N')) [p, add] None"
  by (rule hash_function.selected_add [OF hash_functions [OF assms(8)] assms(1-7)])

end
