(* ===== verification/Spec2Isabelle.thy ===== *)
theory Spec2Isabelle
  imports Main_Programs KV_Concurrent Malloc Shell Young_Server Ut_Hash_Select
begin

text \<open>
  Verification of the C programs of the repository: a replicated key-value store with two-phase commit
  (\<^verbatim>\<open>src/2PCKVStore\<close>), an allocator (\<^verbatim>\<open>src/malloc\<close>), a shell (\<^verbatim>\<open>src/shell\<close>) and an HTTP server
  (\<^verbatim>\<open>src/httpserver\<close>).

  \<^bold>\<open>The key-value store.\<close>  A leader process and several follower processes talk HTTP.  Each is a socket
  server: one thread accepts connections and pushes them on a work queue, worker threads pop them and
  handle one request each.  A follower keeps its entries and its log in files.  The leader keeps a ring
  of registered followers and runs two-phase commit over all of them for every PUT and DEL.

    \<^item> \<open>KV_Constants\<close>: \<^verbatim>\<open>kvconstants.h\<close>.  \<open>Posix_Files\<close>: the file operations the stores use, on a record of
      directories, file contents and paths without permission.
    \<^item> \<open>Work_Queue\<close>: \<^verbatim>\<open>wq.c\<close>, on the doubly linked lists of \<open>Ut_List\<close>.  Every interleaving of pushes and pops is first-in first-out (locale \<open>fifo\<close>,
      interpreted as \<open>wq\<close>).
    \<^item> \<open>MD5\<close>: \<^verbatim>\<open>md5.c\<close> on 32-bit words and \<^verbatim>\<open>strhash64\<close>.  Any sequence of updates computes the digest of
      RFC 1321, written as a reference definition.
    \<^item> \<open>KV_Store\<close>: \<^verbatim>\<open>kvstore.c\<close>.  Entries are files named by hash and position in a chain; get, put and del
      refine a finite map (locale \<open>map_store\<close>, interpreted as \<open>kvs\<close>, and as \<open>fol\<close> on the follower).
    \<^item> \<open>KV_Concurrent\<close>: the critical sections of \<^verbatim>\<open>kvstore.c\<close> under any schedule of threads.  Writers on different
      hash chains are linearizable; two insertions of one new key are not.
    \<^item> \<open>TPC_Log\<close>: \<^verbatim>\<open>tpclog.c\<close>.  The log survives restarts (locale \<open>persistent_log\<close>, interpreted as \<open>tpcl\<close>).
    \<^item> \<open>C_String\<close>, \<open>Lib_URL\<close>, \<open>Lib_HTTP\<close>, \<open>KV_Message\<close>: the C string functions in use, \<^verbatim>\<open>liburl.c\<close>,
      \<^verbatim>\<open>libhttp.c\<close>, \<^verbatim>\<open>kvmessage.c\<close>.  Requests and responses come back from the wire as they were sent, and
      receiving is safe on every input.
    \<^item> \<open>TPC_Follower\<close>: \<^verbatim>\<open>tpcfollower.c\<close> and \<^verbatim>\<open>index.h\<close>.  The handler implements an abstract follower, a map and a
      list of log entries, also across restarts.
    \<^item> \<open>TPC_Leader\<close>: \<^verbatim>\<open>tpcleader.c\<close> with its ring of followers as pointers.  Registration keeps a sorted ring;
      the pointer-level protocol is two-phase commit over the list of followers, for every network.
    \<^item> \<open>TPC_Cluster\<close>: a leader with its followers (locale \<open>cluster\<close>, interpreted as \<open>cl\<close> on the model's own
      followers and messages) answers as one map, and the replicas agree.
    \<^item> \<open>Socket_Server\<close>: \<^verbatim>\<open>socket_server.c\<close> as a transition system over the states of the accepting thread and the
      workers (inductive \<open>step\<close> and \<open>reach\<close>).  No connection is lost or handled twice, queued connections are
      answered, and the leader server is linearizable (locale \<open>request_handler\<close>, interpreted as \<open>fh\<close> on the
      follower and \<open>lh\<close> on the leader).
    \<^item> \<open>Main_Programs\<close>: \<^verbatim>\<open>main/tpcleader.c\<close> and \<^verbatim>\<open>main/tpcfollower.c\<close>, arguments and start.

  \<^bold>\<open>Lists and hashes.\<close>  The headers \<^verbatim>\<open>utlist.h\<close> and \<^verbatim>\<open>uthash.h\<close> of \<^verbatim>\<open>src/2PCKVStore\<close> are macros over elements that carry
  their own links; an element is a record that extends the links, at an address of a heap.

    \<^item> \<open>Ut_List\<close>: the singly linked, doubly linked and circular lists of \<^verbatim>\<open>utlist.h\<close>, with the variants for compilers without
      \<^verbatim>\<open>decltype\<close>.  Every sequence of edits acts on the list of addresses as it says (locale \<open>list_macros\<close>, interpreted
      as \<open>ll\<close>, \<open>dl\<close> and \<open>cdl\<close>), and the safe loops may free the element they are at.
    \<^item> \<open>Ut_Sort\<close>: the bottom-up merge sorts of the three lists, one model with the differences as a parameter.  The result is
      the stable sorting of the library (locale \<open>list_sort\<close>, interpreted as \<open>ll_sort\<close>, \<open>dl_sort\<close>, \<open>cdl_sort\<close> and, for
      the sort of a hash, \<open>hash_sort\<close>).
    \<^item> \<open>Ut_Hash_Functions\<close>: the seven hash functions.  Jenkins' and Murmur's agree with definitions that pad the key with zeros.
    \<^item> \<open>Ut_Hash\<close>: the hash tables, with buckets that double, two sets of links in each element and the consistency check.
      Through any sequence of operations a hash is a dictionary in the order of insertion (locale \<open>hash_function\<close>,
      interpreted as \<open>ber\<close>, \<open>sax\<close>, \<open>fnv\<close>, \<open>oat\<close>, \<open>jen\<close>, \<open>sfh\<close> and \<open>mur\<close>).  Tables have at most \<open>2 ^ 30\<close> buckets, since the
      next doublings leave the width of the counters.
    \<^item> \<open>Ut_Hash_Select\<close>: selecting from one hash into another.

  \<^bold>\<open>The allocator.\<close>  \<open>Malloc\<close>: \<^verbatim>\<open>mm_alloc.c\<close>, on an array of 16-byte units with the circular free list in it and
  64-bit sizes.  Prologue, free and live blocks tile the heap; allocation ends; a client that keeps to its
  blocks never loses their contents (locale \<open>allocator\<close>, interpreted as \<open>mm\<close>).

  \<^bold>\<open>The shell.\<close>  \<open>Tokenizer\<close>: \<^verbatim>\<open>tokenizer.c\<close>, with the well-formedness of its result, a round trip for quoted
  words and the equivalence with splitting at white space for lines without quotes.  \<open>Shell\<close>: \<^verbatim>\<open>shell.c\<close> on a state with the
  descriptor table, the file system and the programs run.  Over a session the standard streams stay in
  place; redirection does what it says while descriptors last.

  \<^bold>\<open>The HTTP server.\<close>  \<open>Robust_IO\<close>: the buffered reader and writer of \<^verbatim>\<open>yng_request.c\<close> against the results of
  \<^verbatim>\<open>read\<close> and \<^verbatim>\<open>write\<close> (locale \<open>line_reader\<close>, interpreted as \<open>rio\<close>).  \<open>Young_Server\<close>: the rest of
  \<^verbatim>\<open>yng_request.c\<close>, \<^verbatim>\<open>yng_connection.c\<close>, \<^verbatim>\<open>yng_util.c\<close> and \<^verbatim>\<open>young.c\<close>; static files are served exactly, errors get
  their status.

  \<^bold>\<open>How C is modelled.\<close>  The result \<^const>\<open>None\<close> of an operation is undefined behaviour or not returning: an
  invalid pointer, a write beyond a buffer, a read of unset memory, signed overflow, an endless loop
  (\<open>partial_function (option)\<close>).  A theorem that gives \<^const>\<open>Some\<close> thus says that the operation is safe and returns.
  Where a call can wait or exits the process the result says so by a value of its own.  Unsigned integers are
  words, so they wrap; signed ones are integers with their range checked.  Loops over lists, events or
  strings are structural or have a termination proof; no theorem depends on fuel.

  \<^bold>\<open>Assumptions.\<close>  Memory for the small objects of the key-value servers, the tokenizer and the shell suffices,
  except where \<^verbatim>\<open>malloc\<close> is modelled.  The handling of one request is one step of the servers;
  \<open>KV_Concurrent\<close> shows for the store alone how far the finer interleavings of two workers agree with that, and
  where they do not.  A section under a lock is one step, so the locks are not state.  Files are written completely.  What is outside the
  repository is an argument: the network, \<^verbatim>\<open>fork\<close> and \<^verbatim>\<open>exec\<close>, directory listings, path resolution, results of
  system calls, bytes of unset memory.

  \<^bold>\<open>Not modelled.\<close>  The parts of \<^verbatim>\<open>uthash.h\<close> under \<^verbatim>\<open>HASH_BLOOM\<close> and \<^verbatim>\<open>HASH_EMIT_KEYS\<close>, which no file defines, its block
  reads for processors other than Intel, its estimate \<^verbatim>\<open>HASH_OVERHEAD\<close> of the memory in use and the shorthands for integer and string keys; the page in \<^verbatim>\<open>index.S\<close> and \<^verbatim>\<open>index.html\<close>, which is data; output to the terminal of the servers, which
  has no effect on them; the buffering of standard output in the shell; build files, test scripts and CGI
  scripts; the MapReduce exercises under \<^verbatim>\<open>src/distributed-systems\<close>, which are Go.
\<close>

end
